(* ===== verification/Lumbre_Prelude.thy ===== *)
theory Lumbre_Prelude
  imports Main "HOL-Library.Word" "HOL-Library.Monad_Syntax"
begin

text \<open>
  Shared vocabulary of the development: the machine integers of the C sources, byte regions with
  bounds-checked \<open>memcpy\<close> and byte loads, the little- and big-endian images of integers, C
  string literals, and the lemmas about them that every component uses.

  A C function that touches memory is a function into \<open>'a option\<close>. \<^const>\<open>None\<close> is
  an access outside the object it is meant for (undefined behaviour in C); everything the code
  itself reports, return codes included, is inside \<^const>\<open>Some\<close>.
\<close>

unbundle bit_operations_syntax

named_theorems mem "equations of the byte-region operations"
named_theorems width "word arithmetic as arithmetic on natural numbers"

subsection \<open>Machine integers and literals\<close>

type_synonym u8 = "8 word"
type_synonym u16 = "16 word"
type_synonym u32 = "32 word"
type_synonym u64 = "64 word"
type_synonym bytes = "u8 list"

text \<open>The bytes of a C string literal, without the terminating NUL.\<close>

definition c_str :: "string \<Rightarrow> bytes" where
  "c_str s = map of_char s"

lemma length_c_str [simp]: "length (c_str s) = length s"
  by (simp add: c_str_def)

subsection \<open>Byte regions\<close>

definition overwrite :: "bytes \<Rightarrow> nat \<Rightarrow> bytes \<Rightarrow> bytes" where
  "overwrite m p bs = take p m @ bs @ drop (p + length bs) m"

text \<open>\<open>memcpy\<close> into a region, and reading \<open>n\<close> bytes of one.\<close>

definition mem_store :: "bytes \<Rightarrow> nat \<Rightarrow> bytes \<Rightarrow> bytes option" where
  "mem_store m p bs = (if p + length bs \<le> length m then Some (overwrite m p bs) else None)"

definition mem_load :: "bytes \<Rightarrow> nat \<Rightarrow> nat \<Rightarrow> bytes option" where
  "mem_load m p n = (if p + n \<le> length m then Some (take n (drop p m)) else None)"

lemma mem_store_fits [mem]: "p + length bs \<le> length m \<Longrightarrow> mem_store m p bs = Some (overwrite m p bs)"
  by (simp add: mem_store_def)

lemma mem_store_out [mem]: "length m < p + length bs \<Longrightarrow> mem_store m p bs = None"
  by (simp add: mem_store_def)

lemma mem_load_fits [mem]: "p + n \<le> length m \<Longrightarrow> mem_load m p n = Some (take n (drop p m))"
  by (simp add: mem_load_def)

lemma mem_load_out [mem]: "length m < p + n \<Longrightarrow> mem_load m p n = None"
  by (simp add: mem_load_def)

lemma mem_load_SomeD: "mem_load m p n = Some bs \<Longrightarrow> p + n \<le> length m \<and> bs = take n (drop p m)"
  by (simp add: mem_load_def split: if_splits)

lemma mem_load_length: "mem_load m p n = Some bs \<Longrightarrow> length bs = n"
  by (auto dest: mem_load_SomeD)

lemma length_overwrite [simp]: "p + length bs \<le> length m \<Longrightarrow> length (overwrite m p bs) = length m"
  by (simp add: overwrite_def)

lemma overwrite_Nil [simp]: "overwrite m p [] = m"
  by (simp add: overwrite_def)

lemma overwrite_append:
  "p + length xs + length ys \<le> length m \<Longrightarrow>
   overwrite (overwrite m p xs) (p + length xs) ys = overwrite m p (xs @ ys)"
  by (simp add: overwrite_def ac_simps)

lemma overwrite_nth:
  "p + length bs \<le> length m \<Longrightarrow> i < length m \<Longrightarrow>
   overwrite m p bs ! i = (if p \<le> i \<and> i < p + length bs then bs ! (i - p) else m ! i)"
  by (auto simp: overwrite_def nth_append min_def)

lemma take_overwrite:
  "p + length bs \<le> length m \<Longrightarrow> take (p + length bs) (overwrite m p bs) = take p m @ bs"
  by (simp add: overwrite_def)

lemma mem_load_overwrite [mem]:
  "p + length bs \<le> length m \<Longrightarrow> n = length bs \<Longrightarrow> mem_load (overwrite m p bs) p n = Some bs"
  by (simp add: mem_load_def overwrite_def)

text \<open>A load depends on the bytes it covers only.\<close>

lemma mem_load_cong:
  assumes "length m' = length m" and "\<And>i. p \<le> i \<Longrightarrow> i < p + n \<Longrightarrow> m' ! i = m ! i"
  shows "mem_load m' p n = mem_load m p n"
proof (cases "p + n \<le> length m")
  case True
  then have "take n (drop p m') = take n (drop p m)"
    by (intro nth_equalityI) (auto simp: assms)
  with True assms(1) show ?thesis by (simp add: mem_load_def)
next
  case False
  with assms(1) show ?thesis by (simp add: mem_load_def)
qed

lemma mem_load_overwrite_disjoint:
  assumes "q + length bs \<le> length m" and "p + n \<le> q \<or> q + length bs \<le> p"
  shows "mem_load (overwrite m q bs) p n = mem_load m p n"
proof (cases "p + n \<le> length m")
  case True
  with assms show ?thesis
    by (intro mem_load_cong) (auto simp: overwrite_nth)
next
  case False
  with assms show ?thesis by (simp add: mem_load_def)
qed

subsection \<open>Integers as bytes\<close>

definition le16 :: "u16 \<Rightarrow> bytes" where
  "le16 v = map (\<lambda>i. ucast (drop_bit i v)) [0, 8]"

definition le32 :: "u32 \<Rightarrow> bytes" where
  "le32 v = map (\<lambda>i. ucast (drop_bit i v)) [0, 8, 16, 24]"

definition le64 :: "u64 \<Rightarrow> bytes" where
  "le64 v = map (\<lambda>i. ucast (drop_bit i v)) [0, 8, 16, 24, 32, 40, 48, 56]"

text \<open>The value of a big-endian byte string; a little-endian one is read from the other end.\<close>

definition be_val :: "bytes \<Rightarrow> 'a::len word" where
  "be_val bs = foldl (\<lambda>acc b. push_bit 8 acc OR ucast b) 0 bs"

definition le_val :: "bytes \<Rightarrow> 'a::len word" where
  "le_val bs = be_val (rev bs)"

lemma length_le [simp]: "length (le16 v) = 2" "length (le32 w) = 4" "length (le64 x) = 8"
  by (simp_all add: le16_def le32_def le64_def)

lemma byte_shift_in:
  "8 \<le> LENGTH('a::len) \<Longrightarrow>
   push_bit 8 (drop_bit (n + 8) x) OR ucast (ucast (drop_bit n x) :: u8) = drop_bit n (x :: 'a word)"
  by (rule bit_eqI) (auto simp: bit_simps)

lemma top_byte:
  "LENGTH('a::len) \<le> n + 8 \<Longrightarrow> ucast (ucast (drop_bit n x) :: u8) = drop_bit n (x :: 'a word)"
  by (rule bit_eqI) (auto simp: bit_simps dest: bit_imp_le_length)

lemma le16_val [simp]: "le_val (le16 v) = v"
  using byte_shift_in [of 0 v] top_byte [of 8 v]
  by (simp add: le_val_def be_val_def le16_def)

lemma le32_val [simp]: "le_val (le32 v) = v"
  using byte_shift_in [of 0 v] byte_shift_in [of 8 v] byte_shift_in [of 16 v] top_byte [of 24 v]
  by (simp add: le_val_def be_val_def le32_def)

lemma le64_val [simp]: "le_val (le64 v) = v"
  using byte_shift_in [of 0 v] byte_shift_in [of 8 v] byte_shift_in [of 16 v]
    byte_shift_in [of 24 v] byte_shift_in [of 32 v] byte_shift_in [of 40 v]
    byte_shift_in [of 48 v] top_byte [of 56 v]
  by (simp add: le_val_def be_val_def le64_def)

lemma le32_inject [simp]: "le32 v = le32 w \<longleftrightarrow> v = w"
  by (metis le32_val)

text \<open>Reading a byte string as a number loses nothing: the bytes come back.\<close>

lemma le_val_Cons: "le_val (b # bs) = push_bit 8 (le_val bs) OR ucast b"
  by (simp add: le_val_def be_val_def)
lemma bit_le_val: "bit (le_val bs :: 'a::len word) n \<longleftrightarrow>
   n < LENGTH('a) \<and> n div 8 < length bs \<and> bit (bs ! (n div 8)) (n mod 8)"
proof (induction bs arbitrary: n)
  case Nil
  then show ?case by (simp add: le_val_def be_val_def)
next
  case (Cons b bs)
  show ?case
  proof (cases "n < 8")
    case True
    then show ?thesis by (auto simp: le_val_Cons bit_simps)
  next
    case False
    then have "n div 8 = Suc ((n - 8) div 8)" "(n - 8) mod 8 = n mod 8"
      by (simp_all add: le_div_geq le_mod_geq)
    with False show ?thesis
      by (auto simp: le_val_Cons bit_simps Cons.IH dest: bit_imp_le_length)
  qed
qed
definition le_bytes :: "nat \<Rightarrow> 'a::len word \<Rightarrow> bytes" where
  "le_bytes n w = map (\<lambda>i. ucast (drop_bit (8 * i) w)) [0..<n]"

lemma le_as_le_bytes: "le16 v = le_bytes 2 v" "le32 w = le_bytes 4 w" "le64 x = le_bytes 8 x"
  by (simp_all add: le16_def le32_def le64_def le_bytes_def upt_rec numeral_eq_Suc)

lemma le_bytes_le_val:
  assumes "8 * length bs \<le> LENGTH('a::len)"
  shows "le_bytes (length bs) (le_val bs :: 'a word) = bs"
proof (rule nth_equalityI)
  fix i assume "i < length (le_bytes (length bs) (le_val bs :: 'a word))"
  then have i: "i < length bs" by (simp add: le_bytes_def)
  have "(8 * i + j) div 8 = i" "(8 * i + j) mod 8 = j" "8 * i + j < LENGTH('a)" if "j < 8" for j
    using that i assms by auto
  with i show "le_bytes (length bs) (le_val bs :: 'a word) ! i = bs ! i"
    by (auto simp: le_bytes_def bit_simps bit_le_val intro!: bit_eqI)
qed (simp add: le_bytes_def)

lemma le_of_le_val:
  "length bs = 2 \<Longrightarrow> le16 (le_val bs) = bs"
  "length bs = 4 \<Longrightarrow> le32 (le_val bs) = bs"
  "length bs = 8 \<Longrightarrow> le64 (le_val bs) = bs"
  using le_bytes_le_val [of bs, where ?'a = 16] le_bytes_le_val [of bs, where ?'a = 32]
    le_bytes_le_val [of bs, where ?'a = 64]
  by (simp_all add: le_as_le_bytes)

subsection \<open>Widths\<close>

lemma unat_plus [width]:
  "unat a + unat b < 2 ^ LENGTH('a::len) \<Longrightarrow> unat (a + b :: 'a word) = unat a + unat b"
  by (simp add: unat_word_ariths)

lemma unat_u32_lt: "unat (x :: u32) < 4294967296"
  using unsigned_less [of x, where ?'a = nat] by simp

lemma unat_u64_lt: "unat (x :: u64) < 18446744073709551616"
  using unsigned_less [of x, where ?'a = nat] by simp

lemma unat_ucast_up [width]:
  "LENGTH('a::len) \<le> LENGTH('b::len) \<Longrightarrow> unat (ucast (x :: 'a word) :: 'b word) = unat x"
  by (simp add: unsigned_ucast_eq take_bit_nat_eq_self order.strict_trans2 [OF unsigned_less])

lemma unat_u16_of_u32 [width]: "unat (x :: u32) < 65536 \<Longrightarrow> unat (ucast x :: u16) = unat x"
  by (simp add: unsigned_ucast_eq take_bit_nat_eq_self)

lemma unat_2p [width]:
  assumes "n < LENGTH('a::len)"
  shows "unat (2 ^ n :: 'a word) = 2 ^ n"
proof -
  have "unat (word_of_nat (2 ^ n) :: 'a word) = 2 ^ n"
    using assms by (simp only: unat_of_nat) simp
  then show ?thesis by simp
qed

lemma pow2_less_cancel: "(2::nat) ^ a < 2 ^ b \<Longrightarrow> a < b"
  by simp

text \<open>A byte is one of 256, for proofs by evaluation.\<close>

lemma byte_cases:
  assumes "list_all (\<lambda>i. P (of_nat i)) [0..<256]"
  shows "P (x :: u8)"
proof -
  have "unat x < 256" using unsigned_less [of x, where ?'a = nat] by simp
  then have "unat x \<in> set [0..<256]" by simp
  with assms have "P (of_nat (unat x))" unfolding list_all_iff by blast
  then show ?thesis by simp
qed

end
