(* ===== verification/Lumbre_Pow2.thy ===== *)
theory Lumbre_Pow2
  imports Lumbre_Prelude
begin

text \<open>
  Rounding a capacity to a power of two: the bit test \<^verbatim>\<open>LUMBRE_IS_POWER_OF_TWO\<close> and the bit
  smearing of \<^verbatim>\<open>lumbre_next_power_of_2\<close>, verified against powers of two on the natural
  numbers for all 32-bit arguments, including those whose result does not fit.
\<close>

definition LUMBRE_IS_POWER_OF_TWO :: "u32 \<Rightarrow> bool" where
  "LUMBRE_IS_POWER_OF_TWO n \<longleftrightarrow> n \<noteq> 0 \<and> n AND (n - 1) = 0"

definition lumbre_next_power_of_2 :: "u32 \<Rightarrow> u32" where
  "lumbre_next_power_of_2 v =
     (if v = 0 then 1
      else if LUMBRE_IS_POWER_OF_TWO v then v
      else
        let v = v - 1;
            v = v OR drop_bit 1 v;
            v = v OR drop_bit 2 v;
            v = v OR drop_bit 4 v;
            v = v OR drop_bit 8 v;
            v = v OR drop_bit 16 v
        in v + 1)"

subsection \<open>The highest set bit\<close>

lemma top_bit_exists:
  assumes "(x :: u32) \<noteq> 0"
  obtains h where "h < 32" "2 ^ h \<le> unat x" "unat x < 2 ^ Suc h"
proof -
  have "0 < unat x" using assms by (simp add: unat_gt_0)
  then obtain h where h: "2 ^ h \<le> unat x" "unat x < 2 ^ Suc h"
    using ex_power_ivl1 [of 2 "unat x"] by auto
  have "(2::nat) ^ h < 2 ^ 32" using h(1) unat_u32_lt [of x] by simp
  then have "h < 32" by (rule pow2_less_cancel)
  with h that show ?thesis by blast
qed

lemma bit_top:
  assumes "2 ^ h \<le> unat (x :: u32)" and "unat x < 2 ^ Suc h"
  shows "bit x h" and "h < n \<Longrightarrow> \<not> bit x n"
proof -
  have "unat x div 2 ^ h = 1"
    using assms by (intro div_nat_eqI) simp_all
  then have "bit (unat x) h" by (simp add: bit_iff_odd)
  then show "bit x h" by (simp add: bit_simps)
  assume "h < n"
  then have "unat x < 2 ^ n"
    using assms(2) by (meson Suc_leI less_le_trans one_le_numeral power_increasing)
  then have "\<not> bit (unat x) n" by (simp add: bit_iff_odd)
  then show "\<not> bit x n" by (simp add: bit_simps)
qed

lemma is_power_of_two_iff:
  "LUMBRE_IS_POWER_OF_TWO v \<longleftrightarrow> (\<exists>k < 32. v = 2 ^ k)"
proof
  assume p: "LUMBRE_IS_POWER_OF_TWO v"
  then obtain h where h: "h < 32" "2 ^ h \<le> unat v" "unat v < 2 ^ Suc h"
    using top_bit_exists [of v] by (auto simp: LUMBRE_IS_POWER_OF_TWO_def)
  have "unat v = 2 ^ h"
  proof (rule ccontr)
    assume "unat v \<noteq> 2 ^ h"
    with p h have "2 ^ h \<le> unat (v - 1)" "unat (v - 1) < 2 ^ Suc h"
      by (auto simp: LUMBRE_IS_POWER_OF_TWO_def unat_minus_one)
    then have "bit (v - 1) h" by (rule bit_top(1))
    moreover have "bit v h" using h by (rule_tac bit_top(1))
    ultimately have "bit (v AND (v - 1)) h" by (simp add: bit_simps)
    with p show False by (simp add: LUMBRE_IS_POWER_OF_TWO_def)
  qed
  then have "v = 2 ^ h" using h(1) by (simp add: word_unat_eq_iff unat_2p)
  with h(1) show "\<exists>k < 32. v = 2 ^ k" by blast
next
  assume "\<exists>k < 32. v = 2 ^ k"
  then obtain k where k: "k < 32" "v = 2 ^ k" by blast
  have "(2 :: u32) ^ k AND mask k = 0"
    by (rule bit_eqI) (auto simp: bit_simps)
  with k show "LUMBRE_IS_POWER_OF_TWO v"
    by (simp add: LUMBRE_IS_POWER_OF_TWO_def mask_eq_exp_minus_1)
qed

subsection \<open>Smearing\<close>

text \<open>After the steps up to \<open>k\<close>, a bit is set when one of the \<open>k\<close> bits from it upwards was.\<close>

lemma smear_step:
  assumes "\<And>n. bit (w :: u32) n \<longleftrightarrow> (\<exists>j < k. bit (x :: u32) (n + j))"
  shows "bit (w OR drop_bit k w) n \<longleftrightarrow> (\<exists>j < k + k. bit x (n + j))"
proof
  assume "bit (w OR drop_bit k w) n"
  then consider "bit w n" | "bit w (k + n)" by (auto simp: bit_simps)
  then show "\<exists>j < k + k. bit x (n + j)"
  proof cases
    case 1
    then obtain j where "j < k" "bit x (n + j)" using assms by blast
    then show ?thesis by (intro exI [of _ j]) simp
  next
    case 2
    then obtain j where "j < k" "bit x (k + n + j)" using assms by blast
    then show ?thesis by (intro exI [of _ "k + j"]) (simp add: ac_simps)
  qed
next
  assume "\<exists>j < k + k. bit x (n + j)"
  then obtain j where j: "j < k + k" "bit x (n + j)" by blast
  show "bit (w OR drop_bit k w) n"
  proof (cases "j < k")
    case True
    with j assms show ?thesis by (auto simp: bit_simps)
  next
    case False
    with j have "j - k < k" "bit x (k + n + (j - k))" by (simp_all add: ac_simps)
    then have "bit w (k + n)" using assms by blast
    then show ?thesis by (simp add: bit_simps)
  qed
qed

definition smear :: "u32 \<Rightarrow> u32" where
  "smear v =
     (let v = v OR drop_bit 1 v;
          v = v OR drop_bit 2 v;
          v = v OR drop_bit 4 v;
          v = v OR drop_bit 8 v
      in v OR drop_bit 16 v)"

lemma bit_smear: "bit (smear x) n \<longleftrightarrow> (\<exists>j < 32. bit x (n + j))"
proof -
  define s1 where "s1 = x OR drop_bit 1 x"
  define s2 where "s2 = s1 OR drop_bit 2 s1"
  define s4 where "s4 = s2 OR drop_bit 4 s2"
  define s8 where "s8 = s4 OR drop_bit 8 s4"
  have 1: "bit s1 n \<longleftrightarrow> (\<exists>j < 2. bit x (n + j))" for n
    using smear_step [of x 1 x n] by (simp add: s1_def numeral_2_eq_2)
  have 2: "bit s2 n \<longleftrightarrow> (\<exists>j < 4. bit x (n + j))" for n
    using smear_step [OF 1] by (simp add: s2_def)
  have 4: "bit s4 n \<longleftrightarrow> (\<exists>j < 8. bit x (n + j))" for n
    using smear_step [OF 2] by (simp add: s4_def)
  have 8: "bit s8 n \<longleftrightarrow> (\<exists>j < 16. bit x (n + j))" for n
    using smear_step [OF 4] by (simp add: s8_def)
  have "smear x = s8 OR drop_bit 16 s8"
    by (simp add: smear_def s1_def s2_def s4_def s8_def)
  then show ?thesis using smear_step [OF 8, of n] by simp
qed

lemma smear_mask:
  assumes "2 ^ h \<le> unat (x :: u32)" and "unat x < 2 ^ Suc h" and "h < 32"
  shows "smear x = mask (Suc h)"
proof (rule bit_eqI)
  fix n
  show "bit (smear x) n \<longleftrightarrow> bit (mask (Suc h) :: u32) n"
  proof (cases "n \<le> h")
    case True
    then have "bit x (n + (h - n))" "h - n < 32"
      using bit_top(1) [OF assms(1,2)] assms(3) by simp_all
    with True assms(3) show ?thesis by (auto simp: bit_smear bit_mask_iff)
  next
    case False
    then show ?thesis using bit_top(2) [OF assms(1,2)] by (simp add: bit_smear bit_mask_iff)
  qed
qed

text \<open>The value: the least power of two that is no smaller, or 0 when that is 2^32.\<close>

lemma next_power_of_2_eq:
  assumes "v \<noteq> 0"
  shows "\<exists>k \<le> 32. lumbre_next_power_of_2 v = 2 ^ k \<and> unat v \<le> 2 ^ k \<and> 2 ^ k < 2 * unat v"
proof (cases "LUMBRE_IS_POWER_OF_TWO v")
  case True
  then obtain k where "k < 32" "v = 2 ^ k" by (auto simp: is_power_of_two_iff)
  with True assms show ?thesis
    by (intro exI [of _ k]) (simp add: lumbre_next_power_of_2_def unat_2p)
next
  case False
  have "v - 1 \<noteq> 0"
    using False by (auto simp: LUMBRE_IS_POWER_OF_TWO_def)
  then obtain h where h: "h < 32" "2 ^ h \<le> unat (v - 1)" "unat (v - 1) < 2 ^ Suc h"
    by (rule top_bit_exists)
  have "lumbre_next_power_of_2 v = smear (v - 1) + 1"
    using False assms by (simp add: lumbre_next_power_of_2_def smear_def Let_def)
  also have "\<dots> = 2 ^ Suc h"
    using smear_mask [OF h(2,3,1)] by (simp add: mask_eq_exp_minus_1)
  finally show ?thesis
    using h assms by (intro exI [of _ "Suc h"]) (auto simp: unat_minus_one)
qed

text \<open>
  C34: \<^verbatim>\<open>lumbre_next_power_of_2\<close> returns the least power of two that is at least its argument
  for every argument from 1 to 2^31.
\<close>

theorem next_power_of_2_least:
  assumes "0 < v" and "v \<le> 2147483648"
  shows "LUMBRE_IS_POWER_OF_TWO (lumbre_next_power_of_2 v) \<and> v \<le> lumbre_next_power_of_2 v \<and>
    (\<forall>p. LUMBRE_IS_POWER_OF_TWO p \<longrightarrow> v \<le> p \<longrightarrow> lumbre_next_power_of_2 v \<le> p)"
proof -
  obtain k where k: "k \<le> 32" "lumbre_next_power_of_2 v = 2 ^ k" "unat v \<le> 2 ^ k" "2 ^ k < 2 * unat v"
    using next_power_of_2_eq [of v] assms(1) by auto
  have "unat v \<le> 2 ^ 31" using assms(2) by (simp add: word_le_nat_alt)
  then have "(2::nat) ^ k < 2 ^ 32" using k(4) by simp
  then have k32: "k < 32" by (rule pow2_less_cancel)
  moreover have "2 ^ k \<le> p" if "LUMBRE_IS_POWER_OF_TWO p" "v \<le> p" for p :: u32
  proof -
    obtain j where j: "j < 32" "p = 2 ^ j" using \<open>LUMBRE_IS_POWER_OF_TWO p\<close> by (auto simp: is_power_of_two_iff)
    have "unat v \<le> 2 ^ j" using that(2) j by (simp add: word_le_nat_alt unat_2p)
    with k(4) have "(2::nat) ^ k < 2 ^ Suc j" by simp
    then have "k < Suc j" by (rule pow2_less_cancel)
    then show ?thesis using j k32 by (simp add: word_le_nat_alt unat_2p)
  qed
  ultimately show ?thesis
    using k by (auto simp: is_power_of_two_iff word_le_nat_alt unat_2p)
qed

theorem next_power_of_2_least_witness:
  "LUMBRE_IS_POWER_OF_TWO (lumbre_next_power_of_2 5000) \<and> 5000 \<le> lumbre_next_power_of_2 5000 \<and>
   lumbre_next_power_of_2 5000 \<le> 8192"
proof -
  have "LUMBRE_IS_POWER_OF_TWO 8192" by (simp add: LUMBRE_IS_POWER_OF_TWO_def)
  with next_power_of_2_least [of 5000] show ?thesis by simp
qed

text \<open>
  Above 2^31 the rounding overflows: the result is 0, which is neither a power of two nor at
  least the argument.
\<close>

theorem next_power_of_2_overflow:
  assumes "2147483648 < v"
  shows "lumbre_next_power_of_2 v = 0"
proof -
  obtain k where k: "k \<le> 32" "lumbre_next_power_of_2 v = 2 ^ k" "unat v \<le> 2 ^ k"
    using next_power_of_2_eq [of v] assms by (cases "v = 0") auto
  have "2147483648 < unat v" using assms by (simp add: word_less_nat_alt)
  with k(3) have "(2::nat) ^ 31 < 2 ^ k" by simp
  then have "31 < k" by (rule pow2_less_cancel)
  with k(1) have "k = 32" by simp
  then show ?thesis using k(2) by simp
qed

theorem next_power_of_2_overflow_witness: "lumbre_next_power_of_2 2147483649 = 0"
  by (rule next_power_of_2_overflow) simp

end
