(* ===== verification/Lumbre_Ringbuf.thy ===== *)
theory Lumbre_Ringbuf
  imports Lumbre_Pow2
begin

text \<open>
  The ring buffer of \<^verbatim>\<open>lumbre_ringbuf.c\<close>: the shared header and the process-local handle as
  records, and \<^verbatim>\<open>init\<close>, \<^verbatim>\<open>write\<close>, \<^verbatim>\<open>destroy\<close> and \<^verbatim>\<open>reset\<close> step by step. The mapping is
  split into the header record and the data ring, a byte list of exactly \<open>capacity\<close> bytes; a
  store past its end is \<^const>\<open>None\<close>. The operating system is a parameter: what its calls return,
  with the calls the code makes collected in a log.
\<close>

subsection \<open>Data\<close>

definition LUMBRE_RINGBUF_MAGIC :: u32 where "LUMBRE_RINGBUF_MAGIC = 0x54524143"
definition LUMBRE_RINGBUF_VERSION :: u32 where "LUMBRE_RINGBUF_VERSION = 1"
definition LUMBRE_RINGBUF_HEADER_SIZE :: u64 where "LUMBRE_RINGBUF_HEADER_SIZE = 64"
definition LUMBRE_RINGBUF_PADDING_MARKER :: u32 where "LUMBRE_RINGBUF_PADDING_MARKER = 0xFFFFFFFF"

record lumbre_ringbuf_header_t =
  hdr_magic :: u32
  hdr_version :: u32
  hdr_capacity :: u32
  hdr_pad0 :: u32
  hdr_write_pos :: u64
  hdr_read_pos :: u64
  hdr_dropped :: u64
  hdr_pid :: u32
  hdr_worker_id :: u64
  hdr_reserved :: bytes

text \<open>The handle. A null header pointer is \<^const>\<open>None\<close>.\<close>

record lumbre_ringbuf_t =
  rb_header :: "lumbre_ringbuf_header_t option"
  rb_data :: bytes
  rb_capacity :: u32
  rb_mask :: u32
  rb_local_write_pos :: u64
  rb_fd :: int
  rb_mmap_size :: u64
  rb_path :: bytes
  rb_worker_id :: u64

text \<open>
  The layout of the shared struct: its fields with their size and natural alignment, placed one after
  the other, with padding up to the alignment unless the struct is packed, and the whole padded to
  the largest alignment; and what the static assertions of \<^verbatim>\<open>lumbre_ringbuf.c\<close> demand of it.
\<close>

definition header_fields :: "(string \<times> nat \<times> nat) list" where
  "header_fields =
     [(''magic'', 4, 4), (''version'', 4, 4), (''capacity'', 4, 4), (''_pad0'', 4, 4), (''write_pos'', 8, 8),
      (''read_pos'', 8, 8), (''dropped'', 8, 8), (''pid'', 4, 4), (''worker_id'', 8, 8), (''_reserved'', 12, 1)]"

definition c_align :: "bool \<Rightarrow> nat \<Rightarrow> nat \<Rightarrow> nat" where
  "c_align packed al n = (if packed then n else (n + al - 1) div al * al)"

fun c_offsets :: "bool \<Rightarrow> nat \<Rightarrow> (string \<times> nat \<times> nat) list \<Rightarrow> (string \<times> nat) list" where
  "c_offsets packed n [] = []"
| "c_offsets packed n ((f, sz, al) # fs) =
     (f, c_align packed al n) # c_offsets packed (c_align packed al n + sz) fs"

fun c_end :: "bool \<Rightarrow> nat \<Rightarrow> (string \<times> nat \<times> nat) list \<Rightarrow> nat" where
  "c_end packed n [] = n"
| "c_end packed n ((f, sz, al) # fs) = c_end packed (c_align packed al n + sz) fs"

definition c_sizeof :: "bool \<Rightarrow> (string \<times> nat \<times> nat) list \<Rightarrow> nat" where
  "c_sizeof packed fs = c_align packed (foldr (\<lambda>(f, sz, al). max al) fs 1) (c_end packed 0 fs)"

definition header_offsetof :: "bool \<Rightarrow> string \<Rightarrow> nat" where
  "header_offsetof packed f = the (map_of (c_offsets packed 0 header_fields) f)"

definition header_static_asserts :: "bool \<Rightarrow> bool" where
  "header_static_asserts packed \<longleftrightarrow> c_sizeof packed header_fields = 64 \<and>
     header_offsetof packed ''write_pos'' mod 8 = 0 \<and> header_offsetof packed ''read_pos'' mod 8 = 0 \<and>
     header_offsetof packed ''dropped'' mod 8 = 0"

text \<open>
  The bytes of the mapped file, as another process sees them: the fields of the packed header, little-endian,
  each at its offset, and then the data ring.
\<close>

definition header_values :: "lumbre_ringbuf_header_t \<Rightarrow> bytes list" where
  "header_values h =
     [le32 (hdr_magic h), le32 (hdr_version h), le32 (hdr_capacity h), le32 (hdr_pad0 h),
      le64 (hdr_write_pos h), le64 (hdr_read_pos h), le64 (hdr_dropped h),
      le32 (hdr_pid h), le64 (hdr_worker_id h), hdr_reserved h]"

definition header_bytes :: "lumbre_ringbuf_header_t \<Rightarrow> bytes" where
  "header_bytes h = fold (\<lambda>((f, off), bs) m. overwrite m off bs)
     (zip (c_offsets True 0 header_fields) (header_values h)) (replicate (c_sizeof True header_fields) 0)"

definition mapped_bytes :: "lumbre_ringbuf_t \<Rightarrow> bytes" where
  "mapped_bytes rb = (case rb_header rb of None \<Rightarrow> [] | Some h \<Rightarrow> header_bytes h @ rb_data rb)"

subsection \<open>Initialisation\<close>

text \<open>
  What the operating system answers: the descriptor or error of \<^verbatim>\<open>open\<close> for a path, the
  results of \<^verbatim>\<open>ftruncate\<close> and \<^verbatim>\<open>mmap\<close>; and the calls made, with what they were given.
\<close>

record os_env =
  os_open :: "bytes \<Rightarrow> int"
  os_ftruncate :: "int \<Rightarrow> u64 \<Rightarrow> int"
  os_mmap_ok :: "int \<Rightarrow> u64 \<Rightarrow> bool"

datatype os_call =
    Sys_open bytes int
  | Sys_ftruncate int u64
  | Sys_mmap int u64 bool
  | Sys_munmap u64
  | Sys_close int
  | Sys_unlink bytes

text \<open>\<^verbatim>\<open>%u\<close> and \<^verbatim>\<open>%lu\<close>, and \<^verbatim>\<open>snprintf\<close>'s truncation: the full length, and what fits.\<close>

fun c_decimal :: "nat \<Rightarrow> bytes" where
  "c_decimal n = (if n < 10 then [48 + of_nat n] else c_decimal (n div 10) @ [48 + of_nat (n mod 10)])"

declare c_decimal.simps [simp del]

definition c_snprintf :: "nat \<Rightarrow> bytes \<Rightarrow> int \<times> bytes" where
  "c_snprintf bound s = (int (length s), take (bound - 1) s)"

definition lumbre_ringbuf_path :: "bytes \<Rightarrow> u32 \<Rightarrow> u64 \<Rightarrow> bytes" where
  "lumbre_ringbuf_path shm_dir pid worker_id =
     shm_dir @ c_str ''/lumbre_'' @ c_decimal (unat pid) @ c_str ''_'' @ c_decimal (unat worker_id)"

definition fresh_header :: "u32 \<Rightarrow> u32 \<Rightarrow> u64 \<Rightarrow> lumbre_ringbuf_header_t" where
  "fresh_header capacity pid worker_id =
     \<lparr>hdr_magic = LUMBRE_RINGBUF_MAGIC, hdr_version = LUMBRE_RINGBUF_VERSION,
      hdr_capacity = capacity, hdr_pad0 = 0, hdr_write_pos = 0, hdr_read_pos = 0, hdr_dropped = 0,
      hdr_pid = pid, hdr_worker_id = worker_id, hdr_reserved = replicate 12 0\<rparr>"

definition lumbre_ringbuf_init ::
  "os_env \<Rightarrow> lumbre_ringbuf_t \<Rightarrow> bytes \<Rightarrow> u32 \<Rightarrow> u64 \<Rightarrow> u32 \<Rightarrow> int \<times> lumbre_ringbuf_t \<times> os_call list" where
  "lumbre_ringbuf_init os rb shm_dir pid worker_id capacity =
     (let capacity = lumbre_next_power_of_2 capacity;
          (n, path) = c_snprintf 256 (lumbre_ringbuf_path shm_dir pid worker_id);
          rb = rb\<lparr>rb_path := path\<rparr>
      in if n < 0 \<or> 256 \<le> n then (-1, rb, [])
      else
        let fd = os_open os path
        in if fd < 0 then (-1, rb, [Sys_open path fd])
        else
          let total_size = LUMBRE_RINGBUF_HEADER_SIZE + ucast capacity
          in if os_ftruncate os fd total_size \<noteq> 0 then
            (-1, rb, [Sys_open path fd, Sys_ftruncate fd total_size, Sys_close fd, Sys_unlink path])
          else if \<not> os_mmap_ok os fd total_size then
            (-1, rb, [Sys_open path fd, Sys_ftruncate fd total_size, Sys_mmap fd total_size False,
                      Sys_close fd, Sys_unlink path])
          else
            (0,
             rb\<lparr>rb_header := Some (fresh_header capacity pid worker_id),
                rb_data := replicate (unat capacity) 0,
                rb_capacity := capacity,
                rb_mask := capacity - 1,
                rb_local_write_pos := 0,
                rb_fd := fd,
                rb_mmap_size := total_size,
                rb_worker_id := worker_id\<rparr>,
             [Sys_open path fd, Sys_ftruncate fd total_size, Sys_mmap fd total_size True]))"

subsection \<open>Writing\<close>

text \<open>\<^verbatim>\<open>__atomic_fetch_add(&rb->header->dropped, 1, ...)\<close> and the -1 that follows it.\<close>

definition ringbuf_drop ::
  "lumbre_ringbuf_t \<Rightarrow> lumbre_ringbuf_header_t \<Rightarrow> (int \<times> lumbre_ringbuf_t) option" where
  "ringbuf_drop rb h = Some (-1, rb\<lparr>rb_header := Some (h\<lparr>hdr_dropped := hdr_dropped h + 1\<rparr>)\<rparr>)"

text \<open>The end of the function: length prefix, payload, advance, publish.\<close>

definition ringbuf_commit ::
  "lumbre_ringbuf_t \<Rightarrow> lumbre_ringbuf_header_t \<Rightarrow> u32 \<Rightarrow> bytes \<Rightarrow> u32 \<Rightarrow> u32 \<Rightarrow> (int \<times> lumbre_ringbuf_t) option" where
  "ringbuf_commit rb h offset payload payload_len needed = do {
     d \<leftarrow> mem_store (rb_data rb) (unat offset) (le32 payload_len);
     d \<leftarrow> (if 0 < payload_len then do {
             bs \<leftarrow> mem_load payload 0 (unat payload_len);
             mem_store d (unat (offset + 4)) bs }
           else Some d);
     let pos = rb_local_write_pos rb + ucast needed;
     Some (0, rb\<lparr>rb_data := d, rb_local_write_pos := pos,
                 rb_header := Some (h\<lparr>hdr_write_pos := pos\<rparr>)\<rparr>) }"

definition lumbre_ringbuf_write ::
  "lumbre_ringbuf_t \<Rightarrow> bytes \<Rightarrow> u32 \<Rightarrow> (int \<times> lumbre_ringbuf_t) option" where
  "lumbre_ringbuf_write rb payload payload_len = do {
     h \<leftarrow> rb_header rb;
     if rb_capacity rb - 4 < payload_len then ringbuf_drop rb h
     else
       let needed = 4 + payload_len;
           read_pos = hdr_read_pos h
       in if ucast (rb_capacity rb) < (rb_local_write_pos rb - read_pos) + ucast needed
       then ringbuf_drop rb h
       else
         let offset = ucast (rb_local_write_pos rb AND ucast (rb_mask rb)) :: u32
         in if rb_capacity rb < offset + needed then
           let pad_bytes = rb_capacity rb - offset
           in if ucast (rb_capacity rb) < (rb_local_write_pos rb - read_pos) + ucast pad_bytes + ucast needed
           then ringbuf_drop rb h
           else do {
             d \<leftarrow> mem_store (rb_data rb) (unat offset) (le32 LUMBRE_RINGBUF_PADDING_MARKER);
             ringbuf_commit
               (rb\<lparr>rb_data := d, rb_local_write_pos := rb_local_write_pos rb + ucast pad_bytes\<rparr>)
               h 0 payload payload_len needed }
         else ringbuf_commit rb h offset payload payload_len needed }"

subsection \<open>Tear-down\<close>

definition lumbre_ringbuf_destroy :: "lumbre_ringbuf_t \<Rightarrow> bool \<Rightarrow> lumbre_ringbuf_t \<times> os_call list" where
  "lumbre_ringbuf_destroy rb skip_unlink =
     (case rb_header rb of
        None \<Rightarrow> (rb, [])
      | Some _ \<Rightarrow>
          (rb\<lparr>rb_header := None\<rparr>,
           [Sys_munmap (rb_mmap_size rb), Sys_close (rb_fd rb)] @
           (if \<not> skip_unlink then [Sys_unlink (rb_path rb)] else [])))"

definition lumbre_ringbuf_reset :: "lumbre_ringbuf_t \<Rightarrow> lumbre_ringbuf_t option" where
  "lumbre_ringbuf_reset rb = do {
     h \<leftarrow> rb_header rb;
     Some (rb\<lparr>rb_header := Some (h\<lparr>hdr_write_pos := 0, hdr_read_pos := 0, hdr_dropped := 0\<rparr>),
              rb_local_write_pos := 0\<rparr>) }"

subsection \<open>The ring's geometry\<close>

text \<open>
  A usable handle: mapped, a power-of-two capacity that leaves room for a length prefix, the mask
  that goes with it, and a data ring of that size.
\<close>

definition rb_wf :: "lumbre_ringbuf_t \<Rightarrow> bool" where
  "rb_wf rb \<longleftrightarrow> rb_header rb \<noteq> None \<and> LUMBRE_IS_POWER_OF_TWO (rb_capacity rb) \<and> 4 \<le> rb_capacity rb
     \<and> rb_mask rb = rb_capacity rb - 1 \<and> length (rb_data rb) = unat (rb_capacity rb)"

definition rb_size :: "lumbre_ringbuf_t \<Rightarrow> nat" where
  "rb_size rb = unat (rb_capacity rb)"

definition rb_read_pos :: "lumbre_ringbuf_t \<Rightarrow> u64" where
  "rb_read_pos rb = (case rb_header rb of None \<Rightarrow> 0 | Some h \<Rightarrow> hdr_read_pos h)"

definition rb_write_pos :: "lumbre_ringbuf_t \<Rightarrow> u64" where
  "rb_write_pos rb = (case rb_header rb of None \<Rightarrow> 0 | Some h \<Rightarrow> hdr_write_pos h)"

definition rb_dropped :: "lumbre_ringbuf_t \<Rightarrow> u64" where
  "rb_dropped rb = (case rb_header rb of None \<Rightarrow> 0 | Some h \<Rightarrow> hdr_dropped h)"

lemma rb_size_power:
  assumes "rb_wf rb"
  obtains k where "2 \<le> k" "k < 32" "rb_capacity rb = 2 ^ k" "rb_size rb = 2 ^ k"
proof -
  obtain k where k: "k < 32" "rb_capacity rb = 2 ^ k"
    using assms by (auto simp: rb_wf_def is_power_of_two_iff)
  then have "rb_size rb = 2 ^ k" by (simp add: rb_size_def unat_2p)
  moreover have "4 \<le> rb_size rb"
    using assms by (simp add: rb_wf_def rb_size_def word_le_nat_alt)
  then have "(2::nat) ^ 2 \<le> 2 ^ k" using \<open>rb_size rb = 2 ^ k\<close> by simp
  then have "2 \<le> k" by (rule power_le_imp_le_exp [rotated]) simp
  ultimately show ?thesis using that k by blast
qed

lemma rb_size_bounds: "rb_wf rb \<Longrightarrow> 4 \<le> rb_size rb \<and> rb_size rb \<le> 2147483648"
proof (erule rb_size_power)
  fix k assume "2 \<le> k" "k < 32" "rb_size rb = 2 ^ k"
  moreover have "(2::nat) ^ 2 \<le> 2 ^ k" "(2::nat) ^ k \<le> 2 ^ 31"
    using \<open>2 \<le> k\<close> \<open>k < 32\<close> by (intro power_increasing; simp)+
  ultimately show ?thesis by simp
qed

lemma rb_size_dvd: "rb_wf rb \<Longrightarrow> rb_size rb dvd 18446744073709551616"
proof (erule rb_size_power)
  fix k assume "k < 32" "rb_size rb = 2 ^ k"
  then show ?thesis using le_imp_power_dvd [of k 64 "2::nat"] by simp
qed

text \<open>Masking a position is taking it modulo the ring size.\<close>

lemma masked_position:
  assumes "rb_wf rb"
  shows "unat (ucast (pos AND ucast (rb_mask rb) :: u64) :: u32) = unat pos mod rb_size rb"
proof -
  obtain k where k: "k < 32" "rb_capacity rb = 2 ^ k" "rb_size rb = 2 ^ k"
    using assms by (auto elim: rb_size_power)
  have "rb_mask rb = mask k"
    using assms k by (simp add: rb_wf_def mask_eq_exp_minus_1)
  then have "(ucast (rb_mask rb) :: u64) = mask k"
    using k(1) by (auto intro!: bit_eqI simp: bit_simps)
  then have "pos AND ucast (rb_mask rb) = take_bit k pos"
    by (simp add: take_bit_eq_mask)
  then have "unat (pos AND ucast (rb_mask rb)) = unat pos mod rb_size rb"
    using k(3) by (simp only: unsigned_take_bit_eq) (simp add: take_bit_eq_mod)
  moreover have "unat pos mod rb_size rb < rb_size rb"
    using rb_size_bounds [OF assms] by (intro mod_less_divisor) simp
  then have "unat pos mod rb_size rb < 4294967296"
    using rb_size_bounds [OF assms] by linarith
  ultimately show ?thesis
    by (simp add: unsigned_ucast_eq unsigned_take_bit_eq take_bit_nat_eq_self)
qed

text \<open>Positions are 64-bit counters that may wrap; distances and offsets are unaffected.\<close>

lemma unat_diff_mod:
  assumes "c dvd 18446744073709551616"
  shows "unat (w :: u64) mod c = (unat (r :: u64) + unat (w - r)) mod c"
proof -
  have "unat w = (unat r + unat (w - r)) mod 18446744073709551616"
    using unat_word_ariths(1) [of r "w - r"] by simp
  then have "unat w mod c = (unat r + unat (w - r)) mod 18446744073709551616 mod c" by simp
  also have "\<dots> = (unat r + unat (w - r)) mod c" using assms by (rule mod_mod_cancel)
  finally show ?thesis .
qed

subsection \<open>What a write does\<close>

definition frame :: "bytes \<Rightarrow> bytes" where
  "frame p = le32 (of_nat (length p)) @ p"

lemma length_frame [simp]: "length (frame p) = 4 + length p"
  by (simp add: frame_def)

text \<open>The bytes a record of \<open>n\<close> bytes takes at offset \<open>p\<close>: with the padding before a wrap.\<close>

definition ring_cost :: "nat \<Rightarrow> nat \<Rightarrow> nat \<Rightarrow> nat" where
  "ring_cost c p n = (if p + n \<le> c then n else (c - p) + n)"

definition rb_used :: "lumbre_ringbuf_t \<Rightarrow> nat" where
  "rb_used rb = unat (rb_local_write_pos rb - rb_read_pos rb)"

definition rb_offset :: "lumbre_ringbuf_t \<Rightarrow> nat" where
  "rb_offset rb = unat (rb_local_write_pos rb) mod rb_size rb"

lemma ringbuf_commit_stores:
  assumes "unat len = length p" and "unat off + 4 + length p \<le> length (rb_data rb)"
    and "length (rb_data rb) < 4294967296"
  shows "ringbuf_commit rb h off p len needed =
    Some (0, rb\<lparr>rb_data := overwrite (rb_data rb) (unat off) (frame p),
                rb_local_write_pos := rb_local_write_pos rb + ucast needed,
                rb_header := Some (h\<lparr>hdr_write_pos := rb_local_write_pos rb + ucast needed\<rparr>)\<rparr>)"
proof -
  have len: "len = of_nat (length p)" using assms(1) by (metis of_nat_unat ucast_id)
  have "unat (off + 4) = unat off + 4" using assms(2,3) by (simp add: unat_plus)
  moreover have "overwrite (overwrite (rb_data rb) (unat off) (le32 len)) (unat off + 4) p =
      overwrite (rb_data rb) (unat off) (frame p)"
    using assms(2) overwrite_append [of "unat off" "le32 len" p "rb_data rb"]
    by (simp add: frame_def len)
  moreover have "0 < len \<longleftrightarrow> p \<noteq> []"
    using assms(1) by (metis length_greater_0_conv unat_gt_0 word_neq_0_conv)
  ultimately show ?thesis
    using assms(1,2) by (simp add: ringbuf_commit_def mem frame_def len Let_def)
qed

text \<open>The state after an accepted write: the record's bytes in the ring, both positions advanced.\<close>

definition ring_accept ::
  "lumbre_ringbuf_t \<Rightarrow> lumbre_ringbuf_header_t \<Rightarrow> bytes \<Rightarrow> nat \<Rightarrow> bytes \<Rightarrow> nat \<Rightarrow> lumbre_ringbuf_t" where
  "ring_accept rb h d off p advance =
     (let pos = rb_local_write_pos rb + of_nat advance
      in rb\<lparr>rb_data := overwrite d off (frame p), rb_local_write_pos := pos,
            rb_header := Some (h\<lparr>hdr_write_pos := pos\<rparr>)\<rparr>)"

text \<open>The two space checks, in the 64-bit arithmetic of the code.\<close>

definition ring_room :: "lumbre_ringbuf_t \<Rightarrow> nat \<Rightarrow> bool" where
  "ring_room rb n \<longleftrightarrow>
     rb_local_write_pos rb - rb_read_pos rb + of_nat n \<le> (ucast (rb_capacity rb) :: u64)"

lemma ring_room_iff:
  assumes "rb_wf rb" and "rb_used rb \<le> rb_size rb" and "n \<le> 4294967296"
  shows "ring_room rb n \<longleftrightarrow> rb_used rb + n \<le> rb_size rb"
proof -
  have "unat (of_nat n :: u64) = n" using assms(3) by (simp add: unat_of_nat)
  then have "unat (rb_local_write_pos rb - rb_read_pos rb + of_nat n) = rb_used rb + n"
    using assms rb_size_bounds [OF assms(1)] unat_plus [of "rb_local_write_pos rb - rb_read_pos rb" "of_nat n"]
    by (simp add: rb_used_def)
  then show ?thesis
    by (simp add: ring_room_def word_le_nat_alt rb_size_def unat_ucast_up)
qed

lemma payload_guard:
  assumes "rb_wf rb" and "unat len = length p"
  shows "rb_capacity rb - 4 < len \<longleftrightarrow> rb_size rb < 4 + length p"
proof -
  have "4 \<le> rb_capacity rb" using assms(1) by (simp add: rb_wf_def)
  then have "unat (rb_capacity rb - 4) = rb_size rb - 4" by (simp add: rb_size_def unat_sub)
  then show ?thesis
    using assms rb_size_bounds [OF assms(1)] by (auto simp: word_less_nat_alt)
qed

lemma ringbuf_write_cases:
  assumes wf: "rb_wf rb" and h: "rb_header rb = Some h" and len: "unat len = length p"
  defines "c \<equiv> rb_size rb" and "off \<equiv> rb_offset rb" and "n \<equiv> 4 + length p"
  shows "lumbre_ringbuf_write rb p len =
    (if c < n \<or> \<not> ring_room rb n then ringbuf_drop rb h
     else if off + n \<le> c then Some (0, ring_accept rb h (rb_data rb) off p n)
     else if \<not> ring_room rb (c - off + n) then ringbuf_drop rb h
     else if c < off + 4 then None
     else Some (0, ring_accept rb h (overwrite (rb_data rb) off (le32 LUMBRE_RINGBUF_PADDING_MARKER))
                     0 p (c - off + n)))"
proof (cases "c < n")
  case True
  then show ?thesis
    using payload_guard [OF wf len] by (simp add: lumbre_ringbuf_write_def h c_def n_def)
next
  case small: False
  have size: "length (rb_data rb) = c" "c \<le> 2147483648" "unat (rb_capacity rb) = c"
    using wf rb_size_bounds [OF wf] by (simp_all add: c_def rb_wf_def rb_size_def)
  have rp: "rb_read_pos rb = hdr_read_pos h" by (simp add: rb_read_pos_def h)
  define needed where "needed = 4 + len"
  have needed: "unat needed = n" "(ucast needed :: u64) = of_nat n"
  proof -
    show "unat needed = n" using small size len by (simp add: needed_def n_def unat_plus)
    then show "(ucast needed :: u64) = of_nat n" by (metis of_nat_unat)
  qed
  define offset :: u32 where "offset = ucast (rb_local_write_pos rb AND ucast (rb_mask rb))"
  have offset: "unat offset = off" "off < c"
    using masked_position [OF wf, of "rb_local_write_pos rb"] rb_size_bounds [OF wf]
    by (simp_all add: offset_def off_def rb_offset_def c_def)
  have wrap: "rb_capacity rb < offset + needed \<longleftrightarrow> c < off + n"
    using offset needed size small by (simp add: word_less_nat_alt unat_plus)
  have pad: "(ucast (rb_capacity rb - offset) :: u64) = of_nat (c - off)"
  proof -
    have "unat (rb_capacity rb - offset) = c - off"
      using offset size by (simp add: unat_sub word_le_nat_alt)
    then show ?thesis by (metis of_nat_unat)
  qed
  have room: "ucast (rb_capacity rb) < rb_local_write_pos rb - hdr_read_pos h + ucast needed
      \<longleftrightarrow> \<not> ring_room rb n"
    "ucast (rb_capacity rb) < rb_local_write_pos rb - hdr_read_pos h
       + ucast (rb_capacity rb - offset) + ucast needed \<longleftrightarrow> \<not> ring_room rb (c - off + n)"
    by (simp_all add: ring_room_def rp needed pad not_le add.assoc)
  have direct: "ringbuf_commit rb h offset p len needed =
      Some (0, ring_accept rb h (rb_data rb) off p n)" if "off + n \<le> c"
    using that offset size len needed
    by (subst ringbuf_commit_stores) (simp_all add: ring_accept_def n_def Let_def)
  have wrapped: "ringbuf_commit
        (rb\<lparr>rb_data := overwrite (rb_data rb) off (le32 LUMBRE_RINGBUF_PADDING_MARKER),
            rb_local_write_pos := rb_local_write_pos rb + ucast (rb_capacity rb - offset)\<rparr>) h 0 p len needed =
      Some (0, ring_accept rb h (overwrite (rb_data rb) off (le32 LUMBRE_RINGBUF_PADDING_MARKER)) 0 p (c - off + n))"
    if "off + 4 \<le> c"
    using that size len needed small
    by (subst ringbuf_commit_stores) (simp_all add: ring_accept_def n_def Let_def pad add.assoc)
  have guard: "\<not> rb_capacity rb - 4 < len"
    using payload_guard [OF wf len] small by (simp add: c_def n_def)
  have marker: "mem_store (rb_data rb) off (le32 LUMBRE_RINGBUF_PADDING_MARKER) =
      (if c < off + 4 then None else Some (overwrite (rb_data rb) off (le32 LUMBRE_RINGBUF_PADDING_MARKER)))"
    using size by (simp add: mem_store_def)
  have "lumbre_ringbuf_write rb p len =
    (if rb_capacity rb - 4 < len then ringbuf_drop rb h
     else if ucast (rb_capacity rb) < rb_local_write_pos rb - hdr_read_pos h + ucast needed
     then ringbuf_drop rb h
     else if rb_capacity rb < offset + needed then
       (if ucast (rb_capacity rb) < rb_local_write_pos rb - hdr_read_pos h
          + ucast (rb_capacity rb - offset) + ucast needed
        then ringbuf_drop rb h
        else do {
          d \<leftarrow> mem_store (rb_data rb) (unat offset) (le32 LUMBRE_RINGBUF_PADDING_MARKER);
          ringbuf_commit
            (rb\<lparr>rb_data := d,
                rb_local_write_pos := rb_local_write_pos rb + ucast (rb_capacity rb - offset)\<rparr>)
            h 0 p len needed })
     else ringbuf_commit rb h offset p len needed)"
    by (simp add: lumbre_ringbuf_write_def h Let_def needed_def offset_def)
  then show ?thesis
    unfolding room wrap marker offset(1)
    using guard small direct wrapped by (auto simp: not_less not_le)
qed

subsection \<open>Consequences of the case analysis\<close>

lemma rb_offset_less: "rb_wf rb \<Longrightarrow> rb_offset rb < rb_size rb"
  using rb_size_bounds [of rb] by (simp add: rb_offset_def)

lemma rb_wf_header: "rb_wf rb \<Longrightarrow> \<exists>h. rb_header rb = Some h"
  by (auto simp: rb_wf_def)

lemma ringbuf_drop_fields:
  assumes "rb_header rb = Some h" and "ringbuf_drop rb h = Some (rc, rb')"
  shows "rc = -1" and "rb' = rb\<lparr>rb_header := Some (h\<lparr>hdr_dropped := hdr_dropped h + 1\<rparr>)\<rparr>"
  using assms by (simp_all add: ringbuf_drop_def)

lemma rb_wf_update_header: "rb_wf rb \<Longrightarrow> rb_wf (rb\<lparr>rb_header := Some h\<rparr>)"
  by (simp add: rb_wf_def)

lemma header_views:
  "rb_header rb = Some h \<Longrightarrow> rb_read_pos rb = hdr_read_pos h"
  "rb_header rb = Some h \<Longrightarrow> rb_write_pos rb = hdr_write_pos h"
  "rb_header rb = Some h \<Longrightarrow> rb_dropped rb = hdr_dropped h"
  by (simp_all add: rb_read_pos_def rb_write_pos_def rb_dropped_def)

lemma header_update_views [simp]:
  "rb_read_pos (rb\<lparr>rb_header := Some g\<rparr>) = hdr_read_pos g"
  "rb_write_pos (rb\<lparr>rb_header := Some g\<rparr>) = hdr_write_pos g"
  "rb_dropped (rb\<lparr>rb_header := Some g\<rparr>) = hdr_dropped g"
  "rb_size (rb\<lparr>rb_header := Some g\<rparr>) = rb_size rb"
  "rb_offset (rb\<lparr>rb_header := Some g\<rparr>) = rb_offset rb"
  by (simp_all add: rb_read_pos_def rb_write_pos_def rb_dropped_def rb_size_def rb_offset_def)

lemma ring_accept_wf:
  assumes "rb_wf rb" and "length d = rb_size rb" and "off + 4 + length p \<le> rb_size rb"
  shows "rb_wf (ring_accept rb h d off p advance)"
  using assms by (simp add: rb_wf_def rb_size_def ring_accept_def Let_def)

lemma ring_accept_fields [simp]:
  "rb_capacity (ring_accept rb h d off p a) = rb_capacity rb"
  "rb_size (ring_accept rb h d off p a) = rb_size rb"
  "rb_data (ring_accept rb h d off p a) = overwrite d off (frame p)"
  "rb_local_write_pos (ring_accept rb h d off p a) = rb_local_write_pos rb + of_nat a"
  "rb_write_pos (ring_accept rb h d off p a) = rb_local_write_pos rb + of_nat a"
  "rb_read_pos (ring_accept rb h d off p a) = hdr_read_pos h"
  "rb_dropped (ring_accept rb h d off p a) = hdr_dropped h"
  by (simp_all add: ring_accept_def Let_def rb_size_def rb_write_pos_def rb_read_pos_def rb_dropped_def)

text \<open>
  When the padding marker does not fit: the record wraps, and fewer than four bytes remain.
\<close>

definition marker_overruns :: "lumbre_ringbuf_t \<Rightarrow> bytes \<Rightarrow> bool" where
  "marker_overruns rb p \<longleftrightarrow>
     rb_size rb < rb_offset rb + 4 \<and> rb_size rb < rb_offset rb + 4 + length p \<and>
     4 + length p \<le> rb_size rb \<and> ring_room rb (4 + length p) \<and>
     ring_room rb (rb_size rb - rb_offset rb + (4 + length p))"

lemma ringbuf_write_fault_iff:
  assumes "rb_wf rb" and "unat len = length p"
  shows "lumbre_ringbuf_write rb p len = None \<longleftrightarrow> marker_overruns rb p"
proof -
  obtain h where "rb_header rb = Some h" using assms(1) rb_wf_header by blast
  from ringbuf_write_cases [OF assms(1) this assms(2)] show ?thesis
    by (auto simp: marker_overruns_def ringbuf_drop_def)
qed

text \<open>
  C26: Whatever value the consumer has left in \<^verbatim>\<open>read_pos\<close>, a write on a usable ring keeps the
  ring usable, returns 0 or -1, and stays inside the data ring, with one exception: the four-byte
  padding marker. A write that returns -1 changes nothing but the drop counter, which it
  increments; one that returns 0 publishes exactly the position it keeps locally.
\<close>

theorem ringbuf_write_safe:
  assumes "rb_wf rb" and "unat len = length p"
  shows "case lumbre_ringbuf_write rb p len of
      None \<Rightarrow> marker_overruns rb p
    | Some (rc, rb') \<Rightarrow> rb_wf rb' \<and> rb_capacity rb' = rb_capacity rb \<and> rb_read_pos rb' = rb_read_pos rb \<and>
        (rc = 0 \<and> rb_write_pos rb' = rb_local_write_pos rb' \<and> rb_dropped rb' = rb_dropped rb \<or>
         rc = -1 \<and> rb_dropped rb' = rb_dropped rb + 1 \<and> rb_data rb' = rb_data rb \<and>
           rb_local_write_pos rb' = rb_local_write_pos rb \<and> rb_write_pos rb' = rb_write_pos rb)"
proof -
  obtain h where h: "rb_header rb = Some h" using assms(1) rb_wf_header by blast
  have size: "length (rb_data rb) = rb_size rb" using assms(1) by (simp add: rb_wf_def rb_size_def)
  show ?thesis
    unfolding ringbuf_write_cases [OF assms(1) h assms(2)]
    using assms(1) h size
    by (auto simp: marker_overruns_def ringbuf_drop_def rb_wf_update_header header_views
        ring_accept_wf)
qed

definition sample_ring :: lumbre_ringbuf_t where
  "sample_ring = \<lparr>rb_header = Some (fresh_header 16 4242 0), rb_data = replicate 16 0,
     rb_capacity = 16, rb_mask = 15, rb_local_write_pos = 0, rb_fd = 3, rb_mmap_size = 80,
     rb_path = c_str ''/tmp/lumbre_4242_0'', rb_worker_id = 0\<rparr>"

lemma sample_ring_wf: "rb_wf sample_ring"
  by (simp add: sample_ring_def rb_wf_def LUMBRE_IS_POWER_OF_TWO_def)

theorem ringbuf_write_safe_witness:
  "case lumbre_ringbuf_write sample_ring [1, 2, 3] 3 of
      None \<Rightarrow> marker_overruns sample_ring [1, 2, 3]
    | Some (rc, rb') \<Rightarrow> rb_wf rb' \<and> rb_capacity rb' = rb_capacity sample_ring \<and>
        rb_read_pos rb' = rb_read_pos sample_ring \<and>
        (rc = 0 \<and> rb_write_pos rb' = rb_local_write_pos rb' \<and> rb_dropped rb' = rb_dropped sample_ring \<or>
         rc = -1 \<and> rb_dropped rb' = rb_dropped sample_ring + 1 \<and> rb_data rb' = rb_data sample_ring \<and>
           rb_local_write_pos rb' = rb_local_write_pos sample_ring \<and>
           rb_write_pos rb' = rb_write_pos sample_ring)"
  by (rule ringbuf_write_safe [OF sample_ring_wf]) simp

end
