(* ===== verification/Lumbre_Ringbuf_Lifecycle.thy ===== *)
theory Lumbre_Ringbuf_Lifecycle
  imports Lumbre_Ringbuf
begin

text \<open>
  Creating and destroying a ring buffer: the header's binary layout, what a successful
  initialisation establishes, that a failed one leaves no descriptor, mapping or file behind, and
  that destruction gives back exactly what initialisation took.
\<close>

subsection \<open>Operating-system resources\<close>

record os_res =
  res_fds :: "int list"
  res_maps :: "u64 list"
  res_files :: "bytes set"

fun os_effect :: "os_call \<Rightarrow> os_res \<Rightarrow> os_res" where
  "os_effect (Sys_open p fd) r =
     (if fd < 0 then r else r\<lparr>res_fds := fd # res_fds r, res_files := insert p (res_files r)\<rparr>)"
| "os_effect (Sys_ftruncate fd n) r = r"
| "os_effect (Sys_mmap fd n ok) r = (if ok then r\<lparr>res_maps := n # res_maps r\<rparr> else r)"
| "os_effect (Sys_munmap n) r = r\<lparr>res_maps := remove1 n (res_maps r)\<rparr>"
| "os_effect (Sys_close fd) r = r\<lparr>res_fds := remove1 fd (res_fds r)\<rparr>"
| "os_effect (Sys_unlink p) r = r\<lparr>res_files := res_files r - {p}\<rparr>"

definition os_run :: "os_call list \<Rightarrow> os_res \<Rightarrow> os_res" where
  "os_run log r = fold os_effect log r"

definition init_path :: "bytes \<Rightarrow> u32 \<Rightarrow> u64 \<Rightarrow> bytes" where
  "init_path shm_dir pid worker_id = snd (c_snprintf 256 (lumbre_ringbuf_path shm_dir pid worker_id))"

lemmas init_defs = lumbre_ringbuf_init_def c_snprintf_def init_path_def Let_def

text \<open>
  C31: \<^verbatim>\<open>lumbre_ringbuf_init\<close> returns 0 or -1, and when it returns -1, at whichever step, it
  leaves descriptors, mappings and files as they were, and the handle's header unset.
\<close>

theorem init_failure_releases:
  assumes "lumbre_ringbuf_init os rb shm_dir pid wid cap = (rc, rb', log)" and "rc \<noteq> 0"
    and "init_path shm_dir pid wid \<notin> res_files r"
  shows "rc = -1 \<and> os_run log r = r \<and> rb_header rb' = rb_header rb \<and> rb_data rb' = rb_data rb"
  using assms by (auto simp: init_defs os_run_def split: if_splits)

definition sample_os :: "bool \<Rightarrow> os_env" where
  "sample_os ok = \<lparr>os_open = (\<lambda>_. 5), os_ftruncate = (\<lambda>_ _. 0), os_mmap_ok = (\<lambda>_ _. ok)\<rparr>"

definition null_ring :: lumbre_ringbuf_t where
  "null_ring = \<lparr>rb_header = None, rb_data = [], rb_capacity = 0, rb_mask = 0,
     rb_local_write_pos = 0, rb_fd = 0, rb_mmap_size = 0, rb_path = [], rb_worker_id = 0\<rparr>"

lemma sample_path: "length (lumbre_ringbuf_path (c_str ''/tmp'') 42 0) = 16"
  by (simp add: lumbre_ringbuf_path_def c_decimal.simps)

theorem init_failure_releases_witness:
  "\<exists>rb' log. lumbre_ringbuf_init (sample_os False) null_ring (c_str ''/tmp'') 42 0 4096 = (-1, rb', log) \<and>
     length log = 5 \<and>
     os_run log \<lparr>res_fds = [0, 1], res_maps = [], res_files = {}\<rparr> =
       \<lparr>res_fds = [0, 1], res_maps = [], res_files = {}\<rparr>"
proof -
  obtain rb' log where i:
    "lumbre_ringbuf_init (sample_os False) null_ring (c_str ''/tmp'') 42 0 4096 = (-1, rb', log)"
    "length log = 5"
    by (simp add: init_defs sample_os_def sample_path)
  with init_failure_releases [OF i(1), of "\<lparr>res_fds = [0, 1], res_maps = [], res_files = {}\<rparr>"]
  show ?thesis by auto
qed

subsection \<open>The shared file\<close>

lemma header_layout:
  "c_offsets True 0 header_fields =
     [(''magic'', 0), (''version'', 4), (''capacity'', 8), (''_pad0'', 12), (''write_pos'', 16), (''read_pos'', 24),
      (''dropped'', 32), (''pid'', 40), (''worker_id'', 44), (''_reserved'', 52)]"
  "c_sizeof True header_fields = 64" "c_sizeof False header_fields = 72"
  by code_simp+

lemma header_bytes_concat:
  assumes "length (hdr_reserved h) = 12"
  shows "header_bytes h = concat (header_values h)"
  using assms by (simp add: header_bytes_def header_layout header_values_def overwrite_def)

text \<open>
  C35: The file that a successful \<^verbatim>\<open>lumbre_ringbuf_init\<close> leaves for the daemon, byte by byte: it has the
  size that was set and mapped; magic, version, capacity, process id and worker id are found,
  little-endian, at the offsets that the header's comment documents; everything else, the three
  positions and the data ring included, is zero. The layout meets the static assertions because the
  struct is packed: with natural alignment it would be 72 bytes long.
\<close>

theorem shared_file_layout:
  assumes "lumbre_ringbuf_init os rb shm_dir pid wid cap = (0, rb', log)"
  defines "mapped \<equiv> mapped_bytes rb'"
  shows "of_nat (length mapped) = rb_mmap_size rb' \<and>
    Sys_ftruncate (rb_fd rb') (of_nat (length mapped)) \<in> set log \<and>
    mem_load mapped 0 4 = Some (c_str ''CART'') \<and> mem_load mapped 4 4 = Some (le32 1) \<and>
    mem_load mapped 8 4 = Some (le32 (lumbre_next_power_of_2 cap)) \<and>
    mem_load mapped 12 28 = Some (replicate 28 0) \<and>
    mem_load mapped 40 4 = Some (le32 pid) \<and> mem_load mapped 44 8 = Some (le64 wid) \<and>
    drop 52 mapped = replicate (12 + unat (lumbre_next_power_of_2 cap)) 0 \<and>
    header_static_asserts True \<and> \<not> header_static_asserts False"
proof -
  let ?cap = "lumbre_next_power_of_2 cap"
  have rb': "rb_header rb' = Some (fresh_header ?cap pid wid)" "rb_data rb' = replicate (unat ?cap) 0"
    "rb_mmap_size rb' = 64 + ucast ?cap" "Sys_ftruncate (rb_fd rb') (64 + ucast ?cap) \<in> set log"
    using assms(1) by (auto simp: init_defs LUMBRE_RINGBUF_HEADER_SIZE_def split: if_splits)
  have vals: "le32 LUMBRE_RINGBUF_MAGIC = c_str ''CART''" "LUMBRE_RINGBUF_VERSION = 1"
    "le32 0 @ le64 0 @ le64 0 @ le64 0 = replicate 28 0"
    by code_simp+
  have "mapped = c_str ''CART'' @ le32 1 @ le32 ?cap @ (le32 0 @ le64 0 @ le64 0 @ le64 0) @ le32 pid @
      le64 wid @ replicate 12 0 @ replicate (unat ?cap) 0"
    using rb'(1,2) by (simp add: mapped_def mapped_bytes_def header_bytes_concat fresh_header_def
        header_values_def vals(1,2))
  then have image: "mapped = c_str ''CART'' @ le32 1 @ le32 ?cap @ replicate 28 0 @ le32 pid @ le64 wid @
      replicate (12 + unat ?cap) 0"
    unfolding vals(3) by (simp add: replicate_add)
  have "header_static_asserts True" "\<not> header_static_asserts False" by code_simp+
  moreover have "of_nat (length mapped) = (64 + ucast ?cap :: u64)" by (simp add: image of_nat_unat)
  ultimately show ?thesis using rb'(3,4) by (simp add: image mem_load_def)
qed

theorem shared_file_layout_witness:
  "\<exists>rb' log. lumbre_ringbuf_init (sample_os True) null_ring (c_str ''/tmp'') 42 0 4096 = (0, rb', log) \<and>
     mem_load (mapped_bytes rb') 40 4 = Some (le32 42)"
proof -
  obtain rb' log where i: "lumbre_ringbuf_init (sample_os True) null_ring (c_str ''/tmp'') 42 0 4096 = (0, rb', log)"
    by (simp add: init_defs sample_os_def sample_path)
  with shared_file_layout [OF i] show ?thesis by blast
qed

subsection \<open>A fresh ring\<close>

lemma next_power_of_2_usable:
  assumes "3 \<le> cap" and "cap \<le> 2147483648"
  shows "LUMBRE_IS_POWER_OF_TWO (lumbre_next_power_of_2 cap) \<and> 4 \<le> lumbre_next_power_of_2 cap"
proof -
  have "cap \<noteq> 0" and n: "3 \<le> unat cap" "unat cap \<le> 2 ^ 31"
    using assms by (auto simp: word_le_nat_alt)
  from next_power_of_2_eq [OF this(1)] obtain k where
    k: "lumbre_next_power_of_2 cap = 2 ^ k" "unat cap \<le> 2 ^ k" "2 ^ k < 2 * unat cap"
    by blast
  have "(2::nat) ^ k < 2 ^ 32" and "(2::nat) ^ 1 < 2 ^ k" using k n by simp_all
  then have "k < 32" and "1 < k" by (blast intro: pow2_less_cancel)+
  moreover have "(2::nat) ^ 2 \<le> 2 ^ k" using \<open>1 < k\<close> by (intro power_increasing) simp_all
  ultimately show ?thesis using k(1) by (auto simp: is_power_of_two_iff word_le_nat_alt unat_2p)
qed

text \<open>
  C30: A successful initialisation with a requested size from 3 bytes to 2 GiB gives a usable,
  empty ring of the next power of two: the header carries magic, version, capacity, pid and
  worker id, all positions and the drop counter are 0, the file is 64 bytes plus the ring, and
  the data is zeroed.
\<close>

theorem init_establishes:
  assumes "lumbre_ringbuf_init os rb shm_dir pid wid cap = (0, rb', log)"
    and "3 \<le> cap" and "cap \<le> 2147483648"
  shows "rb_wf rb' \<and> rb_capacity rb' = lumbre_next_power_of_2 cap \<and>
    rb_header rb' = Some (fresh_header (rb_capacity rb') pid wid) \<and>
    rb_local_write_pos rb' = 0 \<and> rb_write_pos rb' = 0 \<and> rb_read_pos rb' = 0 \<and> rb_dropped rb' = 0 \<and>
    unat (rb_mmap_size rb') = 64 + length (rb_data rb') \<and> set (rb_data rb') \<subseteq> {0} \<and>
    Sys_ftruncate (rb_fd rb') (rb_mmap_size rb') \<in> set log \<and>
    rb_path rb' = lumbre_ringbuf_path shm_dir pid wid"
proof -
  have "unat (64 + ucast (lumbre_next_power_of_2 cap) :: u64) = 64 + unat (lumbre_next_power_of_2 cap)"
    using unat_u32_lt [of "lumbre_next_power_of_2 cap"] by (simp add: unat_plus unat_ucast_up)
  with assms next_power_of_2_usable [OF assms(2,3)] show ?thesis
    by (auto simp: init_defs rb_wf_def rb_write_pos_def rb_read_pos_def rb_dropped_def
        fresh_header_def LUMBRE_RINGBUF_HEADER_SIZE_def split: if_splits)
qed

lemma sample_init:
  "\<exists>rb' log. lumbre_ringbuf_init (sample_os True) null_ring (c_str ''/tmp'') 42 0 16 = (0, rb', log)"
  by (simp add: init_defs sample_os_def sample_path)

theorem init_establishes_witness:
  "\<exists>rb' log. lumbre_ringbuf_init (sample_os True) null_ring (c_str ''/tmp'') 42 0 16 = (0, rb', log) \<and>
     rb_wf rb' \<and> rb_capacity rb' = lumbre_next_power_of_2 16 \<and> rb_dropped rb' = 0"
proof -
  obtain rb' log where i:
    "lumbre_ringbuf_init (sample_os True) null_ring (c_str ''/tmp'') 42 0 16 = (0, rb', log)"
    using sample_init by blast
  have "(3::u32) \<le> 16" "(16::u32) \<le> 2147483648" by simp_all
  from init_establishes [OF i this] i show ?thesis by auto
qed

text \<open>
  Destroying a ring that was initialised gives back the descriptor and the mapping; the file
  is removed unless the caller asks to keep it. A second destroy makes no call at all.
\<close>

theorem destroy_releases:
  assumes "lumbre_ringbuf_init os rb shm_dir pid wid cap = (0, rb1, log1)"
    and "lumbre_ringbuf_destroy rb1 skip_unlink = (rb2, log2)"
    and "init_path shm_dir pid wid \<notin> res_files r"
  shows "os_run (log1 @ log2) r =
      (if skip_unlink then r\<lparr>res_files := insert (init_path shm_dir pid wid) (res_files r)\<rparr> else r) \<and>
    lumbre_ringbuf_destroy rb2 skip2 = (rb2, [])"
  using assms by (auto simp: init_defs lumbre_ringbuf_destroy_def os_run_def split: if_splits)

theorem destroy_releases_witness:
  "\<exists>rb1 log1 rb2 log2.
     lumbre_ringbuf_init (sample_os True) null_ring (c_str ''/tmp'') 42 0 16 = (0, rb1, log1) \<and>
     lumbre_ringbuf_destroy rb1 False = (rb2, log2) \<and>
     os_run (log1 @ log2) \<lparr>res_fds = [], res_maps = [], res_files = {}\<rparr> =
       \<lparr>res_fds = [], res_maps = [], res_files = {}\<rparr>"
proof -
  obtain rb1 log1 where i:
    "lumbre_ringbuf_init (sample_os True) null_ring (c_str ''/tmp'') 42 0 16 = (0, rb1, log1)"
    using sample_init by blast
  obtain rb2 log2 where d: "lumbre_ringbuf_destroy rb1 False = (rb2, log2)"
    by (cases "lumbre_ringbuf_destroy rb1 False")
  from destroy_releases [OF i d, of "\<lparr>res_fds = [], res_maps = [], res_files = {}\<rparr>" True] i d
  show ?thesis by auto
qed

end
