(* ===== verification/Lumbre_Ringbuf_Queue.thy ===== *)
theory Lumbre_Ringbuf_Queue
  imports Lumbre_Ringbuf_Lifecycle
begin

text \<open>
  The ring as a queue of messages. \<open>ring_seg\<close> says that a stretch of the ring holds a list of
  messages, records that would straddle the end being moved to offset 0 behind a padding marker;
  \<open>ring_holds\<close> ties it to the positions of a handle. Writing refines appending to the list,
  reading (the consumer loop of \<^verbatim>\<open>tests/test_ringbuf.c\<close>) refines taking the head, and the
  locale \<open>lossy_fifo\<close> draws the conclusions a client of such a queue needs.
\<close>

subsection \<open>The consumer\<close>

definition ringbuf_read_one :: "lumbre_ringbuf_t \<Rightarrow> u64 \<Rightarrow> (bytes \<times> u64) option" where
  "ringbuf_read_one rb daemon_read_pos =
     (let offset = ucast (daemon_read_pos AND ucast (rb_mask rb)) :: u32
      in do {
        b \<leftarrow> mem_load (rb_data rb) (unat offset) 4;
        let len = (le_val b :: u32);
        if len = LUMBRE_RINGBUF_PADDING_MARKER then do {
          b \<leftarrow> mem_load (rb_data rb) 0 4;
          let len = (le_val b :: u32);
          payload \<leftarrow> mem_load (rb_data rb) 4 (unat len);
          Some (payload, daemon_read_pos + ucast (rb_capacity rb - offset) + ucast (4 + len)) }
        else do {
          payload \<leftarrow> mem_load (rb_data rb) (unat (offset + 4)) (unat len);
          Some (payload, daemon_read_pos + ucast (4 + len)) } })"

definition ringbuf_publish_read :: "lumbre_ringbuf_t \<Rightarrow> u64 \<Rightarrow> lumbre_ringbuf_t option" where
  "ringbuf_publish_read rb pos = do {
     h \<leftarrow> rb_header rb; Some (rb\<lparr>rb_header := Some (h\<lparr>hdr_read_pos := pos\<rparr>)\<rparr>) }"

definition ringbuf_take :: "lumbre_ringbuf_t \<Rightarrow> (bytes \<times> lumbre_ringbuf_t) option" where
  "ringbuf_take rb = do {
     (p, pos) \<leftarrow> ringbuf_read_one rb (rb_read_pos rb);
     rb \<leftarrow> ringbuf_publish_read rb pos;
     Some (p, rb) }"

subsection \<open>A stretch of the ring as a list of messages\<close>

text \<open>\<open>ring_seg c d o ms k\<close>: the \<open>k\<close> bytes from offset \<open>o\<close> on hold exactly the messages \<open>ms\<close>.\<close>

fun ring_seg :: "nat \<Rightarrow> bytes \<Rightarrow> nat \<Rightarrow> bytes list \<Rightarrow> nat \<Rightarrow> bool" where
  "ring_seg c d off [] k \<longleftrightarrow> k = 0"
| "ring_seg c d off (m # ms) k \<longleftrightarrow>
     (if off + (4 + length m) \<le> c then
        4 + length m \<le> k \<and> mem_load d off (4 + length m) = Some (frame m) \<and>
        ring_seg c d ((off + (4 + length m)) mod c) ms (k - (4 + length m))
      else
        off + 4 \<le> c \<and> 4 + length m \<le> c \<and> c - off + (4 + length m) \<le> k \<and>
        mem_load d off 4 = Some (le32 LUMBRE_RINGBUF_PADDING_MARKER) \<and>
        mem_load d 0 (4 + length m) = Some (frame m) \<and>
        ring_seg c d ((4 + length m) mod c) ms (k - (c - off + (4 + length m))))"

lemma ring_seg_cong:
  assumes "ring_seg c d off ms k" and "off < c" and "length d = c" and "length d' = c"
    and "\<And>i. i < k \<Longrightarrow> d' ! ((off + i) mod c) = d ! ((off + i) mod c)"
  shows "ring_seg c d' off ms k"
  using assms(1,2,5)
proof (induction ms arbitrary: off k)
  case Nil
  then show ?case by simp
next
  case (Cons m ms)
  define n where "n = 4 + length m"
  show ?case
  proof (cases "off + n \<le> c")
    case True
    with Cons.prems have seg: "n \<le> k" "mem_load d off n = Some (frame m)"
      "ring_seg c d ((off + n) mod c) ms (k - n)"
      by (simp_all add: n_def)
    have "d' ! i = d ! i" if "off \<le> i" "i < off + n" for i
      using Cons.prems(3) [of "i - off"] that True seg(1) by simp
    then have "mem_load d' off n = Some (frame m)"
      using seg(2) assms(3,4) by (subst mem_load_cong [of d' d]) simp_all
    moreover have "d' ! (((off + n) mod c + i) mod c) = d ! (((off + n) mod c + i) mod c)"
      if "i < k - n" for i
      using Cons.prems(3) [of "n + i"] that by (simp add: mod_simps ac_simps)
    then have "ring_seg c d' ((off + n) mod c) ms (k - n)"
      using Cons.IH [OF seg(3)] Cons.prems(2) by simp
    ultimately show ?thesis using True seg(1) by (simp add: n_def)
  next
    case False
    with Cons.prems have seg: "off + 4 \<le> c" "n \<le> c" "c - off + n \<le> k"
      "mem_load d off 4 = Some (le32 LUMBRE_RINGBUF_PADDING_MARKER)"
      "mem_load d 0 n = Some (frame m)" "ring_seg c d (n mod c) ms (k - (c - off + n))"
      by (simp_all add: n_def)
    have "d' ! i = d ! i" if "off \<le> i" "i < off + 4" for i
      using Cons.prems(3) [of "i - off"] that seg(1,3) False by (simp add: n_def)
    then have "mem_load d' off 4 = Some (le32 LUMBRE_RINGBUF_PADDING_MARKER)"
      using seg(4) assms(3,4) by (subst mem_load_cong [of d' d]) simp_all
    moreover have "d' ! i = d ! i" if "i < n" for i
    proof -
      have "(off + (c - off + i)) mod c = i mod c" using Cons.prems(2) by simp
      then show ?thesis using Cons.prems(3) [of "c - off + i"] that seg(2,3) by simp
    qed
    then have "mem_load d' 0 n = Some (frame m)"
      using seg(5) assms(3,4) by (subst mem_load_cong [of d' d]) simp_all
    moreover have "d' ! ((n mod c + i) mod c) = d ! ((n mod c + i) mod c)"
      if "i < k - (c - off + n)" for i
    proof -
      have "(off + (c - off + n + i)) mod c = (n + i) mod c"
        using Cons.prems(2) mod_add_self1 [of c "n + i"] by (simp add: ac_simps)
      then show ?thesis using Cons.prems(3) [of "c - off + n + i"] that by (simp add: mod_simps)
    qed
    then have "ring_seg c d' (n mod c) ms (k - (c - off + n))"
      using Cons.IH [OF seg(6)] Cons.prems(2) by simp
    ultimately show ?thesis using False seg(1-3) by (simp add: n_def)
  qed
qed

text \<open>A segment followed by a one-message segment is a longer segment.\<close>

lemma ring_seg_snoc:
  assumes "ring_seg c d off ms k" and "off < c" and "ring_seg c d ((off + k) mod c) [m] j"
  shows "ring_seg c d off (ms @ [m]) (k + j)"
  using assms
proof (induction ms arbitrary: off k)
  case Nil
  then show ?case by simp
next
  case (Cons x xs)
  define n where "n = 4 + length x"
  show ?case
  proof (cases "off + n \<le> c")
    case True
    with Cons.prems have seg: "n \<le> k" "ring_seg c d ((off + n) mod c) xs (k - n)"
      "mem_load d off n = Some (frame x)"
      by (simp_all add: n_def)
    have "off + n + (k - n) = off + k" using seg(1) by simp
    then have "((off + n) mod c + (k - n)) mod c = (off + k) mod c"
      by (simp only: mod_add_left_eq)
    then have "ring_seg c d ((off + n) mod c) (xs @ [m]) (k - n + j)"
      using Cons.IH [OF seg(2)] Cons.prems(2,3) by simp
    moreover have "k - n + j = k + j - n" using seg(1) by simp
    ultimately have "ring_seg c d ((off + n) mod c) (xs @ [m]) (k + j - n)" by (simp only:)
    then show ?thesis using True seg(1,3) by (simp add: n_def)
  next
    case False
    define a where "a = c - off + n"
    with False Cons.prems have seg: "off + 4 \<le> c" "n \<le> c" "a \<le> k"
      "mem_load d off 4 = Some (le32 LUMBRE_RINGBUF_PADDING_MARKER)"
      "mem_load d 0 n = Some (frame x)" "ring_seg c d (n mod c) xs (k - a)"
      by (simp_all add: n_def)
    have "off + k = c + (n + (k - a))" using seg(3) Cons.prems(2) by (simp add: a_def)
    then have "(n mod c + (k - a)) mod c = (off + k) mod c"
      by (simp only: mod_add_left_eq mod_add_self1)
    then have "ring_seg c d (n mod c) (xs @ [m]) (k - a + j)"
      using Cons.IH [OF seg(6)] Cons.prems(2,3) by simp
    moreover have "k - a + j = k + j - a" using seg(3) by simp
    ultimately have "ring_seg c d (n mod c) (xs @ [m]) (k + j - a)" by (simp only:)
    then show ?thesis using False seg(1-5) by (simp add: n_def a_def)
  qed
qed

text \<open>Positions less than a lap apart are different; stores ahead of a segment leave it alone.\<close>

lemma lap_inject:
  assumes "(x + i) mod c = (x + j) mod c" and "i < c" and "j < c"
  shows "i = (j :: nat)"
proof -
  have *: "i = j" if "(x + i) mod c = (x + j) mod c" "i \<le> j" "j < c" for i j :: nat
  proof -
    have "c dvd (x + j) - (x + i)"
      using that(1,2) mod_eq_dvd_iff_nat [of "x + i" "x + j" c] by simp
    then have "c dvd j - i" by simp
    then show ?thesis using that(2,3) nat_dvd_not_less [of "j - i" c] by fastforce
  qed
  show ?thesis
    using * [of i j] * [of j i] assms by (cases "i \<le> j") auto
qed

lemma ring_seg_overwrite:
  assumes "ring_seg c d off ms k" and "off < c" and "length d = c"
    and "s = (off + a) mod c" and "k \<le> a" and "a + length bs \<le> c" and "s + length bs \<le> c"
  shows "ring_seg c (overwrite d s bs) off ms k"
proof (rule ring_seg_cong [OF assms(1,2,3)])
  show "length (overwrite d s bs) = c" using assms(3,7) by simp
  fix i assume i: "i < k"
  define x where "x = (off + i) mod c"
  have "x < c" using assms(2) by (simp add: x_def)
  have "\<not> (s \<le> x \<and> x < s + length bs)"
  proof
    assume b: "s \<le> x \<and> x < s + length bs"
    have "x = (s + (x - s)) mod c" using b \<open>x < c\<close> by simp
    also have "\<dots> = (off + (a + (x - s))) mod c"
      by (simp only: assms(4) mod_add_left_eq add.assoc)
    finally have "(off + i) mod c = (off + (a + (x - s))) mod c" by (simp only: x_def)
    then have "i = a + (x - s)" by (rule lap_inject) (use i b assms(5,6) in auto)
    with i assms(5) show False by simp
  qed
  then show "overwrite d s bs ! x = d ! x"
    using \<open>x < c\<close> assms(3,7) by (auto simp: overwrite_nth)
qed

lemma ring_seg_direct:
  assumes "ring_seg c d off ms k" and "off < c" and "length d = c"
    and "p = (off + k) mod c" and "k + (4 + length m) \<le> c" and "p + (4 + length m) \<le> c"
  shows "ring_seg c (overwrite d p (frame m)) off (ms @ [m]) (k + (4 + length m))"
proof (rule ring_seg_snoc)
  show "ring_seg c (overwrite d p (frame m)) off ms k"
    using assms by (intro ring_seg_overwrite [where a = k]) simp_all
  show "ring_seg c (overwrite d p (frame m)) ((off + k) mod c) [m] (4 + length m)"
    using assms by (simp add: mem_load_overwrite flip: assms(4))
qed (rule assms(2))

lemma ring_seg_wrapped:
  assumes "ring_seg c d off ms k" and "off < c" and "length d = c"
    and "p = (off + k) mod c" and "k + (c - p + (4 + length m)) \<le> c"
    and "c < p + (4 + length m)" and "p + 4 \<le> c"
  shows "ring_seg c (overwrite (overwrite d p (le32 LUMBRE_RINGBUF_PADDING_MARKER)) 0 (frame m))
    off (ms @ [m]) (k + (c - p + (4 + length m)))"
    (is "ring_seg c ?d off _ _")
proof (rule ring_seg_snoc)
  have "(p + (c - p)) mod c = 0" using assms(7) by simp
  then have zero: "(off + (k + (c - p))) mod c = 0"
    by (simp only: assms(4) mod_add_left_eq add.assoc)
  show "ring_seg c ?d off ms k"
    using assms(1-3,5,7) zero [symmetric]
    by (intro ring_seg_overwrite [where a = "k + (c - p)"] ring_seg_overwrite [where a = k, OF _ _ _ assms(4)])
      simp_all
  have "mem_load ?d p 4 = Some (le32 LUMBRE_RINGBUF_PADDING_MARKER)"
    using assms(3,5,7) by (subst mem_load_overwrite_disjoint) (simp_all add: mem_load_overwrite)
  moreover have "mem_load ?d 0 (4 + length m) = Some (frame m)"
    using assms(3,5,7) by (simp add: mem_load_overwrite)
  ultimately show "ring_seg c ?d ((off + k) mod c) [m] (c - p + (4 + length m))"
    using assms(5-7) by (simp flip: assms(4))
qed (rule assms(2))

subsection \<open>The ring as a queue\<close>

definition ring_holds :: "lumbre_ringbuf_t \<Rightarrow> bytes list \<Rightarrow> bool" where
  "ring_holds rb ms \<longleftrightarrow> rb_wf rb \<and> rb_write_pos rb = rb_local_write_pos rb \<and>
     rb_used rb \<le> rb_size rb \<and>
     ring_seg (rb_size rb) (rb_data rb) (unat (rb_read_pos rb) mod rb_size rb) ms (rb_used rb)"

lemma rb_offset_from_read:
  assumes "rb_wf rb"
  shows "rb_offset rb = (unat (rb_read_pos rb) mod rb_size rb + rb_used rb) mod rb_size rb"
  using unat_diff_mod [OF rb_size_dvd [OF assms], of "rb_local_write_pos rb" "rb_read_pos rb"]
  by (simp add: rb_offset_def rb_used_def mod_simps)

text \<open>Accepted: there is room for the record and, when it wraps, for the padding before it.\<close>

definition ring_accepts :: "lumbre_ringbuf_t \<Rightarrow> bytes \<Rightarrow> bool" where
  "ring_accepts rb p \<longleftrightarrow>
     rb_used rb + ring_cost (rb_size rb) (rb_offset rb) (4 + length p) \<le> rb_size rb"

lemma ring_accept_used:
  assumes "rb_wf rb" and "rb_header rb = Some h" and "rb_used rb + a \<le> rb_size rb"
  shows "rb_used (ring_accept rb h d off p a) = rb_used rb + a"
proof -
  have "unat (of_nat a :: u64) = a"
    using assms(3) rb_size_bounds [OF assms(1)] by (simp add: unat_of_nat)
  moreover have "rb_local_write_pos rb + of_nat a - hdr_read_pos h =
      (rb_local_write_pos rb - hdr_read_pos h) + of_nat a" by simp
  ultimately show ?thesis
    using assms rb_size_bounds [OF assms(1)]
    by (simp only: rb_used_def ring_accept_fields header_views(1) [OF assms(2)])
       (simp add: unat_plus)
qed

lemma ring_holds_accept:
  assumes holds: "ring_holds rb ms" and h: "rb_header rb = Some h" and "length d = rb_size rb"
    and room: "rb_used rb + a \<le> rb_size rb" and fit: "off + 4 + length p \<le> rb_size rb"
    and seg: "ring_seg (rb_size rb) (overwrite d off (frame p)) (unat (rb_read_pos rb) mod rb_size rb)
      (ms @ [p]) (rb_used rb + a)"
  shows "ring_holds (ring_accept rb h d off p a) (ms @ [p])"
  using assms ring_accept_used [OF _ h room] ring_accept_wf [of rb d off p h a]
  by (simp add: ring_holds_def header_views)

lemma ring_holds_drop:
  "ring_holds rb ms \<Longrightarrow> rb_header rb = Some h \<Longrightarrow>
   ring_holds (rb\<lparr>rb_header := Some (h\<lparr>hdr_dropped := x\<rparr>)\<rparr>) ms"
  by (simp add: ring_holds_def rb_wf_update_header header_views rb_used_def)

lemma ringbuf_put_spec:
  assumes "ring_holds rb ms" and "unat len = length p"
  shows "case lumbre_ringbuf_write rb p len of
      None \<Rightarrow> ring_accepts rb p \<and> marker_overruns rb p
    | Some (rc, rb') \<Rightarrow>
        if ring_accepts rb p then rc = 0 \<and> ring_holds rb' (ms @ [p]) \<and> rb_dropped rb' = rb_dropped rb
        else rc = -1 \<and> ring_holds rb' ms \<and> rb_dropped rb' = rb_dropped rb + 1"
proof -
  define c where "c = rb_size rb"
  define off where "off = rb_offset rb"
  define n where "n = 4 + length p"
  have wf: "rb_wf rb" and used: "rb_used rb \<le> c"
    and seg: "ring_seg c (rb_data rb) (unat (rb_read_pos rb) mod c) ms (rb_used rb)"
    using assms(1) by (simp_all add: ring_holds_def c_def)
  obtain h where h: "rb_header rb = Some h" using wf rb_wf_header by blast
  have c: "4 \<le> c" "c \<le> 2147483648" "length (rb_data rb) = c" "off < c"
    using wf rb_size_bounds [OF wf] rb_offset_less [OF wf]
    by (simp_all add: c_def off_def rb_wf_def rb_size_def)
  have offset: "off = (unat (rb_read_pos rb) mod c + rb_used rb) mod c"
    using rb_offset_from_read [OF wf] by (simp add: off_def c_def)
  have lap: "unat (rb_read_pos rb) mod c < c" using c by simp
  have room: "ring_room rb j \<longleftrightarrow> rb_used rb + j \<le> c" if "j \<le> 4294967296" for j
    using ring_room_iff [OF wf _ that] used by (simp add: c_def)
  have outcome: "lumbre_ringbuf_write rb p len =
    (if c < n \<or> \<not> ring_room rb n then ringbuf_drop rb h
     else if off + n \<le> c then Some (0, ring_accept rb h (rb_data rb) off p n)
     else if \<not> ring_room rb (c - off + n) then ringbuf_drop rb h
     else if c < off + 4 then None
     else Some (0, ring_accept rb h (overwrite (rb_data rb) off (le32 LUMBRE_RINGBUF_PADDING_MARKER))
                     0 p (c - off + n)))"
    using ringbuf_write_cases [OF wf h assms(2)] by (simp add: c_def off_def n_def)
  have drop: "ringbuf_drop rb h = Some (-1, rb\<lparr>rb_header := Some (h\<lparr>hdr_dropped := hdr_dropped h + 1\<rparr>)\<rparr>)"
    by (simp add: ringbuf_drop_def)
  note dropped = ring_holds_drop [OF assms(1) h]
  have direct: "ring_holds (ring_accept rb h (rb_data rb) off p n) (ms @ [p])"
    if "off + n \<le> c" "rb_used rb + n \<le> c"
    using that c seg offset
    by (intro ring_holds_accept [OF assms(1) h]) (simp_all add: c_def [symmetric] n_def ring_seg_direct)
  have wrapped: "ring_holds (ring_accept rb h
      (overwrite (rb_data rb) off (le32 LUMBRE_RINGBUF_PADDING_MARKER)) 0 p (c - off + n)) (ms @ [p])"
    if "c < off + n" "rb_used rb + (c - off + n) \<le> c" "off + 4 \<le> c"
  proof (rule ring_holds_accept [OF assms(1) h])
    show "ring_seg (rb_size rb)
      (overwrite (overwrite (rb_data rb) off (le32 LUMBRE_RINGBUF_PADDING_MARKER)) 0 (frame p))
      (unat (rb_read_pos rb) mod rb_size rb) (ms @ [p]) (rb_used rb + (c - off + n))"
      using ring_seg_wrapped [OF seg lap c(3) offset, of p] that by (simp only: c_def n_def)
  qed (use that c in \<open>simp_all add: c_def n_def\<close>)
  have accepts: "ring_accepts rb p \<longleftrightarrow> rb_used rb + (if off + n \<le> c then n else c - off + n) \<le> c"
    by (simp add: ring_accepts_def ring_cost_def c_def off_def n_def)
  have overruns: "marker_overruns rb p \<longleftrightarrow> c < off + 4 \<and> c < off + n \<and> n \<le> c \<and> ring_room rb n \<and>
      ring_room rb (c - off + n)"
    by (simp add: marker_overruns_def c_def off_def n_def add.assoc)
  show ?thesis
  proof (cases "c < n")
    case True
    then show ?thesis using h dropped by (simp add: outcome drop accepts header_views)
  next
    case False
    then have "n \<le> 4294967296" "c - off + n \<le> 4294967296" using c by simp_all
    note rooms = room [OF this(1)] room [OF this(2)]
    show ?thesis
      using False h dropped direct wrapped
      by (cases "off + n \<le> c")
        (auto simp: outcome drop accepts overruns rooms header_views not_le)
  qed
qed

subsection \<open>Reading\<close>

lemma mem_load_split:
  assumes "mem_load d q (i + j) = Some (xs @ ys)" and "length xs = i"
  shows "mem_load d q i = Some xs" and "mem_load d (q + i) j = Some ys"
proof -
  have len: "q + (i + j) \<le> length d" and eq: "take (i + j) (drop q d) = xs @ ys"
    using mem_load_SomeD [OF assms(1)] by simp_all
  then have "take i (drop q d) @ take j (drop (q + i) d) = xs @ ys"
    by (simp add: take_add drop_drop add.commute)
  then have "take i (drop q d) = xs" "take j (drop (q + i) d) = ys"
    using assms(2) len by (simp_all add: append_eq_append_conv)
  with len show "mem_load d q i = Some xs" "mem_load d (q + i) j = Some ys"
    by (simp_all add: mem_load_def)
qed

lemma position_advance:
  assumes "c dvd 18446744073709551616"
  shows "unat (pos + of_nat a :: u64) mod c = (unat pos mod c + a) mod c"
proof -
  have "unat (pos + of_nat a :: u64) = (unat pos + a) mod 18446744073709551616"
    by (simp add: unat_word_ariths unat_of_nat mod_add_right_eq)
  then have "unat (pos + of_nat a :: u64) mod c = (unat pos + a) mod c"
    using mod_mod_cancel [OF assms] by simp
  then show ?thesis by (simp add: mod_add_left_eq)
qed

lemma frame_header:
  assumes "4 + length m \<le> 2147483648"
  shows "unat (of_nat (length m) :: u32) = length m"
    and "(of_nat (length m) :: u32) \<noteq> LUMBRE_RINGBUF_PADDING_MARKER"
    and "(ucast (4 + of_nat (length m) :: u32) :: u64) = of_nat (4 + length m)"
proof -
  show n: "unat (of_nat (length m) :: u32) = length m" using assms by (simp add: unat_of_nat)
  then show "(of_nat (length m) :: u32) \<noteq> LUMBRE_RINGBUF_PADDING_MARKER"
    using assms by (auto simp: LUMBRE_RINGBUF_PADDING_MARKER_def)
  have "unat (4 + of_nat (length m) :: u32) = 4 + length m"
    using n assms by (simp add: unat_plus)
  then show "(ucast (4 + of_nat (length m) :: u32) :: u64) = of_nat (4 + length m)"
    by (metis of_nat_unat)
qed

text \<open>Reading at a position where a segment starts gives its first message and the next position.\<close>

lemma ringbuf_read_one_seg:
  assumes wf: "rb_wf rb"
    and seg: "ring_seg (rb_size rb) (rb_data rb) (unat pos mod rb_size rb) (m # ms) k"
  defines "a \<equiv> ring_cost (rb_size rb) (unat pos mod rb_size rb) (4 + length m)"
  shows "ringbuf_read_one rb pos = Some (m, pos + of_nat a)" and "a \<le> k"
    and "ring_seg (rb_size rb) (rb_data rb) (unat (pos + of_nat a) mod rb_size rb) ms (k - a)"
proof -
  define c where "c = rb_size rb"
  define off where "off = unat pos mod c"
  have c: "4 \<le> c" "c \<le> 2147483648" "off < c" "unat (rb_capacity rb) = c"
    using rb_size_bounds [OF wf] by (simp_all add: c_def off_def rb_size_def)
  define w :: u32 where "w = ucast (pos AND ucast (rb_mask rb))"
  have w: "unat w = off"
    using masked_position [OF wf, of pos] by (simp add: w_def off_def c_def)
  have adv: "unat (pos + of_nat j) mod c = (off + j) mod c" for j
    using position_advance [of c pos j] rb_size_dvd [OF wf] by (simp add: off_def c_def)
  have unfold: "ringbuf_read_one rb pos = do {
        b \<leftarrow> mem_load (rb_data rb) off 4;
        let len = (le_val b :: u32);
        if len = LUMBRE_RINGBUF_PADDING_MARKER then do {
          b \<leftarrow> mem_load (rb_data rb) 0 4;
          let len = (le_val b :: u32);
          payload \<leftarrow> mem_load (rb_data rb) 4 (unat len);
          Some (payload, pos + ucast (rb_capacity rb - w) + ucast (4 + len)) }
        else do {
          payload \<leftarrow> mem_load (rb_data rb) (unat (w + 4)) (unat len);
          Some (payload, pos + ucast (4 + len)) } }"
    by (simp add: ringbuf_read_one_def w flip: w_def)
  show "ringbuf_read_one rb pos = Some (m, pos + of_nat a)" "a \<le> k"
    "ring_seg (rb_size rb) (rb_data rb) (unat (pos + of_nat a) mod rb_size rb) ms (k - a)"
  proof (atomize (full), cases "off + (4 + length m) \<le> c")
    case True
    then have a: "a = 4 + length m" by (simp add: a_def ring_cost_def off_def c_def)
    have s: "4 + length m \<le> k" "mem_load (rb_data rb) off (4 + length m) = Some (frame m)"
      "ring_seg c (rb_data rb) ((off + (4 + length m)) mod c) ms (k - (4 + length m))"
      using seg True by (simp_all flip: c_def off_def)
    note ld = mem_load_split [OF s(2) [unfolded frame_def]]
    have "4 + length m \<le> 2147483648" using True c by simp
    note hd = frame_header [OF this]
    have next_seg: "ring_seg c (rb_data rb) (unat (pos + of_nat a) mod c) ms (k - a)"
      using s(3) by (simp only: adv a)
    have "unat (w + 4) = off + 4" using w c by (simp add: unat_plus)
    then have "ringbuf_read_one rb pos = Some (m, pos + of_nat (4 + length m))"
      using ld hd by (simp add: unfold)
    then show "ringbuf_read_one rb pos = Some (m, pos + of_nat a) \<and> a \<le> k \<and>
      ring_seg (rb_size rb) (rb_data rb) (unat (pos + of_nat a) mod rb_size rb) ms (k - a)"
      using next_seg s(1) by (simp only: a c_def [symmetric])
  next
    case False
    then have a: "a = c - off + (4 + length m)" by (simp add: a_def ring_cost_def off_def c_def)
    have s: "4 + length m \<le> c" "c - off + (4 + length m) \<le> k"
      "mem_load (rb_data rb) off 4 = Some (le32 LUMBRE_RINGBUF_PADDING_MARKER)"
      "mem_load (rb_data rb) 0 (4 + length m) = Some (frame m)"
      "ring_seg c (rb_data rb) ((4 + length m) mod c) ms (k - (c - off + (4 + length m)))"
      using seg False by (simp_all only: ring_seg.simps if_False c_def [symmetric] off_def [symmetric])
    note ld = mem_load_split [OF s(4) [unfolded frame_def]]
    have "4 + length m \<le> 2147483648" using s(1) c by simp
    note hd = frame_header [OF this]
    have "unat (rb_capacity rb - w) = c - off"
      using w c by (simp add: unat_sub word_le_nat_alt)
    then have pad: "(ucast (rb_capacity rb - w) :: u64) = of_nat (c - off)" by (metis of_nat_unat)
    have "off + (c - off + (4 + length m)) = c + (4 + length m)" using c by simp
    then have "(off + a) mod c = (4 + length m) mod c" by (simp only: a mod_add_self1)
    then have next_seg: "ring_seg c (rb_data rb) (unat (pos + of_nat a) mod c) ms (k - a)"
      using s(5) by (simp only: adv a)
    have "ringbuf_read_one rb pos = Some (m, pos + of_nat (c - off) + of_nat (4 + length m))"
      using ld hd s(3) by (simp add: unfold pad)
    then show "ringbuf_read_one rb pos = Some (m, pos + of_nat a) \<and> a \<le> k \<and>
      ring_seg (rb_size rb) (rb_data rb) (unat (pos + of_nat a) mod rb_size rb) ms (k - a)"
      using next_seg s(2) by (simp only: a of_nat_add add.assoc c_def [symmetric])
  qed
qed

text \<open>What a consumer's published read position leaves in the ring.\<close>

lemma publish_read_holds:
  assumes "ring_holds rb (m # ms)"
  defines "a \<equiv> ring_cost (rb_size rb) (unat (rb_read_pos rb) mod rb_size rb) (4 + length m)"
  shows "\<exists>rb'. ringbuf_publish_read rb (rb_read_pos rb + of_nat a) = Some rb' \<and> ring_holds rb' ms \<and>
    rb_dropped rb' = rb_dropped rb \<and> rb_size rb' = rb_size rb \<and> a \<le> rb_used rb \<and>
    rb_used rb' = rb_used rb - a \<and> rb_read_pos rb' = rb_read_pos rb + of_nat a"
proof -
  have wf: "rb_wf rb" and pub: "rb_write_pos rb = rb_local_write_pos rb"
    and used: "rb_used rb \<le> rb_size rb"
    and seg: "ring_seg (rb_size rb) (rb_data rb) (unat (rb_read_pos rb) mod rb_size rb) (m # ms) (rb_used rb)"
    using assms(1) by (simp_all only: ring_holds_def)
  obtain h where h: "rb_header rb = Some h" using wf rb_wf_header by blast
  note read = ringbuf_read_one_seg [OF wf seg, folded a_def]
  define rb' where "rb' = rb\<lparr>rb_header := Some (h\<lparr>hdr_read_pos := rb_read_pos rb + of_nat a\<rparr>)\<rparr>"
  have "a < 18446744073709551616" using read(2) used rb_size_bounds [OF wf] by simp
  then have "unat (of_nat a :: u64) = a" by (simp add: unat_of_nat)
  moreover have "rb_local_write_pos rb - (rb_read_pos rb + of_nat a) =
      rb_local_write_pos rb - rb_read_pos rb - of_nat a" by simp
  ultimately have used': "unat (rb_local_write_pos rb - (rb_read_pos rb + of_nat a)) = rb_used rb - a"
    using read(2) by (simp only: unat_sub word_le_nat_alt rb_used_def)
  have "ringbuf_publish_read rb (rb_read_pos rb + of_nat a) = Some rb'"
    by (simp add: ringbuf_publish_read_def h rb'_def)
  moreover have "ring_holds rb' ms"
    using wf pub used read(3) used'
    by (simp add: ring_holds_def rb'_def rb_wf_update_header rb_used_def header_views [OF h])
  ultimately show ?thesis
    using read(2) used' by (auto simp: rb'_def header_views [OF h] rb_used_def)
qed

lemma ringbuf_take_spec:
  assumes "ring_holds rb (m # ms)"
  shows "\<exists>rb'. ringbuf_take rb = Some (m, rb') \<and> ring_holds rb' ms \<and> rb_dropped rb' = rb_dropped rb"
proof -
  have "rb_wf rb"
    "ring_seg (rb_size rb) (rb_data rb) (unat (rb_read_pos rb) mod rb_size rb) (m # ms) (rb_used rb)"
    using assms by (simp_all only: ring_holds_def)
  note read = ringbuf_read_one_seg(1) [OF this]
  from publish_read_holds [OF assms] show ?thesis by (auto simp: ringbuf_take_def read)
qed

text \<open>When the positions differ there is a message to read.\<close>

lemma unread_message:
  assumes "ring_holds rb ms" and "rb_read_pos rb \<noteq> rb_write_pos rb"
  obtains m ms' where "ms = m # ms'"
proof (cases ms)
  case Nil
  with assms have "rb_used rb = 0" "rb_write_pos rb = rb_local_write_pos rb" by (simp_all add: ring_holds_def)
  with assms(2) show thesis by (simp add: rb_used_def unat_eq_zero)
next
  case (Cons m ms')
  with that show thesis by blast
qed

lemma ring_seg_nonempty: "ring_seg c d off (m # ms) k \<Longrightarrow> 4 \<le> k"
  by (auto split: if_splits)

lemma ring_holds_empty:
  assumes "ring_holds rb ms" and "rb_read_pos rb = rb_write_pos rb"
  shows "ms = []"
proof (cases ms)
  case (Cons m ms')
  have "rb_used rb = 0" using assms by (simp add: ring_holds_def rb_used_def)
  moreover have "4 \<le> rb_used rb"
    using assms(1) Cons ring_seg_nonempty by (auto simp: ring_holds_def simp del: ring_seg.simps)
  ultimately show ?thesis by simp
qed simp

end
