(* ===== verification/Lumbre_Fifo.thy ===== *)
theory Lumbre_Fifo
  imports Lumbre_Ringbuf_Queue
begin

text \<open>
  The contract of a bounded queue that may refuse a message, what any interleaving of puts and
  gets over it delivers, and the ring buffer as an instance of it: on all payloads with faults as
  a possible outcome, and on payloads of whole words without.
\<close>

subsection \<open>A queue that may refuse\<close>

datatype 'm fifo_op = Put 'm | Get

text \<open>
  A run of operations; the counter holds the messages accepted and not yet read, and a get is
  skipped when there is none, as the producer/consumer test counts its messages. The result lists
  what was accepted and what was received.
\<close>

fun exchange ::
  "('q \<Rightarrow> 'm \<Rightarrow> (int \<times> 'q) option) \<Rightarrow> ('q \<Rightarrow> ('m \<times> 'q) option) \<Rightarrow> 'm fifo_op list \<Rightarrow> 'q \<Rightarrow> nat \<Rightarrow>
   ('m list \<times> 'm list \<times> 'q) option" where
  "exchange put get [] q n = Some ([], [], q)"
| "exchange put get (Put m # ops) q n = do {
     (rc, q) \<leftarrow> put q m;
     if rc = 0 then do {
       (accepted, received, q) \<leftarrow> exchange put get ops q (Suc n);
       Some (m # accepted, received, q) }
     else exchange put get ops q n }"
| "exchange put get (Get # ops) q n =
     (case n of
        0 \<Rightarrow> exchange put get ops q 0
      | Suc k \<Rightarrow> do {
          (m, q) \<leftarrow> get q;
          (accepted, received, q) \<leftarrow> exchange put get ops q k;
          Some (accepted, m # received, q) })"

fun puts :: "'m fifo_op list \<Rightarrow> 'm list" where
  "puts [] = []"
| "puts (Put m # ops) = m # puts ops"
| "puts (Get # ops) = puts ops"

locale lossy_fifo =
  fixes holds :: "'q \<Rightarrow> 'm list \<Rightarrow> bool"
    and put :: "'q \<Rightarrow> 'm \<Rightarrow> (int \<times> 'q) option"
    and get :: "'q \<Rightarrow> ('m \<times> 'q) option"
    and fine :: "'m \<Rightarrow> bool"
  assumes put_accept: "holds q ms \<Longrightarrow> fine m \<Longrightarrow> put q m = Some (0, q') \<Longrightarrow> holds q' (ms @ [m])"
    and put_refuse: "holds q ms \<Longrightarrow> fine m \<Longrightarrow> put q m = Some (rc, q') \<Longrightarrow> rc \<noteq> 0 \<Longrightarrow> holds q' ms"
    and get_head: "holds q (m # ms) \<Longrightarrow> \<exists>q'. get q = Some (m, q') \<and> holds q' ms"
begin

lemma exchange_fifo:
  assumes "holds q ms" and "\<forall>m \<in> set (puts ops). fine m"
    and "exchange put get ops q (length ms) = Some (accepted, received, q')"
  shows "\<exists>rest. ms @ accepted = received @ rest \<and> holds q' rest"
  using assms
proof (induction ops arbitrary: q ms accepted received rule: puts.induct)
  case 1
  then show ?case by auto
next
  case (2 m ops)
  from "2.prems" obtain rc q1 where put: "put q m = Some (rc, q1)"
    by (auto simp: bind_eq_Some_conv)
  show ?case
  proof (cases "rc = 0")
    case True
    with "2.prems" put obtain acc where acc: "accepted = m # acc"
      "exchange put get ops q1 (Suc (length ms)) = Some (acc, received, q')"
      by (auto simp: bind_eq_Some_conv)
    have "holds q1 (ms @ [m])" using put True "2.prems" by (auto intro: put_accept)
    from "2.IH" [OF this, of acc received] "2.prems"(2) acc show ?thesis by auto
  next
    case False
    have "holds q1 ms" using put False "2.prems" by (auto intro: put_refuse)
    from "2.IH" [OF this, of accepted received] "2.prems"(2,3) put False show ?thesis by auto
  qed
next
  case (3 ops)
  show ?case
  proof (cases ms)
    case Nil
    with "3.IH" [of q ms accepted received] "3.prems" show ?thesis by simp
  next
    case (Cons m ms')
    with "3.prems"(1) get_head obtain q1 where get: "get q = Some (m, q1)" "holds q1 ms'" by blast
    with "3.prems"(3) Cons obtain recv where recv: "received = m # recv"
      "exchange put get ops q1 (length ms') = Some (accepted, recv, q')"
      by (auto simp: bind_eq_Some_conv)
    from "3.IH" [OF get(2), of accepted recv] "3.prems"(2) recv Cons show ?thesis by auto
  qed
qed

end

text \<open>A queue whose put never faults: every run completes.\<close>

locale total_fifo = lossy_fifo +
  assumes put_total: "holds q ms \<Longrightarrow> fine m \<Longrightarrow> put q m \<noteq> None"
begin

lemma exchange_total:
  assumes "holds q ms" and "\<forall>m \<in> set (puts ops). fine m"
  shows "\<exists>accepted received q'. exchange put get ops q (length ms) = Some (accepted, received, q')"
  using assms
proof (induction ops arbitrary: q ms rule: puts.induct)
  case 1
  then show ?case by simp
next
  case (2 m ops)
  then obtain rc q1 where put: "put q m = Some (rc, q1)"
    using put_total [of q ms m] by auto
  show ?case
  proof (cases "rc = 0")
    case True
    have "holds q1 (ms @ [m])" using put True "2.prems" by (auto intro: put_accept)
    from "2.IH" [OF this] "2.prems"(2) put True show ?thesis by auto
  next
    case False
    have "holds q1 ms" using put False "2.prems" by (auto intro: put_refuse)
    from "2.IH" [OF this] "2.prems"(2) put False show ?thesis by auto
  qed
next
  case (3 ops)
  show ?case
  proof (cases ms)
    case Nil
    with "3.IH" [of q ms] "3.prems" show ?thesis by simp
  next
    case (Cons m ms')
    with "3.prems"(1) get_head obtain q1 where get: "get q = Some (m, q1)" "holds q1 ms'" by blast
    from "3.IH" [OF get(2)] "3.prems"(2) get(1) Cons show ?thesis by auto
  qed
qed

end

subsection \<open>The ring buffer\<close>

definition ring_put :: "lumbre_ringbuf_t \<Rightarrow> bytes \<Rightarrow> (int \<times> lumbre_ringbuf_t) option" where
  "ring_put rb p = lumbre_ringbuf_write rb p (of_nat (length p))"

definition ring_payload :: "bytes \<Rightarrow> bool" where
  "ring_payload p \<longleftrightarrow> length p < 4294967296"

lemma ring_put_refines:
  assumes "ring_holds rb ms" and "ring_payload p"
  shows "case ring_put rb p of
      None \<Rightarrow> ring_accepts rb p \<and> marker_overruns rb p
    | Some (rc, rb') \<Rightarrow>
        if ring_accepts rb p then rc = 0 \<and> ring_holds rb' (ms @ [p]) \<and> rb_dropped rb' = rb_dropped rb
        else rc = -1 \<and> ring_holds rb' ms \<and> rb_dropped rb' = rb_dropped rb + 1"
  using ringbuf_put_spec [OF assms(1), of "of_nat (length p)" p] assms(2)
  by (simp add: ring_put_def ring_payload_def unat_of_nat)

interpretation ring_fifo: lossy_fifo ring_holds ring_put ringbuf_take ring_payload
proof
  fix rb ms p rb'
  assume "ring_holds rb ms" "ring_payload p" "ring_put rb p = Some (0, rb')"
  with ring_put_refines [of rb ms p] show "ring_holds rb' (ms @ [p])"
    by (simp split: if_splits)
next
  fix rb ms p rb' and rc :: int
  assume "ring_holds rb ms" "ring_payload p" "ring_put rb p = Some (rc, rb')" "rc \<noteq> 0"
  with ring_put_refines [of rb ms p] show "ring_holds rb' ms"
    by (simp split: if_splits)
next
  fix rb m ms
  assume "ring_holds rb (m # ms)"
  from ringbuf_take_spec [OF this] show "\<exists>rb'. ringbuf_take rb = Some (m, rb') \<and> ring_holds rb' ms"
    by blast
qed

text \<open>
  Payloads of whole words keep every record word-aligned, so the four-byte marker always fits.
\<close>

definition aligned_payload :: "bytes \<Rightarrow> bool" where
  "aligned_payload p \<longleftrightarrow> ring_payload p \<and> 4 dvd length p"

definition aligned_holds :: "lumbre_ringbuf_t \<Rightarrow> bytes list \<Rightarrow> bool" where
  "aligned_holds rb ms \<longleftrightarrow> ring_holds rb ms \<and> 4 dvd rb_offset rb"

lemma rb_size_aligned: "rb_wf rb \<Longrightarrow> 4 dvd rb_size rb"
proof (erule rb_size_power)
  fix k assume "2 \<le> k" "rb_size rb = 2 ^ k"
  then show ?thesis using le_imp_power_dvd [of 2 k "2::nat"] by simp
qed

lemma aligned_no_overrun:
  assumes "rb_wf rb" and "4 dvd rb_offset rb"
  shows "\<not> marker_overruns rb p"
proof -
  obtain i j where "rb_size rb = 4 * i" "rb_offset rb = 4 * j"
    using rb_size_aligned [OF assms(1)] assms(2) by (auto elim!: dvdE)
  with rb_offset_less [OF assms(1)] show ?thesis by (simp add: marker_overruns_def)
qed

lemma write_advance:
  assumes "rb_wf rb" and "unat len = length p" and "lumbre_ringbuf_write rb p len = Some (rc, rb')"
  shows "rb_size rb' = rb_size rb \<and>
    (rb_offset rb' = rb_offset rb \<or>
     rb_offset rb' =
       (rb_offset rb + ring_cost (rb_size rb) (rb_offset rb) (4 + length p)) mod rb_size rb)"
proof -
  obtain h where h: "rb_header rb = Some h" using assms(1) rb_wf_header by blast
  have "unat (rb_local_write_pos rb + of_nat a) mod rb_size rb = (rb_offset rb + a) mod rb_size rb" for a
    using position_advance [OF rb_size_dvd [OF assms(1)]] by (simp add: rb_offset_def)
  then have "rb_offset (ring_accept rb h d off p a) = (rb_offset rb + a) mod rb_size rb" for d off a
    by (simp only: rb_offset_def [of "ring_accept rb h d off p a"] ring_accept_fields)
  then show ?thesis
    using assms(3) unfolding ringbuf_write_cases [OF assms(1) h assms(2)]
    by (auto simp: ringbuf_drop_def ring_cost_def split: if_splits)
qed

lemma ring_put_aligned:
  assumes "aligned_holds rb ms" and "aligned_payload p" and "ring_put rb p = Some (rc, rb')"
  shows "4 dvd rb_offset rb'"
proof -
  have wf: "rb_wf rb" and off: "4 dvd rb_offset rb" and p: "4 dvd 4 + length p"
    using assms by (simp_all add: aligned_holds_def ring_holds_def aligned_payload_def)
  have "unat (of_nat (length p) :: u32) = length p"
    using assms(2) by (simp add: aligned_payload_def ring_payload_def unat_of_nat)
  note adv = write_advance [OF wf this, of rc rb']
  have "4 dvd ring_cost (rb_size rb) (rb_offset rb) (4 + length p)"
    using off p rb_size_aligned [OF wf]
    by (auto simp: ring_cost_def intro: dvd_add dvd_diff_nat simp del: dvd_add_triv_left_iff)
  then have "4 dvd (rb_offset rb + ring_cost (rb_size rb) (rb_offset rb) (4 + length p)) mod rb_size rb"
    using off rb_size_aligned [OF wf] by (intro dvd_mod dvd_add)
  with adv off assms(3) show ?thesis by (auto simp: ring_put_def)
qed

interpretation aligned_ring: total_fifo aligned_holds ring_put ringbuf_take aligned_payload
proof
  fix rb ms p rb'
  assume "aligned_holds rb ms" "aligned_payload p" "ring_put rb p = Some (0, rb')"
  then show "aligned_holds rb' (ms @ [p])"
    using ring_put_aligned [of rb ms p 0 rb'] ring_fifo.put_accept [of rb ms p rb']
    by (simp add: aligned_holds_def aligned_payload_def)
next
  fix rb ms p rb' and rc :: int
  assume "aligned_holds rb ms" "aligned_payload p" "ring_put rb p = Some (rc, rb')" "rc \<noteq> 0"
  then show "aligned_holds rb' ms"
    using ring_put_aligned [of rb ms p rc rb'] ring_fifo.put_refuse [of rb ms p rc rb']
    by (simp add: aligned_holds_def aligned_payload_def)
next
  fix rb m ms
  assume a: "aligned_holds rb (m # ms)"
  then obtain rb' where t: "ringbuf_take rb = Some (m, rb')" "ring_holds rb' ms"
    using ring_fifo.get_head [of rb m ms] by (auto simp: aligned_holds_def)
  then have "rb_offset rb' = rb_offset rb"
    by (auto simp: ringbuf_take_def ringbuf_publish_read_def bind_eq_Some_conv)
  with a t show "\<exists>rb'. ringbuf_take rb = Some (m, rb') \<and> aligned_holds rb' ms"
    by (auto simp: aligned_holds_def)
next
  fix rb ms p
  assume "aligned_holds rb ms" "aligned_payload p"
  then show "ring_put rb p \<noteq> None"
    using ring_put_refines [of rb ms p] aligned_no_overrun [of rb p]
    by (auto simp: aligned_holds_def aligned_payload_def ring_holds_def split: option.splits)
qed

subsection \<open>Properties\<close>

text \<open>A freshly initialised ring is the empty queue.\<close>

lemma fresh_ring_empty:
  assumes "rb_wf rb" "rb_local_write_pos rb = 0" "rb_write_pos rb = 0" "rb_read_pos rb = 0"
  shows "aligned_holds rb []"
  using assms by (simp add: aligned_holds_def ring_holds_def rb_used_def rb_offset_def)

lemma sample_ring_empty: "aligned_holds sample_ring []"
  by (rule fresh_ring_empty [OF sample_ring_wf])
    (simp_all add: sample_ring_def fresh_header_def rb_write_pos_def rb_read_pos_def)

lemma sample_ring_holds: "ring_holds sample_ring []"
  using sample_ring_empty by (simp add: aligned_holds_def)

text \<open>
  C22: Refinement of the producer: on a ring that holds the messages \<open>ms\<close>, a write appends its
  payload exactly when the record, with the padding a wrap needs, fits into the free bytes, and
  otherwise returns -1, counts a drop and changes nothing else. The only other outcome is the
  fault of the padding marker, when an accepted record wraps with fewer than four bytes left.
\<close>

theorem ringbuf_write_refines:
  assumes "ring_holds rb ms" and "unat len = length p"
  shows "case lumbre_ringbuf_write rb p len of
      None \<Rightarrow> ring_accepts rb p \<and> marker_overruns rb p
    | Some (rc, rb') \<Rightarrow>
        if ring_accepts rb p then rc = 0 \<and> ring_holds rb' (ms @ [p]) \<and> rb_dropped rb' = rb_dropped rb
        else rc = -1 \<and> ring_holds rb' ms \<and> rb_dropped rb' = rb_dropped rb + 1"
  using assms by (rule ringbuf_put_spec)

theorem ringbuf_write_refines_witness:
  "\<exists>rb'. lumbre_ringbuf_write sample_ring [9, 8, 7] 3 = Some (0, rb') \<and> ring_holds rb' [[9, 8, 7]]"
proof -
  have "unat (3 :: u32) = length [9, 8, 7 :: u8]" by simp
  note r = ringbuf_write_refines [OF sample_ring_holds this]
  have "ring_accepts sample_ring [9, 8, 7]"
    by (simp add: ring_accepts_def ring_cost_def sample_ring_def fresh_header_def rb_used_def
        rb_read_pos_def rb_size_def rb_offset_def)
  moreover have "\<not> marker_overruns sample_ring [9, 8, 7]"
    using aligned_no_overrun [OF sample_ring_wf] sample_ring_empty by (simp add: aligned_holds_def)
  ultimately show ?thesis using r by (auto split: option.splits)
qed

text \<open>
  Refinement of the consumer: on a ring that holds a message and more, the read loop returns
  exactly the first message, moves over it and any padding before it, and leaves a ring that
  holds the rest.
\<close>

theorem ringbuf_take_refines:
  assumes "ring_holds rb (m # ms)"
  shows "\<exists>rb'. ringbuf_take rb = Some (m, rb') \<and> ring_holds rb' ms \<and> rb_dropped rb' = rb_dropped rb"
  using assms by (rule ringbuf_take_spec)

lemma sample_ring_one: "\<exists>rb'. ring_put sample_ring [1, 2, 3, 4] = Some (0, rb') \<and> ring_holds rb' [[1, 2, 3, 4]]"
proof -
  have "ring_accepts sample_ring [1, 2, 3, 4]"
    by (simp add: ring_accepts_def ring_cost_def sample_ring_def fresh_header_def rb_used_def
        rb_read_pos_def rb_size_def rb_offset_def)
  moreover have "\<not> marker_overruns sample_ring [1, 2, 3, 4]"
    using aligned_no_overrun [OF sample_ring_wf] sample_ring_empty by (simp add: aligned_holds_def)
  ultimately show ?thesis
    using ring_put_refines [OF sample_ring_holds, of "[1, 2, 3, 4]"]
    by (auto simp: ring_payload_def split: option.splits)
qed

theorem ringbuf_take_refines_witness:
  "\<exists>rb rb'. ring_put sample_ring [1, 2, 3, 4] = Some (0, rb) \<and>
     ringbuf_take rb = Some ([1, 2, 3, 4], rb') \<and> ring_holds rb' []"
proof -
  obtain rb where "ring_put sample_ring [1, 2, 3, 4] = Some (0, rb)" "ring_holds rb [[1, 2, 3, 4]]"
    using sample_ring_one by blast
  with ringbuf_take_refines [of rb "[1, 2, 3, 4]" "[]"] show ?thesis by blast
qed

text \<open>
  C21: End to end: from a ring that holds \<open>ms\<close>, any interleaving of writes and reads that runs
  to its end delivers messages in order, each once and unchanged: what was received, followed by
  what the ring still holds, is what it held followed by what was accepted.
\<close>

theorem ring_exchange_fifo:
  assumes "ring_holds rb ms" and "\<forall>p \<in> set (puts ops). length p < 4294967296"
    and "exchange ring_put ringbuf_take ops rb (length ms) = Some (accepted, received, rb')"
  shows "\<exists>rest. ms @ accepted = received @ rest \<and> ring_holds rb' rest"
  using assms(1) _ assms(3)
  by (rule ring_fifo.exchange_fifo) (use assms(2) in \<open>simp add: ring_payload_def\<close>)

text \<open>
  C28: When every payload is a whole number of 32-bit words, every interleaving of writes and reads
  from a fresh ring completes: no write touches a byte outside the ring, and no read fails.
\<close>

theorem ring_exchange_aligned_total:
  assumes "rb_wf rb" and "rb_local_write_pos rb = 0" and "rb_write_pos rb = 0" and "rb_read_pos rb = 0"
    and "\<forall>p \<in> set (puts ops). length p < 4294967296 \<and> 4 dvd length p"
  shows "\<exists>accepted received rb'. exchange ring_put ringbuf_take ops rb 0 = Some (accepted, received, rb')"
proof -
  have "\<forall>p \<in> set (puts ops). aligned_payload p"
    using assms(5) by (auto simp: aligned_payload_def ring_payload_def)
  from aligned_ring.exchange_total [OF fresh_ring_empty [OF assms(1-4)] this] show ?thesis by simp
qed

theorem ring_exchange_aligned_total_witness:
  "\<exists>accepted received rb'. exchange ring_put ringbuf_take
     [Put (replicate 8 1), Get, Put (replicate 8 2), Put [], Get, Get] sample_ring 0 = Some (accepted, received, rb')"
  by (rule ring_exchange_aligned_total [OF sample_ring_wf])
    (simp_all add: sample_ring_def fresh_header_def rb_write_pos_def rb_read_pos_def)

theorem ring_exchange_fifo_witness:
  "\<exists>accepted received rb' rest. exchange ring_put ringbuf_take
     [Put (replicate 8 1), Get, Put (replicate 4 2)] sample_ring 0 = Some (accepted, received, rb') \<and>
     accepted = received @ rest \<and> ring_holds rb' rest"
proof -
  have "\<forall>p \<in> set (puts [Put (replicate 8 1), Get, Put (replicate 4 2)]). aligned_payload (p :: bytes)"
    by (simp add: aligned_payload_def ring_payload_def)
  from aligned_ring.exchange_total [OF sample_ring_empty this] obtain accepted received rb' where
    x: "exchange ring_put ringbuf_take [Put (replicate 8 1), Get, Put (replicate 4 2)] sample_ring
      (length ([] :: bytes list)) = Some (accepted, received, rb')"
    by auto
  have "\<forall>p \<in> set (puts [Put (replicate 8 1), Get, Put (replicate 4 2)]). length (p :: bytes) < 4294967296"
    by simp
  from ring_exchange_fifo [OF sample_ring_holds this x] x show ?thesis by auto
qed

text \<open>
  C38: The padding marker overruns the ring: on an empty ring whose write offset is one, two or
  three bytes before the end, every payload for which there is room makes the producer store
  the four-byte marker across the end of the data ring.
\<close>

theorem padding_marker_overruns:
  assumes "ring_holds rb []" and "rb_size rb < rb_offset rb + 4"
    and "rb_size rb - rb_offset rb + (4 + length p) \<le> rb_size rb"
  shows "lumbre_ringbuf_write rb p (of_nat (length p)) = None"
proof -
  have wf: "rb_wf rb" and used: "rb_used rb = 0" using assms(1) by (simp_all add: ring_holds_def)
  have len: "unat (of_nat (length p) :: u32) = length p"
    using assms(3) rb_size_bounds [OF wf] by (simp add: unat_of_nat)
  have "ring_room rb j" if "j \<le> rb_size rb" for j
    using ring_room_iff [OF wf, of j] rb_size_bounds [OF wf] used that by simp
  then have "marker_overruns rb p"
    using assms(2,3) rb_offset_less [OF wf] by (auto simp: marker_overruns_def)
  then show ?thesis using ringbuf_write_fault_iff [OF wf len] by simp
qed

lemma drained_ring:
  "\<exists>rb. exchange ring_put ringbuf_take [Put (replicate 9 1), Get] sample_ring 0 =
     Some ([replicate 9 1], [replicate 9 1], rb) \<and> ring_holds rb [] \<and> rb_size rb = 16 \<and> rb_offset rb = 13"
proof -
  have size: "rb_size sample_ring = 16" "rb_offset sample_ring = 0"
    by (simp_all add: sample_ring_def rb_size_def rb_offset_def)
  have "\<not> marker_overruns sample_ring (replicate 9 1)" using size by (simp add: marker_overruns_def)
  moreover have "ring_accepts sample_ring (replicate 9 1)"
    using size by (simp add: ring_accepts_def ring_cost_def rb_used_def sample_ring_def
        fresh_header_def rb_read_pos_def)
  ultimately obtain rb1 where put: "ring_put sample_ring (replicate 9 1) = Some (0, rb1)"
    "ring_holds rb1 [replicate 9 1]"
    using ring_put_refines [OF sample_ring_holds, of "replicate 9 1"]
    by (auto simp: ring_payload_def split: option.splits)
  obtain h where h: "rb_header sample_ring = Some h" using sample_ring_wf rb_wf_header by blast
  have "ring_room sample_ring 13"
    by (simp add: ring_room_def sample_ring_def fresh_header_def rb_read_pos_def)
  then have "rb1 = ring_accept sample_ring h (rb_data sample_ring) 0 (replicate 9 1) 13"
    using put(1) ringbuf_write_cases [OF sample_ring_wf h, of 9 "replicate 9 1"] size
    by (simp add: ring_put_def ringbuf_drop_def)
  then have rb1: "rb_size rb1 = 16" "rb_offset rb1 = 13"
    using size by (simp_all add: rb_offset_def) (simp add: sample_ring_def)
  obtain rb2 where take: "ringbuf_take rb1 = Some (replicate 9 1, rb2)" "ring_holds rb2 []"
    using ringbuf_take_spec [OF put(2)] by blast
  then have "rb_size rb2 = rb_size rb1" "rb_offset rb2 = rb_offset rb1"
    by (auto simp: ringbuf_take_def ringbuf_publish_read_def bind_eq_Some_conv)
  with put take rb1 show ?thesis by simp
qed

theorem padding_marker_overruns_witness:
  "\<exists>rb. exchange ring_put ringbuf_take [Put (replicate 9 1), Get] sample_ring 0 =
     Some ([replicate 9 1], [replicate 9 1], rb) \<and>
     lumbre_ringbuf_write rb (replicate 8 2) (of_nat (length (replicate 8 (2 :: u8)))) = None"
proof -
  obtain rb where rb: "exchange ring_put ringbuf_take [Put (replicate 9 1), Get] sample_ring 0 =
     Some ([replicate 9 1], [replicate 9 1], rb)" "ring_holds rb []" "rb_size rb = 16" "rb_offset rb = 13"
    using drained_ring by blast
  have "rb_size rb < rb_offset rb + 4"
    "rb_size rb - rb_offset rb + (4 + length (replicate 8 (2 :: u8))) \<le> rb_size rb"
    using rb by simp_all
  from padding_marker_overruns [OF rb(2) this] rb(1) show ?thesis by blast
qed

end
