(* ===== verification/Lumbre_Msgpack_Format.thy ===== *)
theory Lumbre_Msgpack_Format
  imports Lumbre_Prelude
begin

text \<open>
  The msgpack wire format, as far as the packer of \<^verbatim>\<open>lumbre_msgpack.c\<close> produces it: the
  abstract specification that the packer is verified against. Encoders give the exact bytes;
  decoders read them back and return the rest of the input; the locale \<open>codec\<close> says what the
  two owe each other, and everything about sequences and pairs is proved in it once.
\<close>

subsection \<open>Big-endian integers\<close>

definition be16 :: "u16 \<Rightarrow> bytes" where
  "be16 v = map (\<lambda>i. ucast (drop_bit i v)) [8, 0]"

definition be32 :: "u32 \<Rightarrow> bytes" where
  "be32 v = map (\<lambda>i. ucast (drop_bit i v)) [24, 16, 8, 0]"

definition be64 :: "u64 \<Rightarrow> bytes" where
  "be64 v = map (\<lambda>i. ucast (drop_bit i v)) [56, 48, 40, 32, 24, 16, 8, 0]"

lemma length_be [simp]: "length (be16 v) = 2" "length (be32 w) = 4" "length (be64 x) = 8"
  by (simp_all add: be16_def be32_def be64_def)

lemma be_rev_le: "be16 v = rev (le16 v)" "be32 w = rev (le32 w)" "be64 x = rev (le64 x)"
  by (simp_all add: be16_def be32_def be64_def le16_def le32_def le64_def)

lemma be_val_be [simp]: "be_val (be16 v) = v" "be_val (be32 w) = w" "be_val (be64 x) = x"
  using le16_val [of v] le32_val [of w] le64_val [of x]
  by (simp_all add: be_rev_le le_val_def)

subsection \<open>Encoders\<close>

definition enc_map_header :: "u32 \<Rightarrow> bytes" where
  "enc_map_header count =
     (if count \<le> 15 then [ucast (0x80 OR count)] else 0xde # be16 (ucast count))"

definition enc_uint :: "u64 \<Rightarrow> bytes" where
  "enc_uint v =
     (if v < 128 then [ucast v]
      else if v \<le> 0xFF then [0xcc, ucast v]
      else if v \<le> 0xFFFF then 0xcd # be16 (ucast v)
      else if v \<le> 0xFFFFFFFF then 0xce # be32 (ucast v)
      else 0xcf # be64 v)"

definition enc_str_header :: "u32 \<Rightarrow> bytes" where
  "enc_str_header n =
     (if n < 32 then [ucast (0xa0 OR n)]
      else if n \<le> 0xFFFF then 0xda # be16 (ucast n)
      else 0xdb # be32 n)"

definition enc_bin_header :: "u32 \<Rightarrow> bytes" where
  "enc_bin_header n = (if n \<le> 0xFF then [0xc4, ucast n] else 0xc5 # be16 (ucast n))"

definition enc_str :: "bytes \<Rightarrow> bytes" where
  "enc_str s = enc_str_header (of_nat (length s)) @ s"

definition enc_bin :: "bytes \<Rightarrow> bytes" where
  "enc_bin d = enc_bin_header (of_nat (length d)) @ d"

datatype mp_value = MP_Uint u64 | MP_Str bytes | MP_Bin bytes

fun enc_value :: "mp_value \<Rightarrow> bytes" where
  "enc_value (MP_Uint v) = enc_uint v"
| "enc_value (MP_Str s) = enc_str s"
| "enc_value (MP_Bin d) = enc_bin d"

text \<open>
  The values the packer handles: the bound on strings is where the 32-bit size computation of
  \<^verbatim>\<open>lumbre_msgpack_pack_str\<close> stops being exact, the one on binary data is its bin16 limit.
\<close>

definition str_ok :: "bytes \<Rightarrow> bool" where
  "str_ok s \<longleftrightarrow> length s < 4294967291"

fun value_ok :: "mp_value \<Rightarrow> bool" where
  "value_ok (MP_Uint v) = True"
| "value_ok (MP_Str s) = str_ok s"
| "value_ok (MP_Bin d) = (length d \<le> 65535)"

subsection \<open>Decoders\<close>

definition dec_be :: "nat \<Rightarrow> bytes \<Rightarrow> ('a::len word \<times> bytes) option" where
  "dec_be n bs = (if n \<le> length bs then Some (be_val (take n bs), drop n bs) else None)"

definition dec_raw :: "nat \<Rightarrow> bytes \<Rightarrow> (bytes \<times> bytes) option" where
  "dec_raw n bs = (if n \<le> length bs then Some (take n bs, drop n bs) else None)"

definition dec_uint :: "bytes \<Rightarrow> (u64 \<times> bytes) option" where
  "dec_uint bs = (case bs of [] \<Rightarrow> None | b # r \<Rightarrow>
     if b < 0x80 then Some (ucast b, r)
     else if b = 0xcc then do { (n :: u8, r') \<leftarrow> dec_be 1 r; Some (ucast n, r') }
     else if b = 0xcd then do { (n :: u16, r') \<leftarrow> dec_be 2 r; Some (ucast n, r') }
     else if b = 0xce then do { (n :: u32, r') \<leftarrow> dec_be 4 r; Some (ucast n, r') }
     else if b = 0xcf then dec_be 8 r
     else None)"

definition dec_str :: "bytes \<Rightarrow> (bytes \<times> bytes) option" where
  "dec_str bs = (case bs of [] \<Rightarrow> None | b # r \<Rightarrow>
     if b AND 0xe0 = 0xa0 then dec_raw (unat (b AND 0x1f)) r
     else if b = 0xda then do { (n :: u16, r') \<leftarrow> dec_be 2 r; dec_raw (unat n) r' }
     else if b = 0xdb then do { (n :: u32, r') \<leftarrow> dec_be 4 r; dec_raw (unat n) r' }
     else None)"

definition dec_bin :: "bytes \<Rightarrow> (bytes \<times> bytes) option" where
  "dec_bin bs = (case bs of [] \<Rightarrow> None | b # r \<Rightarrow>
     if b = 0xc4 then do { (n :: u8, r') \<leftarrow> dec_be 1 r; dec_raw (unat n) r' }
     else if b = 0xc5 then do { (n :: u16, r') \<leftarrow> dec_be 2 r; dec_raw (unat n) r' }
     else None)"

definition dec_value :: "bytes \<Rightarrow> (mp_value \<times> bytes) option" where
  "dec_value bs =
     (case dec_uint bs of Some (v, r) \<Rightarrow> Some (MP_Uint v, r)
      | None \<Rightarrow> (case dec_str bs of Some (s, r) \<Rightarrow> Some (MP_Str s, r)
      | None \<Rightarrow> (case dec_bin bs of Some (d, r) \<Rightarrow> Some (MP_Bin d, r) | None \<Rightarrow> None)))"

definition dec_map_header :: "bytes \<Rightarrow> (nat \<times> bytes) option" where
  "dec_map_header bs = (case bs of [] \<Rightarrow> None | b # r \<Rightarrow>
     if b AND 0xf0 = 0x80 then Some (unat (b AND 0x0f), r)
     else if b = 0xde then do { (n :: u16, r') \<leftarrow> dec_be 2 r; Some (unat n, r') }
     else None)"

definition dec_pair ::
  "(bytes \<Rightarrow> ('a \<times> bytes) option) \<Rightarrow> (bytes \<Rightarrow> ('b \<times> bytes) option) \<Rightarrow> bytes \<Rightarrow>
   (('a \<times> 'b) \<times> bytes) option" where
  "dec_pair d1 d2 bs = do { (x, r) \<leftarrow> d1 bs; (y, r') \<leftarrow> d2 r; Some ((x, y), r') }"

fun dec_seq :: "(bytes \<Rightarrow> ('a \<times> bytes) option) \<Rightarrow> nat \<Rightarrow> bytes \<Rightarrow> ('a list \<times> bytes) option" where
  "dec_seq d 0 bs = Some ([], bs)"
| "dec_seq d (Suc n) bs = do { (x, r) \<leftarrow> d bs; (xs, r') \<leftarrow> dec_seq d n r; Some (x # xs, r') }"

text \<open>A map: its header, then as many key-value pairs, keys being strings.\<close>

definition enc_map :: "(bytes \<times> mp_value) list \<Rightarrow> bytes" where
  "enc_map kvs = enc_map_header (of_nat (length kvs)) @
     concat (map (\<lambda>(k, v). enc_str k @ enc_value v) kvs)"

definition dec_map :: "bytes \<Rightarrow> ((bytes \<times> mp_value) list \<times> bytes) option" where
  "dec_map bs = do { (n, r) \<leftarrow> dec_map_header bs; dec_seq (dec_pair dec_str dec_value) n r }"

definition map_ok :: "(bytes \<times> mp_value) list \<Rightarrow> bool" where
  "map_ok kvs \<longleftrightarrow> length kvs \<le> 65535 \<and> list_all (\<lambda>(k, v). str_ok k \<and> value_ok v) kvs"

subsection \<open>What an encoder and a decoder owe each other\<close>

locale codec =
  fixes enc :: "'a \<Rightarrow> bytes"
    and dec :: "bytes \<Rightarrow> ('a \<times> bytes) option"
    and ok :: "'a \<Rightarrow> bool"
  assumes dec_enc: "ok x \<Longrightarrow> dec (enc x @ r) = Some (x, r)"
begin

text \<open>Encodings are uniquely readable: no valid encoding is a proper prefix of another.\<close>

lemma enc_unique: "ok x \<Longrightarrow> ok y \<Longrightarrow> enc x @ r = enc y @ s \<Longrightarrow> x = y \<and> r = s"
  by (metis dec_enc option.inject prod.inject)

lemma dec_seq_enc:
  "list_all ok xs \<Longrightarrow> dec_seq dec (length xs) (concat (map enc xs) @ r) = Some (xs, r)"
  by (induction xs) (simp_all add: dec_enc)

end

text \<open>Two codecs in a row are a codec.\<close>

locale codec_pair = k: codec enc1 dec1 ok1 + v: codec enc2 dec2 ok2
  for enc1 :: "'a \<Rightarrow> bytes" and dec1 :: "bytes \<Rightarrow> ('a \<times> bytes) option" and ok1 :: "'a \<Rightarrow> bool"
    and enc2 :: "'b \<Rightarrow> bytes" and dec2 :: "bytes \<Rightarrow> ('b \<times> bytes) option" and ok2 :: "'b \<Rightarrow> bool"

sublocale codec_pair \<subseteq> both: codec
  "\<lambda>(x, y). enc1 x @ enc2 y" "dec_pair dec1 dec2" "\<lambda>(x, y). ok1 x \<and> ok2 y"
proof
  fix p :: "'a \<times> 'b" and r
  assume "case p of (x, y) \<Rightarrow> ok1 x \<and> ok2 y"
  then show "dec_pair dec1 dec2 ((case p of (x, y) \<Rightarrow> enc1 x @ enc2 y) @ r) = Some (p, r)"
    by (cases p) (simp add: dec_pair_def k.dec_enc v.dec_enc)
qed

subsection \<open>The concrete formats are codecs\<close>

lemma dec_be_append: "n = length bs \<Longrightarrow> dec_be n (bs @ r) = Some (be_val bs, r)"
  by (simp add: dec_be_def)

lemma dec_be1 [simp]: "dec_be (Suc 0) (b # r) = Some (ucast b, r)"
  by (simp add: dec_be_def be_val_def)

lemma dec_be_be [simp]:
  "dec_be 2 (be16 v @ r) = Some (v, r)"
  "dec_be 4 (be32 w @ r) = Some (w, r)"
  "dec_be 8 (be64 x @ r) = Some (x, r)"
  by (simp_all add: dec_be_append)

lemma dec_raw_append [simp]: "dec_raw (length s) (s @ r) = Some (s, r)"
  by (simp add: dec_raw_def)

text \<open>A value that fits the narrower width survives the cast down and up again.\<close>

lemma ucast_narrow:
  "unat x < 2 ^ LENGTH('b::len) \<Longrightarrow> ucast (ucast x :: 'b word) = (x :: 'a::len word)"
  by (rule word_unat_eq_iff [THEN iffD2]) (simp add: unsigned_ucast_eq unsigned_take_bit_eq take_bit_nat_eq_self)

lemma dec_uint_enc: "dec_uint (enc_uint v @ r) = Some (v, r)"
proof -
  have n: "v < 128 \<longleftrightarrow> unat v < 128" "v \<le> 0xFF \<longleftrightarrow> unat v \<le> 0xFF"
    "v \<le> 0xFFFF \<longleftrightarrow> unat v \<le> 0xFFFF" "v \<le> 0xFFFFFFFF \<longleftrightarrow> unat v \<le> 0xFFFFFFFF"
    by (simp_all add: word_less_nat_alt word_le_nat_alt)
  have "unat v < 128 \<Longrightarrow> (ucast v :: u8) < 0x80"
    by (simp add: word_less_nat_alt unsigned_ucast_eq take_bit_nat_eq_self)
  moreover have "unat v < 256 \<Longrightarrow> ucast (ucast v :: u8) = v"
    "unat v < 65536 \<Longrightarrow> ucast (ucast v :: u16) = v"
    "unat v < 4294967296 \<Longrightarrow> ucast (ucast v :: u32) = v"
    by (simp_all add: ucast_narrow)
  ultimately show ?thesis
    by (simp add: enc_uint_def dec_uint_def n)
qed

interpretation uint_codec: codec enc_uint dec_uint "\<lambda>_. True"
  by unfold_locales (rule dec_uint_enc)

text \<open>The tag bytes that carry a count in their low bits, for every count they can carry.\<close>

lemma fixstr_tag_table:
  "list_all (\<lambda>i. let b = (ucast (0xa0 OR (word_of_nat i :: u32)) :: u8) in
     b AND 0xe0 = 0xa0 \<and> unat (b AND 0x1f) = i \<and> \<not> b < 0x80 \<and>
     b \<noteq> 0xcc \<and> b \<noteq> 0xcd \<and> b \<noteq> 0xce \<and> b \<noteq> 0xcf) [0..<32]"
  by code_simp

lemma fixmap_tag_table:
  "list_all (\<lambda>i. let b = (ucast (0x80 OR (word_of_nat i :: u32)) :: u8) in
     b AND 0xf0 = 0x80 \<and> unat (b AND 0x0f) = i) [0..<16]"
  by code_simp

lemma fixstr_tag:
  assumes "n < 32"
  shows "(ucast (0xa0 OR n) :: u8) AND 0xe0 = 0xa0"
    and "unat ((ucast (0xa0 OR n) :: u8) AND 0x1f) = unat (n :: u32)"
    and "\<not> (ucast (0xa0 OR n) :: u8) < 0x80"
    and "(ucast (0xa0 OR n) :: u8) \<notin> {0xcc, 0xcd, 0xce, 0xcf}"
proof -
  have "unat n \<in> set [0..<32]"
    using assms by (simp add: word_less_nat_alt)
  note row = fixstr_tag_table [unfolded list_all_iff, THEN bspec, OF this]
  then show "(ucast (0xa0 OR n) :: u8) AND 0xe0 = 0xa0"
    and "unat ((ucast (0xa0 OR n) :: u8) AND 0x1f) = unat (n :: u32)"
    and "\<not> (ucast (0xa0 OR n) :: u8) < 0x80"
    and "(ucast (0xa0 OR n) :: u8) \<notin> {0xcc, 0xcd, 0xce, 0xcf}"
    by (simp_all add: Let_def)
qed

lemma fixmap_tag:
  assumes "n \<le> 15"
  shows "(ucast (0x80 OR n) :: u8) AND 0xf0 = 0x80"
    and "unat ((ucast (0x80 OR n) :: u8) AND 0x0f) = unat (n :: u32)"
proof -
  have "unat n \<in> set [0..<16]"
    using assms by (simp add: word_le_nat_alt)
  note row = fixmap_tag_table [unfolded list_all_iff, THEN bspec, OF this]
  then show "(ucast (0x80 OR n) :: u8) AND 0xf0 = 0x80"
    and "unat ((ucast (0x80 OR n) :: u8) AND 0x0f) = unat (n :: u32)"
    by (simp_all add: Let_def)
qed

lemma dec_str_header:
  assumes "unat n = length s"
  shows "dec_str (enc_str_header n @ s @ r) = Some (s, r)"
proof -
  have w: "n < 32 \<longleftrightarrow> length s < 32" "n \<le> 0xFFFF \<longleftrightarrow> length s \<le> 65535"
    using assms by (simp_all add: word_less_nat_alt word_le_nat_alt)
  have "length s \<le> 65535 \<Longrightarrow> unat (ucast n :: u16) = length s"
    using assms by (simp add: unat_u16_of_u32)
  moreover have "n < 32 \<Longrightarrow> ucast (0xa0 OR n) AND 0xe0 = (0xa0 :: u8)"
    "n < 32 \<Longrightarrow> unat (ucast (0xa0 OR n) AND 0x1f :: u8) = length s"
    using fixstr_tag assms by simp_all
  ultimately show ?thesis
    using assms by (simp add: enc_str_header_def dec_str_def w del: unsigned_and_eq unsigned_or_eq)
qed

lemma dec_bin_header:
  assumes "unat n = length d" and "length d \<le> 65535"
  shows "dec_bin (enc_bin_header n @ d @ r) = Some (d, r)"
proof -
  have w: "n \<le> 0xFF \<longleftrightarrow> length d \<le> 255"
    using assms(1) by (simp add: word_le_nat_alt)
  have "length d \<le> 255 \<Longrightarrow> unat (ucast n :: u8) = length d"
    "unat (ucast n :: u16) = length d"
    using assms by (simp_all add: unsigned_ucast_eq unsigned_take_bit_eq take_bit_nat_eq_self)
  then show ?thesis
    by (simp add: enc_bin_header_def dec_bin_def w)
qed

lemma dec_map_header_enc:
  assumes "length kvs \<le> 65535"
  shows "dec_map_header (enc_map_header (of_nat (length kvs)) @ r) = Some (length kvs, r)"
proof -
  define n :: u32 where "n = of_nat (length kvs)"
  have n: "unat n = length kvs"
    using assms by (simp add: n_def unat_of_nat)
  have w: "n \<le> 15 \<longleftrightarrow> length kvs \<le> 15"
    using n by (simp add: word_le_nat_alt)
  have "unat (ucast n :: u16) = length kvs"
    using n assms by (simp add: unat_u16_of_u32)
  moreover have "n \<le> 15 \<Longrightarrow> ucast (0x80 OR n) AND 0xf0 = (0x80 :: u8)"
    "n \<le> 15 \<Longrightarrow> unat (ucast (0x80 OR n) AND 0x0f :: u8) = length kvs"
    using fixmap_tag n by simp_all
  ultimately have "dec_map_header (enc_map_header n @ r) = Some (length kvs, r)"
    by (simp add: enc_map_header_def dec_map_header_def w del: unsigned_and_eq unsigned_or_eq)
  then show ?thesis by (simp add: n_def)
qed

lemma dec_str_enc: "str_ok s \<Longrightarrow> dec_str (enc_str s @ r) = Some (s, r)"
  by (simp add: enc_str_def str_ok_def dec_str_header unat_of_nat)

lemma dec_bin_enc: "length d \<le> 65535 \<Longrightarrow> dec_bin (enc_bin d @ r) = Some (d, r)"
  by (simp add: enc_bin_def dec_bin_header unat_of_nat)

text \<open>The first byte tells the three kinds of value apart.\<close>

lemma dec_uint_str: "dec_uint (enc_str s @ r) = None"
  using fixstr_tag(3,4) [of "of_nat (length s)"]
  by (simp add: dec_uint_def enc_str_def enc_str_header_def del: unsigned_or_eq)

lemma dec_uint_bin: "dec_uint (enc_bin d @ r) = None"
  by (simp add: dec_uint_def enc_bin_def enc_bin_header_def)

lemma dec_str_bin: "dec_str (enc_bin d @ r) = None"
  by (simp add: dec_str_def enc_bin_def enc_bin_header_def)

lemma dec_value_enc: "value_ok v \<Longrightarrow> dec_value (enc_value v @ r) = Some (v, r)"
  by (cases v)
    (simp_all add: dec_value_def dec_uint_enc dec_str_enc dec_bin_enc
      dec_uint_str dec_uint_bin dec_str_bin)

interpretation str_codec: codec enc_str dec_str str_ok
  by unfold_locales (rule dec_str_enc)

interpretation value_codec: codec enc_value dec_value value_ok
  by unfold_locales (rule dec_value_enc)

interpretation entry_codec: codec_pair enc_str dec_str str_ok enc_value dec_value value_ok
  by unfold_locales

lemma dec_map_enc:
  assumes "map_ok kvs"
  shows "dec_map (enc_map kvs @ r) = Some (kvs, r)"
  using assms entry_codec.both.dec_seq_enc [of kvs r]
  by (simp add: map_ok_def enc_map_def dec_map_def dec_map_header_enc)

interpretation map_codec: codec enc_map dec_map map_ok
  by unfold_locales (rule dec_map_enc)

end
