(* ===== verification/Lumbre_Msgpack.thy ===== *)
theory Lumbre_Msgpack
  imports Lumbre_Msgpack_Format
begin

text \<open>
  The packer of \<^verbatim>\<open>lumbre_msgpack.c\<close>: the output buffer as a record over the storage it
  points to, one definition per function with its space check and its stores in the code's order,
  and the contract of a packer. \<open>writes p bs\<close> says that \<open>p\<close> appends exactly \<open>bs\<close> when it
  fits, and otherwise returns -1 leaving a proper prefix of it and never touching a byte past the
  capacity. The locale \<open>packer\<close> states this for an operation that takes an argument.
\<close>

subsection \<open>The buffer\<close>

record lumbre_msgpack_buf =
  mb_buf :: bytes
  mb_capacity :: u64
  mb_pos :: u64

type_synonym packing = "lumbre_msgpack_buf \<Rightarrow> (int \<times> lumbre_msgpack_buf) option"

subsection \<open>Stores\<close>

text \<open>
  \<^verbatim>\<open>__builtin_bswap*\<close> reverses the bytes of its argument: the big-endian reading of the
  little-endian image. The result is then stored in native (little-endian) order.
\<close>

definition bswap16 :: "u16 \<Rightarrow> u16" where "bswap16 v = be_val (le16 v)"
definition bswap32 :: "u32 \<Rightarrow> u32" where "bswap32 v = be_val (le32 v)"
definition bswap64 :: "u64 \<Rightarrow> u64" where "bswap64 v = be_val (le64 v)"

definition lumbre_store16 :: "bytes \<Rightarrow> nat \<Rightarrow> u16 \<Rightarrow> bytes option" where
  "lumbre_store16 m dst val = mem_store m dst (le16 (bswap16 val))"

definition lumbre_store32 :: "bytes \<Rightarrow> nat \<Rightarrow> u32 \<Rightarrow> bytes option" where
  "lumbre_store32 m dst val = mem_store m dst (le32 (bswap32 val))"

definition lumbre_store64 :: "bytes \<Rightarrow> nat \<Rightarrow> u64 \<Rightarrow> bytes option" where
  "lumbre_store64 m dst val = mem_store m dst (le64 (bswap64 val))"

text \<open>
  \<^verbatim>\<open>LUMBRE_MSGPACK_CHECK_SPACE\<close> returns -1 from the function it stands in. \<open>put_byte\<close> is the
  statement \<^verbatim>\<open>buf->buf[buf->pos++] = x\<close>; the other three are a store at the current position
  followed by its advance.
\<close>

definition check_space :: "lumbre_msgpack_buf \<Rightarrow> u64 \<Rightarrow> packing \<Rightarrow> (int \<times> lumbre_msgpack_buf) option" where
  "check_space b n rest = (if mb_capacity b < mb_pos b + n then Some (-1, b) else rest b)"

definition put_byte :: "u8 \<Rightarrow> lumbre_msgpack_buf \<Rightarrow> lumbre_msgpack_buf option" where
  "put_byte x b = do {
     m \<leftarrow> mem_store (mb_buf b) (unat (mb_pos b)) [x];
     Some (b\<lparr>mb_buf := m, mb_pos := mb_pos b + 1\<rparr>) }"

definition put16 :: "u16 \<Rightarrow> lumbre_msgpack_buf \<Rightarrow> lumbre_msgpack_buf option" where
  "put16 v b = do {
     m \<leftarrow> lumbre_store16 (mb_buf b) (unat (mb_pos b)) v;
     Some (b\<lparr>mb_buf := m, mb_pos := mb_pos b + 2\<rparr>) }"

definition put32 :: "u32 \<Rightarrow> lumbre_msgpack_buf \<Rightarrow> lumbre_msgpack_buf option" where
  "put32 v b = do {
     m \<leftarrow> lumbre_store32 (mb_buf b) (unat (mb_pos b)) v;
     Some (b\<lparr>mb_buf := m, mb_pos := mb_pos b + 4\<rparr>) }"

definition put64 :: "u64 \<Rightarrow> lumbre_msgpack_buf \<Rightarrow> lumbre_msgpack_buf option" where
  "put64 v b = do {
     m \<leftarrow> lumbre_store64 (mb_buf b) (unat (mb_pos b)) v;
     Some (b\<lparr>mb_buf := m, mb_pos := mb_pos b + 8\<rparr>) }"

text \<open>
  The payload copy at the end of the string and binary packers: skipped for an empty payload and
  for a null pointer (\<^const>\<open>None\<close>); it reads \<open>len\<close> bytes of the source.
\<close>

definition copy_payload :: "bytes option \<Rightarrow> u32 \<Rightarrow> lumbre_msgpack_buf \<Rightarrow> lumbre_msgpack_buf option" where
  "copy_payload src len b =
     (case src of
        None \<Rightarrow> Some b
      | Some s \<Rightarrow>
          if 0 < len then do {
            bs \<leftarrow> mem_load s 0 (unat len);
            m \<leftarrow> mem_store (mb_buf b) (unat (mb_pos b)) bs;
            Some (b\<lparr>mb_buf := m, mb_pos := mb_pos b + ucast len\<rparr>) }
          else Some b)"

subsection \<open>The packer\<close>

definition lumbre_msgpack_reset :: "lumbre_msgpack_buf \<Rightarrow> lumbre_msgpack_buf" where
  "lumbre_msgpack_reset b = b\<lparr>mb_pos := 0\<rparr>"

definition lumbre_msgpack_pack_map :: "u32 \<Rightarrow> packing" where
  "lumbre_msgpack_pack_map count b =
     (if count \<le> 15 then
        check_space b 1 (\<lambda>b. do { b \<leftarrow> put_byte (ucast (0x80 OR count)) b; Some (0, b) })
      else
        check_space b 3 (\<lambda>b. do {
          b \<leftarrow> put_byte 0xde b; b \<leftarrow> put16 (ucast count) b; Some (0, b) }))"

definition lumbre_msgpack_pack_uint :: "u64 \<Rightarrow> packing" where
  "lumbre_msgpack_pack_uint val b =
     (if val < 128 then
        check_space b 1 (\<lambda>b. do { b \<leftarrow> put_byte (ucast val) b; Some (0, b) })
      else if val \<le> 0xFF then
        check_space b 2 (\<lambda>b. do {
          b \<leftarrow> put_byte 0xcc b; b \<leftarrow> put_byte (ucast val) b; Some (0, b) })
      else if val \<le> 0xFFFF then
        check_space b 3 (\<lambda>b. do {
          b \<leftarrow> put_byte 0xcd b; b \<leftarrow> put16 (ucast val) b; Some (0, b) })
      else if val \<le> 0xFFFFFFFF then
        check_space b 5 (\<lambda>b. do {
          b \<leftarrow> put_byte 0xce b; b \<leftarrow> put32 (ucast val) b; Some (0, b) })
      else
        check_space b 9 (\<lambda>b. do {
          b \<leftarrow> put_byte 0xcf b; b \<leftarrow> put64 val b; Some (0, b) }))"

text \<open>The size passed to the check is a 32-bit sum, widened afterwards, as in the code.\<close>

definition lumbre_msgpack_pack_str :: "bytes option \<Rightarrow> u32 \<Rightarrow> packing" where
  "lumbre_msgpack_pack_str str len b =
     (if len < 32 then
        check_space b (ucast (1 + len)) (\<lambda>b. do {
          b \<leftarrow> put_byte (ucast (0xa0 OR len)) b;
          b \<leftarrow> copy_payload str len b; Some (0, b) })
      else if len \<le> 0xFFFF then
        check_space b (ucast (3 + len)) (\<lambda>b. do {
          b \<leftarrow> put_byte 0xda b; b \<leftarrow> put16 (ucast len) b;
          b \<leftarrow> copy_payload str len b; Some (0, b) })
      else
        check_space b (ucast (5 + len)) (\<lambda>b. do {
          b \<leftarrow> put_byte 0xdb b; b \<leftarrow> put32 len b;
          b \<leftarrow> copy_payload str len b; Some (0, b) }))"

definition lumbre_msgpack_pack_bin :: "bytes option \<Rightarrow> u32 \<Rightarrow> packing" where
  "lumbre_msgpack_pack_bin data len b =
     (if len \<le> 0xFF then
        check_space b (ucast (2 + len)) (\<lambda>b. do {
          b \<leftarrow> put_byte 0xc4 b; b \<leftarrow> put_byte (ucast len) b;
          b \<leftarrow> copy_payload data len b; Some (0, b) })
      else if len \<le> 0xFFFF then
        check_space b (ucast (3 + len)) (\<lambda>b. do {
          b \<leftarrow> put_byte 0xc5 b; b \<leftarrow> put16 (ucast len) b;
          b \<leftarrow> copy_payload data len b; Some (0, b) })
      else Some (-1, b))"

definition lumbre_msgpack_pack_str_kv :: "bytes option \<Rightarrow> u32 \<Rightarrow> bytes option \<Rightarrow> u32 \<Rightarrow> packing" where
  "lumbre_msgpack_pack_str_kv key key_len val val_len b = do {
     (rc, b) \<leftarrow> lumbre_msgpack_pack_str key key_len b;
     if rc \<noteq> 0 then Some (rc, b) else lumbre_msgpack_pack_str val val_len b }"

definition lumbre_msgpack_pack_uint_kv :: "bytes option \<Rightarrow> u32 \<Rightarrow> u64 \<Rightarrow> packing" where
  "lumbre_msgpack_pack_uint_kv key key_len val b = do {
     (rc, b) \<leftarrow> lumbre_msgpack_pack_str key key_len b;
     if rc \<noteq> 0 then Some (rc, b) else lumbre_msgpack_pack_uint val b }"

definition lumbre_msgpack_pack_bin_kv :: "bytes option \<Rightarrow> u32 \<Rightarrow> bytes option \<Rightarrow> u32 \<Rightarrow> packing" where
  "lumbre_msgpack_pack_bin_kv key key_len data data_len b = do {
     (rc, b) \<leftarrow> lumbre_msgpack_pack_str key key_len b;
     if rc \<noteq> 0 then Some (rc, b) else lumbre_msgpack_pack_bin data data_len b }"

subsection \<open>Well-formed buffers, room, and the contract\<close>

definition mb_wf :: "lumbre_msgpack_buf \<Rightarrow> bool" where
  "mb_wf b \<longleftrightarrow> unat (mb_capacity b) \<le> length (mb_buf b) \<and> unat (mb_pos b) \<le> unat (mb_capacity b)
     \<and> unat (mb_capacity b) < 9223372036854775808"

definition fits :: "lumbre_msgpack_buf \<Rightarrow> bytes \<Rightarrow> bool" where
  "fits b bs \<longleftrightarrow> unat (mb_pos b) + length bs \<le> unat (mb_capacity b)"

definition mb_append :: "lumbre_msgpack_buf \<Rightarrow> bytes \<Rightarrow> lumbre_msgpack_buf" where
  "mb_append b bs =
     b\<lparr>mb_buf := overwrite (mb_buf b) (unat (mb_pos b)) bs, mb_pos := mb_pos b + of_nat (length bs)\<rparr>"

text \<open>The bytes written since the last reset.\<close>

definition written :: "lumbre_msgpack_buf \<Rightarrow> bytes" where
  "written b = take (unat (mb_pos b)) (mb_buf b)"

definition writes :: "packing \<Rightarrow> bytes \<Rightarrow> bool" where
  "writes p bs \<longleftrightarrow> (\<forall>b. mb_wf b \<longrightarrow>
     (if fits b bs then p b = Some (0, mb_append b bs)
      else \<exists>k < length bs. fits b (take k bs) \<and> p b = Some (-1, mb_append b (take k bs))))"

subsection \<open>The primitive steps meet the contract\<close>

lemma le_bswap: "le16 (bswap16 v) = be16 v" "le32 (bswap32 w) = be32 w" "le64 (bswap64 x) = be64 x"
proof -
  have *: "be_val bs = le_val (rev bs)" for bs :: bytes by (simp add: le_val_def)
  show "le16 (bswap16 v) = be16 v" "le32 (bswap32 w) = be32 w" "le64 (bswap64 x) = be64 x"
    by (simp_all add: bswap16_def bswap32_def bswap64_def * le_of_le_val be_rev_le)
qed

lemmas mb_defs = mb_wf_def fits_def mb_append_def

lemma mb_append_Nil [simp]: "mb_append b [] = b"
  by (simp add: mb_append_def)

lemma mb_append_pos:
  assumes "mb_wf b" and "fits b bs"
  shows "unat (mb_pos (mb_append b bs)) = unat (mb_pos b) + length bs"
proof -
  have "unat (of_nat (length bs) :: u64) = length bs"
    using assms by (simp add: mb_defs unat_of_nat)
  then show ?thesis
    using assms by (simp add: mb_defs unat_plus)
qed

lemma mb_append_capacity [simp]: "mb_capacity (mb_append b bs) = mb_capacity b"
  by (simp add: mb_append_def)

lemma mb_append_wf: "mb_wf b \<Longrightarrow> fits b bs \<Longrightarrow> mb_wf (mb_append b bs)"
  by (frule (1) mb_append_pos) (simp add: mb_defs)

lemma fits_append:
  "mb_wf b \<Longrightarrow> fits b xs \<Longrightarrow> fits (mb_append b xs) ys \<longleftrightarrow> fits b (xs @ ys)"
  by (simp add: fits_def mb_append_pos add.assoc)

lemma fits_prefix: "fits b (xs @ ys) \<Longrightarrow> fits b xs"
  by (simp add: fits_def)

lemma mb_append_append:
  assumes "mb_wf b" and "fits b (xs @ ys)"
  shows "mb_append (mb_append b xs) ys = mb_append b (xs @ ys)"
proof -
  have "unat (mb_pos b + of_nat (length xs)) = unat (mb_pos b) + length xs"
    using mb_append_pos [OF assms(1) fits_prefix [OF assms(2)]] by (simp add: mb_append_def)
  then show ?thesis
    using assms by (simp add: mb_defs overwrite_append add.assoc)
qed

lemma written_append:
  "mb_wf b \<Longrightarrow> fits b bs \<Longrightarrow> written (mb_append b bs) = written b @ bs"
  using mb_append_pos [of b bs] by (simp add: written_def mb_append_def take_overwrite mb_wf_def fits_def)

text \<open>Storing through the buffer appends, as long as there is room.\<close>

lemma put_fits:
  assumes "mb_wf b"
  shows "fits b [x] \<Longrightarrow> put_byte x b = Some (mb_append b [x])"
    and "fits b (be16 v) \<Longrightarrow> put16 v b = Some (mb_append b (be16 v))"
    and "fits b (be32 w) \<Longrightarrow> put32 w b = Some (mb_append b (be32 w))"
    and "fits b (be64 y) \<Longrightarrow> put64 y b = Some (mb_append b (be64 y))"
  using assms
  by (simp_all add: put_byte_def put16_def put32_def put64_def lumbre_store16_def
      lumbre_store32_def lumbre_store64_def le_bswap mem mb_defs)

definition payload :: "bytes option \<Rightarrow> u32 \<Rightarrow> bytes" where
  "payload src len = (case src of None \<Rightarrow> [] | Some s \<Rightarrow> take (unat len) s)"

definition readable :: "bytes option \<Rightarrow> u32 \<Rightarrow> bool" where
  "readable src len \<longleftrightarrow> (case src of None \<Rightarrow> len = 0 | Some s \<Rightarrow> unat len \<le> length s)"

lemma length_payload: "readable src len \<Longrightarrow> length (payload src len) = unat len"
  by (auto simp: readable_def payload_def split: option.splits)

lemma copy_payload_fits:
  assumes "mb_wf b" and "readable src len" and "fits b (payload src len)"
  shows "copy_payload src len b = Some (mb_append b (payload src len))"
proof (cases src)
  case None
  then show ?thesis by (simp add: copy_payload_def payload_def)
next
  case (Some s)
  have "unat len \<le> length s" using assms(2) Some by (simp add: readable_def)
  moreover have "(of_nat (unat len) :: u64) = ucast len" by simp
  ultimately show ?thesis
    using assms Some
    by (cases "len = 0")
      (simp_all add: copy_payload_def payload_def mem mb_defs word_neq_0_conv)
qed

text \<open>
  A step \<open>emits\<close> bytes when it appends them given room; a continuation \<open>finishes\<close> with bytes
  when it appends them and returns 0. A checked continuation meets the packer contract.
\<close>

definition emits :: "(lumbre_msgpack_buf \<Rightarrow> lumbre_msgpack_buf option) \<Rightarrow> bytes \<Rightarrow> bool" where
  "emits f bs \<longleftrightarrow> (\<forall>b. mb_wf b \<longrightarrow> fits b bs \<longrightarrow> f b = Some (mb_append b bs))"

definition finishes :: "packing \<Rightarrow> bytes \<Rightarrow> bool" where
  "finishes p bs \<longleftrightarrow> (\<forall>b. mb_wf b \<longrightarrow> fits b bs \<longrightarrow> p b = Some (0, mb_append b bs))"

lemma emits_put [intro]:
  "emits (put_byte x) [x]" "emits (put16 v) (be16 v)"
  "emits (put32 w) (be32 w)" "emits (put64 y) (be64 y)"
  by (simp_all add: emits_def put_fits)

lemma emits_payload [intro]: "readable src len \<Longrightarrow> emits (copy_payload src len) (payload src len)"
  by (simp add: emits_def copy_payload_fits)

lemma finishes_return [intro]: "finishes (\<lambda>b. Some (0, b)) []"
  by (simp add: finishes_def)

lemma finishes_bind:
  assumes "emits f xs" and "finishes g ys"
  shows "finishes (\<lambda>b. Option.bind (f b) g) (xs @ ys)"
  unfolding finishes_def
proof (intro allI impI)
  fix b assume b: "mb_wf b" "fits b (xs @ ys)"
  then have xs: "fits b xs" by (rule_tac fits_prefix)
  with b assms(1) have "f b = Some (mb_append b xs)" by (simp add: emits_def)
  moreover have "g (mb_append b xs) = Some (0, mb_append b (xs @ ys))"
    using assms(2) b xs by (simp add: finishes_def mb_append_wf fits_append mb_append_append)
  ultimately show "Option.bind (f b) g = Some (0, mb_append b (xs @ ys))" by simp
qed

lemma finishes_byte:
  "finishes g ys \<Longrightarrow> finishes (\<lambda>b. Option.bind (put_byte x b) g) (x # ys)"
  using finishes_bind [OF emits_put(1)] by fastforce

lemma finishes_last: "emits f xs \<Longrightarrow> finishes (\<lambda>b. Option.bind (f b) (\<lambda>b. Some (0, b))) xs"
  using finishes_bind [OF _ finishes_return] by fastforce

lemmas finishing = finishes_byte finishes_last finishes_return emits_put

lemma check_space_room:
  assumes "mb_wf b" and "unat n < 9223372036854775808"
  shows "check_space b n p =
    (if unat (mb_pos b) + unat n \<le> unat (mb_capacity b) then p b else Some (-1, b))"
  using assms by (auto simp: check_space_def mb_wf_def word_less_nat_alt unat_plus)

lemma writes_checked:
  assumes "finishes p bs" and "unat n = length bs" and "0 < length bs"
    and "length bs < 9223372036854775808"
  shows "writes (\<lambda>b. check_space b n p) bs"
  unfolding writes_def
proof (intro allI impI)
  fix b assume wf: "mb_wf b"
  have "fits b (take 0 bs)" using wf by (simp add: mb_defs)
  then show "if fits b bs then check_space b n p = Some (0, mb_append b bs)
    else \<exists>k<length bs. fits b (take k bs) \<and> check_space b n p = Some (-1, mb_append b (take k bs))"
    using assms wf by (auto simp: check_space_room finishes_def fits_def intro!: exI [of _ 0])
qed

lemma writesD: "writes p bs \<Longrightarrow> mb_wf b \<Longrightarrow> fits b bs \<Longrightarrow> p b = Some (0, mb_append b bs)"
  by (simp add: writes_def)

lemma writes_fullE:
  assumes "writes p bs" and "mb_wf b" and "\<not> fits b bs"
  obtains k where "k < length bs" "fits b (take k bs)" "p b = Some (-1, mb_append b (take k bs))"
  using assms unfolding writes_def by metis

lemma writes_if:
  "(c \<Longrightarrow> writes p xs) \<Longrightarrow> (\<not> c \<Longrightarrow> writes q ys) \<Longrightarrow>
   writes (\<lambda>b. if c then p b else q b) (if c then xs else ys)"
  by simp

lemma writes_pack_uint: "writes (lumbre_msgpack_pack_uint v) (enc_uint v)"
  unfolding lumbre_msgpack_pack_uint_def [abs_def] enc_uint_def
  by (intro writes_if writes_checked finishing) simp_all

lemma writes_pack_map: "writes (lumbre_msgpack_pack_map count) (enc_map_header count)"
  unfolding lumbre_msgpack_pack_map_def [abs_def] enc_map_header_def
  by (intro writes_if writes_checked finishing) simp_all

definition str_image :: "bytes option \<Rightarrow> u32 \<Rightarrow> bytes" where
  "str_image str len = enc_str_header len @ payload str len"

definition bin_image :: "bytes option \<Rightarrow> u32 \<Rightarrow> bytes" where
  "bin_image data len = enc_bin_header len @ payload data len"

lemma unat_size:
  "unat len + k < 4294967296 \<Longrightarrow> unat (ucast (of_nat k + len :: u32) :: u64) = k + unat len"
  by (simp add: width unat_of_nat unat_word_ariths)

lemma str_image_if:
  "str_image str len =
     (if len < 32 then ucast (0xa0 OR len) # payload str len
      else if len \<le> 0xFFFF then 0xda # be16 (ucast len) @ payload str len
      else 0xdb # be32 len @ payload str len)"
  by (simp add: str_image_def enc_str_header_def)

lemma writes_pack_str:
  assumes "readable str len" and "unat len < 4294967291"
  shows "writes (lumbre_msgpack_pack_str str len) (str_image str len)"
  unfolding lumbre_msgpack_pack_str_def [abs_def] str_image_if
  using assms unat_size [of len 1] unat_size [of len 3] unat_size [of len 5]
  by (intro writes_if writes_checked finishing finishes_bind emits_payload)
    (simp_all add: length_payload)

lemma bin_image_if:
  "bin_image data len =
     (if len \<le> 0xFF then 0xc4 # ucast len # payload data len
      else 0xc5 # be16 (ucast len) @ payload data len)"
  by (simp add: bin_image_def enc_bin_header_def)

lemma writes_pack_bin:
  assumes "readable data len" and "unat len \<le> 65535"
  shows "writes (lumbre_msgpack_pack_bin data len) (bin_image data len)"
proof -
  have "len \<le> 0xFFFF" using assms(2) by (simp add: word_le_nat_alt)
  then show ?thesis
    unfolding lumbre_msgpack_pack_bin_def [abs_def] bin_image_if
    using assms unat_size [of len 2] unat_size [of len 3]
    by (simp only: if_True, intro writes_if writes_checked finishing finishes_bind emits_payload)
      (simp_all add: length_payload)
qed

lemma pack_bin_too_long:
  "65535 < unat len \<Longrightarrow> lumbre_msgpack_pack_bin data len b = Some (-1, b)"
  by (simp add: lumbre_msgpack_pack_bin_def word_le_nat_alt)

subsection \<open>Sequencing with early return\<close>

lemma writes_seq:
  assumes p: "writes p xs" and q: "writes q ys"
    and r: "\<And>b. r b = do { (rc, b) \<leftarrow> p b; if rc \<noteq> 0 then Some (rc, b) else q b }"
  shows "writes r (xs @ ys)"
  unfolding writes_def
proof (intro allI impI)
  fix b assume b: "mb_wf b"
  show "if fits b (xs @ ys) then r b = Some (0, mb_append b (xs @ ys))
    else \<exists>k < length (xs @ ys). fits b (take k (xs @ ys)) \<and>
      r b = Some (-1, mb_append b (take k (xs @ ys)))"
  proof (cases "fits b xs")
    case False
    with p b obtain k where "k < length xs" "fits b (take k xs)"
      "p b = Some (-1, mb_append b (take k xs))"
      by (rule writes_fullE)
    with False show ?thesis by (auto simp: r dest: fits_prefix intro!: exI [of _ k])
  next
    case True
    then have pb: "p b = Some (0, mb_append b xs)" and wf: "mb_wf (mb_append b xs)"
      using p b by (simp_all add: writesD mb_append_wf)
    show ?thesis
    proof (cases "fits b (xs @ ys)")
      case True
      with pb wf q b \<open>fits b xs\<close> show ?thesis
        by (simp add: r writesD fits_append mb_append_append)
    next
      case no_room: False
      then have "\<not> fits (mb_append b xs) ys" using b True by (simp add: fits_append)
      with q wf obtain k where k: "k < length ys" "fits (mb_append b xs) (take k ys)"
        "q (mb_append b xs) = Some (-1, mb_append (mb_append b xs) (take k ys))"
        by (rule writes_fullE)
      then show ?thesis
        using no_room pb b True by (auto simp: r fits_append mb_append_append intro!: exI [of _ "length xs + k"])
    qed
  qed
qed

lemma writes_str_kv:
  assumes "readable key klen" "unat klen < 4294967291" "readable val vlen" "unat vlen < 4294967291"
  shows "writes (lumbre_msgpack_pack_str_kv key klen val vlen) (str_image key klen @ str_image val vlen)"
  using assms by (intro writes_seq [OF writes_pack_str writes_pack_str])
    (simp_all add: lumbre_msgpack_pack_str_kv_def)

lemma writes_uint_kv:
  assumes "readable key klen" "unat klen < 4294967291"
  shows "writes (lumbre_msgpack_pack_uint_kv key klen v) (str_image key klen @ enc_uint v)"
  using assms by (intro writes_seq [OF writes_pack_str writes_pack_uint])
    (simp_all add: lumbre_msgpack_pack_uint_kv_def)

lemma writes_bin_kv:
  assumes "readable key klen" "unat klen < 4294967291" "readable data dlen" "unat dlen \<le> 65535"
  shows "writes (lumbre_msgpack_pack_bin_kv key klen data dlen) (str_image key klen @ bin_image data dlen)"
  using assms by (intro writes_seq [OF writes_pack_str writes_pack_bin])
    (simp_all add: lumbre_msgpack_pack_bin_kv_def)

subsection \<open>The packer contract as an interface\<close>

lemma writes_cases:
  assumes "writes p bs" and "mb_wf b"
  obtains rc k where "p b = Some (rc, mb_append b (take k bs))" "fits b (take k bs)"
    "rc = 0 \<and> k = length bs \<and> fits b bs \<or> rc = -1 \<and> k < length bs \<and> \<not> fits b bs"
proof (cases "fits b bs")
  case True
  with assms show ?thesis by (intro that [of 0 "length bs"]) (simp_all add: writesD)
next
  case False
  with assms show ?thesis by (auto elim!: writes_fullE intro: that)
qed

text \<open>What an append leaves alone: the earlier output and everything past the capacity.\<close>

definition extends :: "lumbre_msgpack_buf \<Rightarrow> lumbre_msgpack_buf \<Rightarrow> bool" where
  "extends b b' \<longleftrightarrow> mb_wf b' \<and> mb_capacity b' = mb_capacity b \<and> length (mb_buf b') = length (mb_buf b)
     \<and> take (length (written b)) (written b') = written b
     \<and> drop (unat (mb_capacity b)) (mb_buf b') = drop (unat (mb_capacity b)) (mb_buf b)"

lemma length_written: "mb_wf b \<Longrightarrow> length (written b) = unat (mb_pos b)"
  by (simp add: written_def mb_wf_def)

lemma extends_append:
  assumes "mb_wf b" and "fits b bs"
  shows "extends b (mb_append b bs)"
proof -
  have "drop (unat (mb_capacity b)) (overwrite (mb_buf b) (unat (mb_pos b)) bs) =
    drop (unat (mb_capacity b)) (mb_buf b)"
    using assms by (intro nth_equalityI) (auto simp: overwrite_nth mb_defs)
  then show ?thesis
    using assms mb_append_wf [OF assms] written_append [OF assms]
    by (auto simp: extends_def length_written mb_append_def mb_wf_def fits_def)
qed

locale packer =
  fixes pack :: "'a \<Rightarrow> packing"
    and enc :: "'a \<Rightarrow> bytes"
    and ok :: "'a \<Rightarrow> bool"
  assumes pack_writes: "ok x \<Longrightarrow> writes (pack x) (enc x)"
begin

lemma pack_total:
  assumes "ok x" and "mb_wf b"
  shows "\<exists>rc b'. pack x b = Some (rc, b') \<and> rc \<in> {0, -1} \<and> extends b b'"
  using pack_writes [OF assms(1)] assms(2)
  by (auto elim!: writes_cases intro: extends_append)

lemma pack_success:
  assumes "ok x" and "mb_wf b" and "pack x b = Some (0, b')"
  shows "written b' = written b @ enc x \<and> length (written b) + length (enc x) \<le> unat (mb_capacity b)"
  using pack_writes [OF assms(1)] assms(2)
  by (rule writes_cases) (use assms(2,3) in \<open>auto simp: written_append length_written fits_def\<close>)

lemma pack_failure:
  assumes "ok x" and "mb_wf b" and "pack x b = Some (-1, b')"
  shows "unat (mb_capacity b) < length (written b) + length (enc x) \<and>
    (\<exists>k < length (enc x). written b' = written b @ take k (enc x))"
  using pack_writes [OF assms(1)] assms(2)
  by (rule writes_cases) (use assms(2,3) in \<open>auto simp: written_append length_written fits_def\<close>)

end

text \<open>
  An operation with a decoder for its image: what a successful call wrote reads back as its
  argument, whatever follows.
\<close>

locale readable_packer = packer pack enc ok + codec enc dec ok
  for pack :: "'a \<Rightarrow> packing" and enc :: "'a \<Rightarrow> bytes"
    and dec :: "bytes \<Rightarrow> ('a \<times> bytes) option" and ok :: "'a \<Rightarrow> bool"
begin

lemma pack_reads_back:
  assumes "ok x" and "mb_wf b" and "pack x b = Some (0, b')"
  shows "dec (drop (length (written b)) (written b') @ r) = Some (x, r)"
  using pack_success [OF assms] assms(1) by (simp add: dec_enc)

end

interpretation uint_packer: readable_packer lumbre_msgpack_pack_uint enc_uint dec_uint "\<lambda>_. True"
  by unfold_locales (rule writes_pack_uint)

text \<open>A string or binary argument is passed as a pointer and a 32-bit length.\<close>

definition pack_bytes :: "bytes \<Rightarrow> packing" where
  "pack_bytes s = lumbre_msgpack_pack_str (Some s) (of_nat (length s))"

definition pack_binary :: "bytes \<Rightarrow> packing" where
  "pack_binary d = lumbre_msgpack_pack_bin (Some d) (of_nat (length d))"

lemma str_image_bytes: "str_ok s \<Longrightarrow> str_image (Some s) (of_nat (length s)) = enc_str s"
  by (simp add: str_image_def payload_def enc_str_def str_ok_def unat_of_nat)

lemma bin_image_bytes: "length d \<le> 65535 \<Longrightarrow> bin_image (Some d) (of_nat (length d)) = enc_bin d"
  by (simp add: bin_image_def payload_def enc_bin_def unat_of_nat)

interpretation str_packer: readable_packer pack_bytes enc_str dec_str str_ok
proof
  fix s assume s: "str_ok s"
  then have "writes (pack_bytes s) (str_image (Some s) (of_nat (length s)))"
    unfolding pack_bytes_def
    by (intro writes_pack_str) (simp_all add: readable_def str_ok_def unat_of_nat)
  then show "writes (pack_bytes s) (enc_str s)"
    using s by (simp add: str_image_bytes)
qed

interpretation bin_packer: readable_packer pack_binary enc_bin dec_bin "\<lambda>d. length d \<le> 65535"
proof
  fix d :: bytes and r
  assume d: "length d \<le> 65535"
  then have "writes (pack_binary d) (bin_image (Some d) (of_nat (length d)))"
    unfolding pack_binary_def
    by (intro writes_pack_bin) (simp_all add: readable_def unat_of_nat)
  then show "writes (pack_binary d) (enc_bin d)"
    using d by (simp add: bin_image_bytes)
  show "dec_bin (enc_bin d @ r) = Some (d, r)"
    using d by (rule dec_bin_enc)
qed

subsection \<open>Properties\<close>

definition sample_buf :: lumbre_msgpack_buf where
  "sample_buf = \<lparr>mb_buf = replicate 16 0, mb_capacity = 16, mb_pos = 0\<rparr>"

lemma sample_buf_wf: "mb_wf sample_buf"
  by (simp add: sample_buf_def mb_wf_def)

text \<open>
  C32: On every well-formed buffer \<^verbatim>\<open>lumbre_msgpack_pack_uint\<close> returns 0 or -1 without an
  access outside the buffer, keeps the earlier output and every byte past the capacity, and when
  it returns 0 the bytes it added decode to exactly the 64-bit value it was given; it returns -1
  only when the encoding does not fit.
\<close>

theorem pack_uint_roundtrip:
  assumes "mb_wf b"
  shows "\<exists>rc b'. lumbre_msgpack_pack_uint v b = Some (rc, b') \<and> extends b b' \<and>
    (rc = 0 \<and> dec_uint (drop (length (written b)) (written b') @ r) = Some (v, r) \<or>
     rc = -1 \<and> unat (mb_capacity b) < length (written b) + length (enc_uint v))"
  using uint_packer.pack_total [OF _ assms, of v] uint_packer.pack_reads_back [OF _ assms, of v _ r]
    uint_packer.pack_failure [OF _ assms, of v]
  by fastforce

theorem pack_uint_roundtrip_witness:
  "mb_wf sample_buf \<and> (\<exists>rc b'. lumbre_msgpack_pack_uint 1000 sample_buf = Some (rc, b') \<and>
    extends sample_buf b' \<and>
    (rc = 0 \<and> dec_uint (drop (length (written sample_buf)) (written b') @ []) = Some (1000, []) \<or>
     rc = -1 \<and> unat (mb_capacity sample_buf) < length (written sample_buf) + length (enc_uint 1000)))"
  using sample_buf_wf pack_uint_roundtrip [OF sample_buf_wf, of 1000 "[]"] by blast

text \<open>
  C39: \<^verbatim>\<open>lumbre_msgpack_pack_str\<close> with a readable string shorter than 2^32 - 5 bytes never
  faults and keeps the earlier output; it returns 0 exactly when header and payload fit, and then
  a reader gets the string back. On overflow it has written nothing but a proper prefix of the
  encoding.
\<close>

theorem pack_str_correct:
  assumes "mb_wf b" and "str_ok s"
  shows "\<exists>rc b'. lumbre_msgpack_pack_str (Some s) (of_nat (length s)) b = Some (rc, b') \<and>
    extends b b' \<and>
    (if length (written b) + length (enc_str s) \<le> unat (mb_capacity b)
     then rc = 0 \<and> dec_str (drop (length (written b)) (written b') @ r) = Some (s, r)
     else rc = -1 \<and> (\<exists>k < length (enc_str s). written b' = written b @ take k (enc_str s)))"
proof -
  obtain rc b' where *: "pack_bytes s b = Some (rc, b')" "rc = 0 \<or> rc = -1" "extends b b'"
    using str_packer.pack_total [OF assms(2,1)] by auto
  then show ?thesis
    using str_packer.pack_reads_back [OF assms(2,1), of b' r]
      str_packer.pack_success [OF assms(2,1), of b'] str_packer.pack_failure [OF assms(2,1), of b']
    by (auto simp: pack_bytes_def)
qed

theorem pack_str_correct_witness:
  "mb_wf sample_buf \<and> str_ok (c_str ''lumbre'') \<and>
   (\<exists>rc b'. lumbre_msgpack_pack_str (Some (c_str ''lumbre'')) (of_nat (length (c_str ''lumbre''))) sample_buf
      = Some (rc, b') \<and> extends sample_buf b' \<and>
    (if length (written sample_buf) + length (enc_str (c_str ''lumbre'')) \<le> unat (mb_capacity sample_buf)
     then rc = 0 \<and> dec_str (drop (length (written sample_buf)) (written b') @ [7]) = Some (c_str ''lumbre'', [7])
     else rc = -1 \<and> (\<exists>k < length (enc_str (c_str ''lumbre'')).
        written b' = written sample_buf @ take k (enc_str (c_str ''lumbre'')))))"
proof -
  have s: "str_ok (c_str ''lumbre'')" by (simp add: str_ok_def)
  show ?thesis using sample_buf_wf s pack_str_correct [OF sample_buf_wf s, of "[7]"] by blast
qed

text \<open>
  C40: The space check of \<^verbatim>\<open>lumbre_msgpack_pack_str\<close> is computed in 32 bits and wraps for
  lengths of 2^32 - 5 and more: with nine free bytes the check passes and the copy runs past the
  end of the storage.
\<close>

theorem pack_str_size_wraps:
  assumes "mb_wf b" and "unat (mb_pos b) + 9 \<le> unat (mb_capacity b)"
    and "length (mb_buf b) < 4294967296"
    and "4294967291 \<le> unat len" and "unat len \<le> length s"
  shows "lumbre_msgpack_pack_str (Some s) len b = None"
proof -
  have big: "\<not> len < 32" "\<not> len \<le> 0xFFFF" "0 < len"
    using assms(4) by (auto simp: word_less_nat_alt word_le_nat_alt)
  have "unat (5 + len) = unat len - 4294967291"
    using assms(4) unat_u32_lt [of len] by (simp add: unat_word_ariths mod_if)
  then have "unat (ucast (5 + len) :: u64) \<le> 4"
    using unat_u32_lt [of len] by (simp add: width)
  then have "check_space b (ucast (5 + len)) p = p b" for p
    using assms(1,2) by (simp add: check_space_room)
  moreover have "fits b [0xdb]" and 5: "fits b ([0xdb] @ be32 len)"
    using assms(2) by (simp_all add: fits_def)
  then have "put_byte 0xdb b = Some (mb_append b [0xdb])"
    and "put32 len (mb_append b [0xdb]) = Some (mb_append b ([0xdb] @ be32 len))"
    using assms(1) by (simp_all add: put_fits mb_append_wf fits_append mb_append_append)
  moreover have "copy_payload (Some s) len (mb_append b ([0xdb] @ be32 len)) = None"
    using assms mb_append_pos [OF assms(1) 5] big
    by (simp add: copy_payload_def mem mb_append_def mb_wf_def)
  ultimately show ?thesis
    using big by (simp add: lumbre_msgpack_pack_str_def)
qed

theorem pack_str_size_wraps_witness:
  "lumbre_msgpack_pack_str (Some (replicate 4294967295 65)) 4294967295 sample_buf = None"
  by (rule pack_str_size_wraps [OF sample_buf_wf]) (simp_all add: sample_buf_def)

end
