(* ===== verification/Lumbre_Probing.thy ===== *)
theory Lumbre_Probing
  imports Lumbre_Prelude
begin

text \<open>
  Open addressing with linear probing, independent of what is stored: a table is a list of slots,
  an entry starts its probe at the home of its key, and a stored entry is reachable from there
  over occupied slots only. The locale \<open>open_table\<close> gives what insertion and lookup need; it is
  interpreted on the whitelist's entries.
\<close>

subsection \<open>Probe sequences\<close>

text \<open>The first \<open>d\<close> slots of the probe sequence from \<open>h\<close> are occupied.\<close>

definition chain :: "('e \<Rightarrow> bool) \<Rightarrow> 'e list \<Rightarrow> nat \<Rightarrow> nat \<Rightarrow> bool" where
  "chain occ t h d \<longleftrightarrow> (\<forall>j < d. occ (t ! ((h + j) mod length t)))"

definition stored :: "('e \<Rightarrow> bool) \<Rightarrow> 'e list \<Rightarrow> nat \<Rightarrow> 'e \<Rightarrow> bool" where
  "stored occ t h e \<longleftrightarrow> (\<exists>d < length t. chain occ t h d \<and> t ! ((h + d) mod length t) = e)"

text \<open>The table holds exactly the entries of a list.\<close>

definition table_of :: "('e \<Rightarrow> bool) \<Rightarrow> ('e \<Rightarrow> nat) \<Rightarrow> 'e list \<Rightarrow> 'e list \<Rightarrow> bool" where
  "table_of occ home t es \<longleftrightarrow>
     (\<forall>e \<in> set es. occ e \<and> stored occ t (home e) e) \<and>
     (\<forall>i < length t. occ (t ! i) \<longrightarrow> t ! i \<in> set es) \<and>
     card {i. i < length t \<and> occ (t ! i)} \<le> length es"

lemma chain_0 [simp]: "chain occ t h 0"
  by (simp add: chain_def)

lemma chain_Suc: "chain occ t h (Suc d) \<longleftrightarrow> occ (t ! (h mod length t)) \<and> chain occ t (Suc h) d"
  by (auto simp: chain_def less_Suc_eq_0_disj)

lemma chain_mod: "chain occ t (h mod length t) d \<longleftrightarrow> chain occ t h d"
  by (simp add: chain_def mod_simps)

text \<open>Every slot is on every probe sequence.\<close>

lemma probe_reaches:
  assumes "i < (n :: nat)"
  shows "\<exists>d < n. (h + d) mod n = i"
proof -
  have h: "h mod n < n" using assms by simp
  show ?thesis
  proof (cases "h mod n \<le> i")
    case True
    then have "(h mod n + (i - h mod n)) mod n = i" using assms by simp
    then show ?thesis using assms by (intro exI [of _ "i - h mod n"]) (simp add: mod_add_left_eq)
  next
    case False
    then have "h mod n + (n - h mod n + i) = n + i" using h by simp
    then have "(h mod n + (n - h mod n + i)) mod n = i" using assms by simp
    then have "(h + (n - h mod n + i)) mod n = i" by (simp only: mod_add_left_eq)
    then show ?thesis using False h by (intro exI [of _ "n - h mod n + i"]) auto
  qed
qed

locale open_table =
  fixes occ :: "'e \<Rightarrow> bool"
    and key :: "'e \<Rightarrow> 'k"
    and home :: "'k \<Rightarrow> nat"
    and slots :: nat
  assumes some_slots: "0 < slots"
begin

lemma free_slot:
  assumes "table_of occ (\<lambda>e. home (key e)) t es" and "length t = slots" and "length es < slots"
  shows "\<exists>d < slots. chain occ t h d \<and> \<not> occ (t ! ((h + d) mod slots))"
proof -
  have "{i. i < slots \<and> occ (t ! i)} \<noteq> {i. i < slots}"
  proof
    assume "{i. i < slots \<and> occ (t ! i)} = {i. i < slots}"
    then have "card {i. i < length t \<and> occ (t ! i)} = slots" using assms(2) by simp
    with assms(1,3) show False by (simp add: table_of_def)
  qed
  then obtain i where i: "i < slots" "\<not> occ (t ! i)" by blast
  then obtain d0 where "d0 < slots" "\<not> occ (t ! ((h + d0) mod slots))"
    using probe_reaches [of i slots h] by auto
  then have least: "\<exists>d. \<not> occ (t ! ((h + d) mod slots))" by blast
  define d where "d = (LEAST d. \<not> occ (t ! ((h + d) mod slots)))"
  have "\<not> occ (t ! ((h + d) mod slots))" unfolding d_def using least by (rule LeastI_ex)
  moreover have "chain occ t h d"
    unfolding chain_def d_def using not_less_Least assms(2) by blast
  moreover have "d \<le> d0"
    unfolding d_def using \<open>\<not> occ (t ! ((h + d0) mod slots))\<close> by (rule Least_le)
  ultimately show ?thesis using \<open>d0 < slots\<close> by (intro exI [of _ d]) simp
qed

lemma insert_entry:
  assumes table: "table_of occ (\<lambda>e. home (key e)) t es" and len: "length t = slots"
    and d: "d < slots" "chain occ t (home (key e)) d"
    and free: "\<not> occ (t ! ((home (key e) + d) mod slots))" and e: "occ e"
  shows "table_of occ (\<lambda>e. home (key e)) (t[(home (key e) + d) mod slots := e]) (es @ [e])"
proof -
  define s where "s = (home (key e) + d) mod slots"
  define t' where "t' = t[s := e]"
  have s: "s < slots" "\<not> occ (t ! s)" and t': "length t' = slots"
    using some_slots free len by (simp_all add: s_def t'_def)
  have slot: "t' ! i = (if i = s then e else t ! i)" if "i < slots" for i
    using that len by (simp add: t'_def nth_list_update)
  have chain': "chain occ t' h j" if "chain occ t h j" for h j
    using that some_slots slot e len t' by (auto simp: chain_def)
  have "stored occ t' (home (key x)) x" if x: "x \<in> set es" for x
  proof -
    obtain j where j: "j < slots" "chain occ t (home (key x)) j" "t ! ((home (key x) + j) mod slots) = x"
      using x table len by (auto simp: table_of_def stored_def)
    moreover have "occ x" using x table by (simp add: table_of_def)
    then have "(home (key x) + j) mod slots \<noteq> s" using j s by auto
    ultimately show ?thesis
      using chain' some_slots slot t' by (auto simp: stored_def intro!: exI [of _ j])
  qed
  moreover have "stored occ t' (home (key e)) e"
    using d chain' s slot t' by (auto simp: stored_def s_def intro!: exI [of _ d])
  moreover have "{i. i < slots \<and> occ (t' ! i)} \<subseteq> insert s {i. i < slots \<and> occ (t ! i)}"
    using slot by auto
  then have "card {i. i < slots \<and> occ (t' ! i)} \<le> card (insert s {i. i < slots \<and> occ (t ! i)})"
    by (intro card_mono) simp_all
  then have "card {i. i < slots \<and> occ (t' ! i)} \<le> Suc (length es)"
    using table len s(2) by (simp add: table_of_def)
  moreover have "\<forall>i < slots. occ (t' ! i) \<longrightarrow> t' ! i \<in> set (es @ [e])"
    using table len slot by (auto simp: table_of_def)
  ultimately have "table_of occ (\<lambda>e. home (key e)) t' (es @ [e])"
    using table e t' by (auto simp: table_of_def)
  then show ?thesis by (simp add: t'_def s_def)
qed

text \<open>
  A lookup walks over occupied slots with other keys until it meets the key, or a free slot when
  the key is not stored.
\<close>

lemma lookup_stops:
  assumes table: "table_of occ (\<lambda>e. home (key e)) t es" and len: "length t = slots"
    and room: "length es < slots"
  shows "\<exists>d < slots. chain occ t (home k) d \<and>
    (\<forall>j < d. key (t ! ((home k + j) mod slots)) \<noteq> k) \<and>
    (let e = t ! ((home k + d) mod slots)
     in e \<in> set es \<and> key e = k \<and> occ e \<or> \<not> occ e \<and> k \<notin> key ` set es)"
proof -
  define stops where "stops j \<longleftrightarrow>
    \<not> occ (t ! ((home k + j) mod slots)) \<or> key (t ! ((home k + j) mod slots)) = k" for j
  obtain d0 where d0: "d0 < slots" "\<not> occ (t ! ((home k + d0) mod slots))"
    using free_slot [OF table len room] by blast
  then have ex: "\<exists>j. stops j" by (auto simp: stops_def)
  define d where "d = (LEAST j. stops j)"
  have at: "stops d" unfolding d_def using ex by (rule LeastI_ex)
  have before: "\<not> stops j" if "j < d" for j
    using that not_less_Least unfolding d_def by blast
  have "d \<le> d0" unfolding d_def using d0 by (intro Least_le) (simp add: stops_def)
  then have "d < slots" using d0(1) by simp
  moreover have "chain occ t (home k) d" using before len by (auto simp: chain_def stops_def)
  moreover have "\<forall>j < d. key (t ! ((home k + j) mod slots)) \<noteq> k" using before by (auto simp: stops_def)
  moreover have "k \<notin> key ` set es" if free: "\<not> occ (t ! ((home k + d) mod slots))"
  proof
    assume "k \<in> key ` set es"
    then obtain x where x: "x \<in> set es" "key x = k" by blast
    then obtain j where j: "chain occ t (home k) j" "t ! ((home k + j) mod slots) = x"
      using table len by (auto simp: table_of_def stored_def)
    have "occ x" using x table by (simp add: table_of_def)
    have "\<not> d < j" using j(1) free len by (auto simp: chain_def)
    moreover have "\<not> j < d" using before [of j] j(2) x(2) by (auto simp: stops_def)
    ultimately have "j = d" by simp
    with j(2) free \<open>occ x\<close> show False by simp
  qed
  moreover have "t ! ((home k + d) mod slots) \<in> set es" if "occ (t ! ((home k + d) mod slots))"
    using that table len some_slots by (simp add: table_of_def)
  ultimately show ?thesis using at by (auto simp: stops_def Let_def)
qed

end

end
