(* ===== verification/Lumbre_Whitelist.thy ===== *)
theory Lumbre_Whitelist
  imports Lumbre_Probing
begin

text \<open>
  The whitelist of \<^verbatim>\<open>lumbre_whitelist.c\<close>: the FNV-1a hash, the canonical key of a class and
  function name, the static table, and the hash table with its linear-probing loops. The loops
  are \<open>partial_function\<close>s: not returning, as on a full table, is \<^const>\<open>None\<close>, so that returning
  is something to prove. Names are byte lists behind possibly null pointers, with their lengths
  passed separately as in C.
\<close>

subsection \<open>Span types\<close>

definition LUMBRE_SPAN_HTTP_IN :: u8 where "LUMBRE_SPAN_HTTP_IN = 1"
definition LUMBRE_SPAN_HTTP_OUT :: u8 where "LUMBRE_SPAN_HTTP_OUT = 2"
definition LUMBRE_SPAN_DB :: u8 where "LUMBRE_SPAN_DB = 3"
definition LUMBRE_SPAN_REDIS :: u8 where "LUMBRE_SPAN_REDIS = 4"
definition LUMBRE_SPAN_MEMCACHED :: u8 where "LUMBRE_SPAN_MEMCACHED = 5"
definition LUMBRE_SPAN_FILE_IO :: u8 where "LUMBRE_SPAN_FILE_IO = 6"
definition LUMBRE_SPAN_SOCKET :: u8 where "LUMBRE_SPAN_SOCKET = 7"
definition LUMBRE_SPAN_FUNC :: u8 where "LUMBRE_SPAN_FUNC = 8"
definition LUMBRE_SPAN_CACHE :: u8 where "LUMBRE_SPAN_CACHE = 9"

lemmas span_types = LUMBRE_SPAN_HTTP_IN_def LUMBRE_SPAN_HTTP_OUT_def LUMBRE_SPAN_DB_def
  LUMBRE_SPAN_REDIS_def LUMBRE_SPAN_MEMCACHED_def LUMBRE_SPAN_FILE_IO_def LUMBRE_SPAN_SOCKET_def
  LUMBRE_SPAN_FUNC_def LUMBRE_SPAN_CACHE_def

subsection \<open>Hash and key\<close>

definition lumbre_fnv1a :: "bytes \<Rightarrow> u32" where
  "lumbre_fnv1a data = foldl (\<lambda>hash b. (hash XOR ucast b) * 0x01000193) 0x811c9dc5 data"

text \<open>Reading the \<open>n\<close> characters of a name; a null pointer can only be read for no characters.\<close>

definition read_name :: "bytes option \<Rightarrow> nat \<Rightarrow> bytes option" where
  "read_name name n =
     (case name of None \<Rightarrow> (if n = 0 then Some [] else None) | Some s \<Rightarrow> mem_load s 0 n)"

definition wl_lower :: "u8 \<Rightarrow> u8" where
  "wl_lower c = (if 65 \<le> c \<and> c \<le> 90 then c OR 0x20 else c)"

text \<open>
  The key written to the buffer; its length is what the code returns, so the empty key stands for
  the return value 0 of the overflow guards.
\<close>

definition lumbre_wl_build_key :: "bytes option \<Rightarrow> u64 \<Rightarrow> bytes option \<Rightarrow> u64 \<Rightarrow> bytes option" where
  "lumbre_wl_build_key class_name class_len func_name func_len =
     (if class_name \<noteq> None \<and> 0 < class_len then
        if 128 \<le> class_len + 2 + func_len then Some []
        else do {
          cls \<leftarrow> read_name class_name (unat class_len);
          func \<leftarrow> read_name func_name (unat func_len);
          Some (map wl_lower cls @ [58, 58] @ map wl_lower func) }
      else
        if 128 \<le> func_len then Some []
        else do {
          func \<leftarrow> read_name func_name (unat func_len);
          Some (map wl_lower func) })"

subsection \<open>The static table\<close>

datatype lumbre_wl_static_entry_t = Static_entry
  (se_class_name: "bytes option") (se_class_len: u8) (se_func_name: bytes) (se_func_len: u8)
  (se_span_type: u8)

definition lumbre_wl_static_table :: "lumbre_wl_static_entry_t list" where
  "lumbre_wl_static_table =
    [
     Static_entry None 0 (c_str ''curl_exec'') 9 LUMBRE_SPAN_HTTP_OUT,
     Static_entry None 0 (c_str ''curl_multi_exec'') 15 LUMBRE_SPAN_HTTP_OUT,
     Static_entry (Some (c_str ''PDO'')) 3 (c_str ''execute'') 7 LUMBRE_SPAN_DB,
     Static_entry (Some (c_str ''PDO'')) 3 (c_str ''query'') 5 LUMBRE_SPAN_DB,
     Static_entry None 0 (c_str ''mysqli_query'') 12 LUMBRE_SPAN_DB,
     Static_entry None 0 (c_str ''mysqli_real_query'') 17 LUMBRE_SPAN_DB,
     Static_entry None 0 (c_str ''pg_query'') 8 LUMBRE_SPAN_DB,
     Static_entry None 0 (c_str ''pg_execute'') 10 LUMBRE_SPAN_DB,
     Static_entry (Some (c_str ''Redis'')) 5 (c_str ''get'') 3 LUMBRE_SPAN_REDIS,
     Static_entry (Some (c_str ''Redis'')) 5 (c_str ''set'') 3 LUMBRE_SPAN_REDIS,
     Static_entry (Some (c_str ''Redis'')) 5 (c_str ''mget'') 4 LUMBRE_SPAN_REDIS,
     Static_entry (Some (c_str ''Redis'')) 5 (c_str ''pipeline'') 8 LUMBRE_SPAN_REDIS,
     Static_entry (Some (c_str ''Memcached'')) 9 (c_str ''get'') 3 LUMBRE_SPAN_MEMCACHED,
     Static_entry (Some (c_str ''Memcached'')) 9 (c_str ''set'') 3 LUMBRE_SPAN_MEMCACHED,
     Static_entry (Some (c_str ''Memcached'')) 9 (c_str ''getMulti'') 8 LUMBRE_SPAN_MEMCACHED,
     Static_entry None 0 (c_str ''file_get_contents'') 17 LUMBRE_SPAN_FILE_IO,
     Static_entry None 0 (c_str ''file_put_contents'') 17 LUMBRE_SPAN_FILE_IO,
     Static_entry None 0 (c_str ''fopen'') 5 LUMBRE_SPAN_FILE_IO,
     Static_entry None 0 (c_str ''fwrite'') 6 LUMBRE_SPAN_FILE_IO,
     Static_entry None 0 (c_str ''fread'') 5 LUMBRE_SPAN_FILE_IO,
     Static_entry None 0 (c_str ''fsockopen'') 9 LUMBRE_SPAN_SOCKET,
     Static_entry None 0 (c_str ''stream_socket_client'') 20 LUMBRE_SPAN_SOCKET
    ]"

subsection \<open>The hash table\<close>

record lumbre_whitelist_entry_t =
  we_class_name :: "bytes option"
  we_class_len :: u8
  we_func_name :: "bytes option"
  we_func_len :: u8
  we_span_type :: u8
  we_key_hash :: u32
  we_occupied :: bool

type_synonym lumbre_whitelist_t = "lumbre_whitelist_entry_t list"

definition zero_entry :: lumbre_whitelist_entry_t where
  "zero_entry = \<lparr>we_class_name = None, we_class_len = 0, we_func_name = None, we_func_len = 0,
     we_span_type = 0, we_key_hash = 0, we_occupied = False\<rparr>"

definition LUMBRE_WHITELIST_SIZE :: nat where "LUMBRE_WHITELIST_SIZE = 64"
definition LUMBRE_WHITELIST_MASK :: u32 where "LUMBRE_WHITELIST_MASK = 63"

definition zero_table :: lumbre_whitelist_t where
  "zero_table = replicate LUMBRE_WHITELIST_SIZE zero_entry"

text \<open>The loop of the initialisation that looks for an empty slot.\<close>

partial_function (option) wl_empty_slot :: "lumbre_whitelist_t \<Rightarrow> u32 \<Rightarrow> u32 option" where
  "wl_empty_slot wl slot =
     (if we_occupied (wl ! unat slot)
      then wl_empty_slot wl ((slot + 1) AND LUMBRE_WHITELIST_MASK)
      else Some slot)"

definition wl_insert :: "lumbre_whitelist_t \<Rightarrow> lumbre_wl_static_entry_t \<Rightarrow> lumbre_whitelist_t option" where
  "wl_insert wl src = do {
     key \<leftarrow> lumbre_wl_build_key (se_class_name src) (ucast (se_class_len src))
              (Some (se_func_name src)) (ucast (se_func_len src));
     if key = [] then Some wl
     else do {
       let hash = lumbre_fnv1a key;
       slot \<leftarrow> wl_empty_slot wl (hash AND LUMBRE_WHITELIST_MASK);
       Some (wl[unat slot :=
         \<lparr>we_class_name = se_class_name src, we_class_len = se_class_len src,
          we_func_name = Some (se_func_name src), we_func_len = se_func_len src,
          we_span_type = se_span_type src, we_key_hash = hash, we_occupied = True\<rparr>]) } }"

fun wl_insert_all :: "lumbre_whitelist_t \<Rightarrow> lumbre_wl_static_entry_t list \<Rightarrow> lumbre_whitelist_t option" where
  "wl_insert_all wl [] = Some wl"
| "wl_insert_all wl (src # rest) = do { wl \<leftarrow> wl_insert wl src; wl_insert_all wl rest }"

definition lumbre_whitelist_init :: "lumbre_whitelist_t option" where
  "lumbre_whitelist_init = wl_insert_all zero_table lumbre_wl_static_table"

text \<open>The loop of the lookup, and the lookup. The result is the entry, or \<^const>\<open>None\<close> for NULL.\<close>

definition entry_key :: "lumbre_whitelist_entry_t \<Rightarrow> bytes option" where
  "entry_key e = lumbre_wl_build_key (we_class_name e) (ucast (we_class_len e))
     (we_func_name e) (ucast (we_func_len e))"

partial_function (option) wl_probe ::
  "lumbre_whitelist_t \<Rightarrow> bytes \<Rightarrow> u32 \<Rightarrow> u32 \<Rightarrow> lumbre_whitelist_entry_t option option" where
  "wl_probe wl key hash slot =
     (let e = wl ! unat slot
      in if we_occupied e then
           if we_key_hash e = hash then do {
             k \<leftarrow> entry_key e;
             if length k = length key \<and> key = k then Some (Some e)
             else wl_probe wl key hash ((slot + 1) AND LUMBRE_WHITELIST_MASK) }
           else wl_probe wl key hash ((slot + 1) AND LUMBRE_WHITELIST_MASK)
         else Some None)"

definition lumbre_whitelist_match ::
  "lumbre_whitelist_t \<Rightarrow> bytes option \<Rightarrow> u64 \<Rightarrow> bytes option \<Rightarrow> u64 \<Rightarrow>
   lumbre_whitelist_entry_t option option" where
  "lumbre_whitelist_match wl class_name class_len func_name func_len = do {
     key \<leftarrow> lumbre_wl_build_key class_name class_len func_name func_len;
     if key = [] then Some None
     else
       let hash = lumbre_fnv1a key
       in wl_probe wl key hash (hash AND LUMBRE_WHITELIST_MASK) }"

definition lumbre_whitelist_destroy :: "lumbre_whitelist_t \<Rightarrow> lumbre_whitelist_t" where
  "lumbre_whitelist_destroy wl = zero_table"

end
