(* ===== verification/Lumbre_Span.thy ===== *)
theory Lumbre_Span
  imports Lumbre_Fifo Lumbre_Msgpack Lumbre_Whitelist
begin

text \<open>
  The span lifecycle of \<^verbatim>\<open>lumbre_span.c\<close> and \<^verbatim>\<open>lumbre_span.h\<close>: the clock, the span and
  the request context as records, the payload setters, \<^verbatim>\<open>start\<close>, \<^verbatim>\<open>encode\<close> and \<^verbatim>\<open>finish\<close>.
  A string field is a possibly null pointer and a 32-bit length, as in the struct. What
  \<^verbatim>\<open>clock_gettime\<close> stored is an argument of the operations that read the clock.
\<close>

subsection \<open>The clock\<close>

datatype timespec = Timespec (tv_sec: u64) (tv_nsec: u64)

text \<open>Clock readings are ordered by seconds, then nanoseconds.\<close>

instantiation timespec :: linorder
begin

definition less_eq_timespec :: "timespec \<Rightarrow> timespec \<Rightarrow> bool" where
  "s \<le> t \<longleftrightarrow> tv_sec s < tv_sec t \<or> tv_sec s = tv_sec t \<and> tv_nsec s \<le> tv_nsec t"

definition less_timespec :: "timespec \<Rightarrow> timespec \<Rightarrow> bool" where
  "s < t \<longleftrightarrow> tv_sec s < tv_sec t \<or> tv_sec s = tv_sec t \<and> tv_nsec s < tv_nsec t"

instance
  by intro_classes
    (auto simp: less_eq_timespec_def less_timespec_def not_less intro: timespec.expand)

end

definition lumbre_clock_ns :: "timespec \<Rightarrow> u64" where
  "lumbre_clock_ns ts = tv_sec ts * 1000000000 + tv_nsec ts"

subsection \<open>Span and context\<close>

record lumbre_span_t =
  sp_type :: u8
  sp_trace_id :: bytes
  sp_span_id :: u64
  sp_parent_id :: u64
  sp_start_ns :: u64
  sp_duration_ns :: u64
  sp_url :: "bytes option"
  sp_url_len :: u32
  sp_method :: "bytes option"
  sp_method_len :: u32
  sp_status_code :: u16
  sp_query :: "bytes option"
  sp_query_len :: u32
  sp_db_type :: "bytes option"
  sp_db_type_len :: u32
  sp_rows_affected :: u32
  sp_cache_cmd :: "bytes option"
  sp_cache_cmd_len :: u32
  sp_cache_key :: "bytes option"
  sp_cache_key_len :: u32
  sp_func_class :: "bytes option"
  sp_func_class_len :: u32
  sp_func_name :: "bytes option"
  sp_func_name_len :: u32
  sp_func_file :: "bytes option"
  sp_func_file_len :: u32
  sp_func_line :: u32
  sp_request_uri :: "bytes option"
  sp_request_uri_len :: u32

record lumbre_context_t =
  cx_trace_id :: bytes
  cx_root_span_id :: u64
  cx_current_parent_id :: u64
  cx_span_counter :: u64
  cx_active :: int
  cx_full_trace :: int

text \<open>\<^verbatim>\<open>memset(span, 0, sizeof(lumbre_span_t))\<close>.\<close>

definition zero_span :: lumbre_span_t where
  "zero_span = \<lparr>sp_type = 0, sp_trace_id = replicate 16 0, sp_span_id = 0, sp_parent_id = 0,
     sp_start_ns = 0, sp_duration_ns = 0, sp_url = None, sp_url_len = 0, sp_method = None,
     sp_method_len = 0, sp_status_code = 0, sp_query = None, sp_query_len = 0, sp_db_type = None,
     sp_db_type_len = 0, sp_rows_affected = 0, sp_cache_cmd = None, sp_cache_cmd_len = 0,
     sp_cache_key = None, sp_cache_key_len = 0, sp_func_class = None, sp_func_class_len = 0,
     sp_func_name = None, sp_func_name_len = 0, sp_func_file = None, sp_func_file_len = 0,
     sp_func_line = 0, sp_request_uri = None, sp_request_uri_len = 0\<rparr>"

subsection \<open>Context\<close>

text \<open>
  The random source gets the 16-byte buffer and returns its status and the buffer afterwards; the
  code ignores the status.
\<close>

definition lumbre_context_init ::
  "lumbre_context_t \<Rightarrow> bytes option \<Rightarrow> (bytes \<Rightarrow> int \<times> bytes) option \<Rightarrow> lumbre_context_t" where
  "lumbre_context_init ctx propagated_trace_id random_func =
     (let trace_id =
        (case propagated_trace_id of
           Some tid \<Rightarrow> take 16 tid
         | None \<Rightarrow> (case random_func of
                      Some f \<Rightarrow> snd (f (cx_trace_id ctx))
                    | None \<Rightarrow> replicate 16 0))
      in ctx\<lparr>cx_trace_id := trace_id, cx_span_counter := 1, cx_current_parent_id := 0,
             cx_root_span_id := 0, cx_active := 1, cx_full_trace := 0\<rparr>)"

definition lumbre_context_reset :: "lumbre_context_t \<Rightarrow> lumbre_context_t" where
  "lumbre_context_reset ctx = ctx\<lparr>cx_active := 0, cx_trace_id := replicate 16 0\<rparr>"

subsection \<open>Starting a span and setting its payload\<close>

definition lumbre_span_start ::
  "u8 \<Rightarrow> lumbre_context_t \<Rightarrow> timespec \<Rightarrow> lumbre_span_t \<times> lumbre_context_t" where
  "lumbre_span_start type ctx ts =
     (let span = zero_span\<lparr>sp_type := type, sp_trace_id := cx_trace_id ctx,
                   sp_span_id := cx_span_counter ctx\<rparr>;
          ctx = ctx\<lparr>cx_span_counter := cx_span_counter ctx + 1\<rparr>;
          span = span\<lparr>sp_parent_id := cx_current_parent_id ctx, sp_start_ns := lumbre_clock_ns ts\<rparr>;
          ctx = ctx\<lparr>cx_current_parent_id := sp_span_id span\<rparr>
      in (span, if sp_parent_id span = 0 then ctx\<lparr>cx_root_span_id := sp_span_id span\<rparr> else ctx))"

definition lumbre_span_set_http_out ::
  "lumbre_span_t \<Rightarrow> bytes option \<Rightarrow> u32 \<Rightarrow> bytes option \<Rightarrow> u32 \<Rightarrow> u16 \<Rightarrow> lumbre_span_t" where
  "lumbre_span_set_http_out span url url_len method method_len status_code =
     span\<lparr>sp_url := url, sp_url_len := url_len, sp_method := method, sp_method_len := method_len,
          sp_status_code := status_code\<rparr>"

definition lumbre_span_set_db ::
  "lumbre_span_t \<Rightarrow> bytes option \<Rightarrow> u32 \<Rightarrow> bytes option \<Rightarrow> u32 \<Rightarrow> u32 \<Rightarrow> u32 \<Rightarrow> lumbre_span_t" where
  "lumbre_span_set_db span query query_len db_type db_type_len rows_affected max_query_len =
     span\<lparr>sp_query := query,
          sp_query_len := (if max_query_len < query_len then max_query_len else query_len),
          sp_db_type := db_type, sp_db_type_len := db_type_len, sp_rows_affected := rows_affected\<rparr>"

definition lumbre_span_set_cache ::
  "lumbre_span_t \<Rightarrow> bytes option \<Rightarrow> u32 \<Rightarrow> bytes option \<Rightarrow> u32 \<Rightarrow> lumbre_span_t" where
  "lumbre_span_set_cache span cmd cmd_len key key_len =
     span\<lparr>sp_cache_cmd := cmd, sp_cache_cmd_len := cmd_len, sp_cache_key := key,
          sp_cache_key_len := key_len\<rparr>"

definition lumbre_span_set_func ::
  "lumbre_span_t \<Rightarrow> bytes option \<Rightarrow> u32 \<Rightarrow> bytes option \<Rightarrow> u32 \<Rightarrow> bytes option \<Rightarrow> u32 \<Rightarrow> u32 \<Rightarrow> lumbre_span_t" where
  "lumbre_span_set_func span cls cls_len name name_len file file_len line =
     span\<lparr>sp_func_class := cls, sp_func_class_len := cls_len, sp_func_name := name,
          sp_func_name_len := name_len, sp_func_file := file, sp_func_file_len := file_len,
          sp_func_line := line\<rparr>"

definition lumbre_span_set_http_in ::
  "lumbre_span_t \<Rightarrow> bytes option \<Rightarrow> u32 \<Rightarrow> bytes option \<Rightarrow> u32 \<Rightarrow> lumbre_span_t" where
  "lumbre_span_set_http_in span uri uri_len method method_len =
     span\<lparr>sp_request_uri := uri, sp_request_uri_len := uri_len, sp_method := method,
          sp_method_len := method_len\<rparr>"

definition lumbre_span_set_file_io :: "lumbre_span_t \<Rightarrow> bytes option \<Rightarrow> u32 \<Rightarrow> lumbre_span_t" where
  "lumbre_span_set_file_io span path path_len = span\<lparr>sp_url := path, sp_url_len := path_len\<rparr>"

subsection \<open>Encoding\<close>

definition LUMBRE_MKEY_TYPE :: bytes where "LUMBRE_MKEY_TYPE = c_str ''t''"
definition LUMBRE_MKEY_TRACE_ID :: bytes where "LUMBRE_MKEY_TRACE_ID = c_str ''tid''"
definition LUMBRE_MKEY_SPAN_ID :: bytes where "LUMBRE_MKEY_SPAN_ID = c_str ''sid''"
definition LUMBRE_MKEY_PARENT_ID :: bytes where "LUMBRE_MKEY_PARENT_ID = c_str ''pid''"
definition LUMBRE_MKEY_START_NS :: bytes where "LUMBRE_MKEY_START_NS = c_str ''s''"
definition LUMBRE_MKEY_DURATION :: bytes where "LUMBRE_MKEY_DURATION = c_str ''d''"
definition LUMBRE_MKEY_URL :: bytes where "LUMBRE_MKEY_URL = c_str ''url''"
definition LUMBRE_MKEY_METHOD :: bytes where "LUMBRE_MKEY_METHOD = c_str ''mth''"
definition LUMBRE_MKEY_STATUS :: bytes where "LUMBRE_MKEY_STATUS = c_str ''st''"
definition LUMBRE_MKEY_QUERY :: bytes where "LUMBRE_MKEY_QUERY = c_str ''q''"
definition LUMBRE_MKEY_DB_TYPE :: bytes where "LUMBRE_MKEY_DB_TYPE = c_str ''dbt''"
definition LUMBRE_MKEY_ROWS :: bytes where "LUMBRE_MKEY_ROWS = c_str ''r''"
definition LUMBRE_MKEY_CACHE_CMD :: bytes where "LUMBRE_MKEY_CACHE_CMD = c_str ''cmd''"
definition LUMBRE_MKEY_CACHE_KEY :: bytes where "LUMBRE_MKEY_CACHE_KEY = c_str ''k''"
definition LUMBRE_MKEY_FUNC_CLASS :: bytes where "LUMBRE_MKEY_FUNC_CLASS = c_str ''cls''"
definition LUMBRE_MKEY_FUNC_NAME :: bytes where "LUMBRE_MKEY_FUNC_NAME = c_str ''fn''"
definition LUMBRE_MKEY_FUNC_FILE :: bytes where "LUMBRE_MKEY_FUNC_FILE = c_str ''f''"
definition LUMBRE_MKEY_FUNC_LINE :: bytes where "LUMBRE_MKEY_FUNC_LINE = c_str ''l''"
definition LUMBRE_MKEY_URI :: bytes where "LUMBRE_MKEY_URI = c_str ''uri''"

lemmas span_keys = LUMBRE_MKEY_TYPE_def LUMBRE_MKEY_TRACE_ID_def LUMBRE_MKEY_SPAN_ID_def
  LUMBRE_MKEY_PARENT_ID_def LUMBRE_MKEY_START_NS_def LUMBRE_MKEY_DURATION_def LUMBRE_MKEY_URL_def
  LUMBRE_MKEY_METHOD_def LUMBRE_MKEY_STATUS_def LUMBRE_MKEY_QUERY_def LUMBRE_MKEY_DB_TYPE_def
  LUMBRE_MKEY_ROWS_def LUMBRE_MKEY_CACHE_CMD_def LUMBRE_MKEY_CACHE_KEY_def
  LUMBRE_MKEY_FUNC_CLASS_def LUMBRE_MKEY_FUNC_NAME_def LUMBRE_MKEY_FUNC_FILE_def
  LUMBRE_MKEY_FUNC_LINE_def LUMBRE_MKEY_URI_def

definition lumbre_span_field_count :: "u8 \<Rightarrow> u32" where
  "lumbre_span_field_count type =
     (if type = LUMBRE_SPAN_HTTP_IN then 8
      else if type = LUMBRE_SPAN_HTTP_OUT then 9
      else if type = LUMBRE_SPAN_DB then 9
      else if type = LUMBRE_SPAN_REDIS \<or> type = LUMBRE_SPAN_MEMCACHED then 8
      else if type = LUMBRE_SPAN_FILE_IO \<or> type = LUMBRE_SPAN_SOCKET then 7
      else if type = LUMBRE_SPAN_FUNC then 10
      else 6)"

text \<open>A run of \<^verbatim>\<open>LUMBRE_PACK_OR_FAIL\<close> statements: the first negative result returns -1.\<close>

fun pack_or_fail :: "packing list \<Rightarrow> packing" where
  "pack_or_fail [] b = Some (0, b)"
| "pack_or_fail (p # ps) b = do {
     (rc, b) \<leftarrow> p b;
     if rc < 0 then Some (-1, b) else pack_or_fail ps b }"

definition lumbre_span_encode :: "lumbre_span_t \<Rightarrow> packing" where
  "lumbre_span_encode span =
     pack_or_fail (
       [lumbre_msgpack_pack_map (lumbre_span_field_count (sp_type span)),
        lumbre_msgpack_pack_uint_kv (Some LUMBRE_MKEY_TYPE) 1 (ucast (sp_type span)),
        lumbre_msgpack_pack_bin_kv (Some LUMBRE_MKEY_TRACE_ID) 3 (Some (sp_trace_id span)) 16,
        lumbre_msgpack_pack_uint_kv (Some LUMBRE_MKEY_SPAN_ID) 3 (sp_span_id span),
        lumbre_msgpack_pack_uint_kv (Some LUMBRE_MKEY_PARENT_ID) 3 (sp_parent_id span),
        lumbre_msgpack_pack_uint_kv (Some LUMBRE_MKEY_START_NS) 1 (sp_start_ns span),
        lumbre_msgpack_pack_uint_kv (Some LUMBRE_MKEY_DURATION) 1 (sp_duration_ns span)] @
       (if sp_type span = LUMBRE_SPAN_HTTP_IN then
          [lumbre_msgpack_pack_str_kv (Some LUMBRE_MKEY_URI) 3 (sp_request_uri span) (sp_request_uri_len span),
           lumbre_msgpack_pack_str_kv (Some LUMBRE_MKEY_METHOD) 3 (sp_method span) (sp_method_len span)]
        else if sp_type span = LUMBRE_SPAN_HTTP_OUT then
          [lumbre_msgpack_pack_str_kv (Some LUMBRE_MKEY_URL) 3 (sp_url span) (sp_url_len span),
           lumbre_msgpack_pack_str_kv (Some LUMBRE_MKEY_METHOD) 3 (sp_method span) (sp_method_len span),
           lumbre_msgpack_pack_uint_kv (Some LUMBRE_MKEY_STATUS) 2 (ucast (sp_status_code span))]
        else if sp_type span = LUMBRE_SPAN_DB then
          [lumbre_msgpack_pack_str_kv (Some LUMBRE_MKEY_QUERY) 1 (sp_query span) (sp_query_len span),
           lumbre_msgpack_pack_str_kv (Some LUMBRE_MKEY_DB_TYPE) 3 (sp_db_type span) (sp_db_type_len span),
           lumbre_msgpack_pack_uint_kv (Some LUMBRE_MKEY_ROWS) 1 (ucast (sp_rows_affected span))]
        else if sp_type span = LUMBRE_SPAN_REDIS \<or> sp_type span = LUMBRE_SPAN_MEMCACHED then
          [lumbre_msgpack_pack_str_kv (Some LUMBRE_MKEY_CACHE_CMD) 3 (sp_cache_cmd span) (sp_cache_cmd_len span),
           lumbre_msgpack_pack_str_kv (Some LUMBRE_MKEY_CACHE_KEY) 1 (sp_cache_key span) (sp_cache_key_len span)]
        else if sp_type span = LUMBRE_SPAN_FILE_IO \<or> sp_type span = LUMBRE_SPAN_SOCKET then
          [lumbre_msgpack_pack_str_kv (Some LUMBRE_MKEY_URL) 3 (sp_url span) (sp_url_len span)]
        else if sp_type span = LUMBRE_SPAN_FUNC then
          [lumbre_msgpack_pack_str_kv (Some LUMBRE_MKEY_FUNC_CLASS) 3 (sp_func_class span) (sp_func_class_len span),
           lumbre_msgpack_pack_str_kv (Some LUMBRE_MKEY_FUNC_NAME) 2 (sp_func_name span) (sp_func_name_len span),
           lumbre_msgpack_pack_str_kv (Some LUMBRE_MKEY_FUNC_FILE) 1 (sp_func_file span) (sp_func_file_len span),
           lumbre_msgpack_pack_uint_kv (Some LUMBRE_MKEY_FUNC_LINE) 1 (ucast (sp_func_line span))]
        else []))"

subsection \<open>Finishing a span\<close>

type_synonym span_state =
  "lumbre_span_t \<times> lumbre_ringbuf_t \<times> lumbre_msgpack_buf \<times> lumbre_context_t"

definition lumbre_span_finish ::
  "lumbre_span_t \<Rightarrow> lumbre_ringbuf_t \<Rightarrow> lumbre_msgpack_buf \<Rightarrow> lumbre_context_t \<Rightarrow> u64 \<Rightarrow> u32 \<Rightarrow>
   timespec \<Rightarrow> (int \<times> span_state) option" where
  "lumbre_span_finish span rb mp_buf ctx min_duration_ns max_query_len ts =
     (let span = span\<lparr>sp_duration_ns := lumbre_clock_ns ts - sp_start_ns span\<rparr>
      in if 0 < min_duration_ns \<and> sp_duration_ns span < min_duration_ns
           \<and> sp_type span \<noteq> LUMBRE_SPAN_HTTP_IN
      then Some (1, span, rb, mp_buf, ctx\<lparr>cx_current_parent_id := sp_parent_id span\<rparr>)
      else
        let ctx = ctx\<lparr>cx_current_parent_id := sp_parent_id span\<rparr>;
            span = (if sp_type span = LUMBRE_SPAN_DB \<and> 0 < max_query_len \<and> max_query_len < sp_query_len span
                    then span\<lparr>sp_query_len := max_query_len\<rparr> else span);
            mp_buf = lumbre_msgpack_reset mp_buf
        in do {
          (rc, mp_buf) \<leftarrow> lumbre_span_encode span mp_buf;
          if rc < 0 then Some (-1, span, rb, mp_buf, ctx)
          else do {
            (rc, rb) \<leftarrow> lumbre_ringbuf_write rb (mb_buf mp_buf) (ucast (mb_pos mp_buf));
            Some (rc, span, rb, mp_buf, ctx) } })"

end
