(* ===== verification/Lumbre_Span_Correct.thy ===== *)
theory Lumbre_Span_Correct
  imports Lumbre_Span
begin

text \<open>
  Correctness of the span lifecycle: the abstract content of a span as a list of named values,
  the encoder as a packer of exactly that map, identifiers and the implicit parent stack, the
  duration filter, and \<^verbatim>\<open>lumbre_span_finish\<close> as an append to the ring's message queue.
\<close>

subsection \<open>What a span says\<close>

definition text_ok :: "bytes option \<Rightarrow> u32 \<Rightarrow> bool" where
  "text_ok p n \<longleftrightarrow> readable p n \<and> unat n < 4294967291"

definition span_ok :: "lumbre_span_t \<Rightarrow> bool" where
  "span_ok s \<longleftrightarrow> length (sp_trace_id s) = 16 \<and>
     text_ok (sp_url s) (sp_url_len s) \<and> text_ok (sp_method s) (sp_method_len s) \<and>
     text_ok (sp_query s) (sp_query_len s) \<and> text_ok (sp_db_type s) (sp_db_type_len s) \<and>
     text_ok (sp_cache_cmd s) (sp_cache_cmd_len s) \<and> text_ok (sp_cache_key s) (sp_cache_key_len s) \<and>
     text_ok (sp_func_class s) (sp_func_class_len s) \<and> text_ok (sp_func_name s) (sp_func_name_len s) \<and>
     text_ok (sp_func_file s) (sp_func_file_len s) \<and> text_ok (sp_request_uri s) (sp_request_uri_len s)"

text \<open>The named values of each kind of span, as the daemon reads them.\<close>

definition common_fields :: "lumbre_span_t \<Rightarrow> (bytes \<times> mp_value) list" where
  "common_fields s =
     [(c_str ''t'', MP_Uint (ucast (sp_type s))), (c_str ''tid'', MP_Bin (sp_trace_id s)),
      (c_str ''sid'', MP_Uint (sp_span_id s)), (c_str ''pid'', MP_Uint (sp_parent_id s)),
      (c_str ''s'', MP_Uint (sp_start_ns s)), (c_str ''d'', MP_Uint (sp_duration_ns s))]"

definition own_fields :: "lumbre_span_t \<Rightarrow> (bytes \<times> mp_value) list" where
  "own_fields s =
     (if sp_type s = LUMBRE_SPAN_HTTP_IN then
        [(c_str ''uri'', MP_Str (payload (sp_request_uri s) (sp_request_uri_len s))),
         (c_str ''mth'', MP_Str (payload (sp_method s) (sp_method_len s)))]
      else if sp_type s = LUMBRE_SPAN_HTTP_OUT then
        [(c_str ''url'', MP_Str (payload (sp_url s) (sp_url_len s))),
         (c_str ''mth'', MP_Str (payload (sp_method s) (sp_method_len s))),
         (c_str ''st'', MP_Uint (ucast (sp_status_code s)))]
      else if sp_type s = LUMBRE_SPAN_DB then
        [(c_str ''q'', MP_Str (payload (sp_query s) (sp_query_len s))),
         (c_str ''dbt'', MP_Str (payload (sp_db_type s) (sp_db_type_len s))),
         (c_str ''r'', MP_Uint (ucast (sp_rows_affected s)))]
      else if sp_type s \<in> {LUMBRE_SPAN_REDIS, LUMBRE_SPAN_MEMCACHED} then
        [(c_str ''cmd'', MP_Str (payload (sp_cache_cmd s) (sp_cache_cmd_len s))),
         (c_str ''k'', MP_Str (payload (sp_cache_key s) (sp_cache_key_len s)))]
      else if sp_type s \<in> {LUMBRE_SPAN_FILE_IO, LUMBRE_SPAN_SOCKET} then
        [(c_str ''url'', MP_Str (payload (sp_url s) (sp_url_len s)))]
      else if sp_type s = LUMBRE_SPAN_FUNC then
        [(c_str ''cls'', MP_Str (payload (sp_func_class s) (sp_func_class_len s))),
         (c_str ''fn'', MP_Str (payload (sp_func_name s) (sp_func_name_len s))),
         (c_str ''f'', MP_Str (payload (sp_func_file s) (sp_func_file_len s))),
         (c_str ''l'', MP_Uint (ucast (sp_func_line s)))]
      else [])"

definition span_fields :: "lumbre_span_t \<Rightarrow> (bytes \<times> mp_value) list" where
  "span_fields s = common_fields s @ own_fields s"

definition span_image :: "lumbre_span_t \<Rightarrow> bytes" where
  "span_image s = enc_map (span_fields s)"

subsection \<open>The encoder packs the map\<close>

lemma writes_cong: "(\<And>b. mb_wf b \<Longrightarrow> p b = q b) \<Longrightarrow> writes p bs = writes q bs"
  by (simp add: writes_def)

lemma writes_return: "writes (\<lambda>b. Some (0, b)) []"
  by (simp add: writes_def mb_wf_def fits_def)

lemma pack_or_fail_Nil: "pack_or_fail [] = (\<lambda>b. Some (0, b))"
  by (rule ext) simp

lemma writes_pack_or_fail:
  "list_all2 writes ps imgs \<Longrightarrow> writes (pack_or_fail ps) (concat imgs)"
proof (induction rule: list_all2_induct)
  case Nil
  then show ?case by (simp add: pack_or_fail_Nil writes_return)
next
  case (Cons p ps img imgs)
  define q where "q b = do { (rc, b) \<leftarrow> p b; if rc \<noteq> 0 then Some (rc, b) else pack_or_fail ps b }" for b
  have "writes q (img @ concat imgs)"
    by (rule writes_seq [OF Cons(1,3)]) (simp add: q_def)
  moreover have "pack_or_fail (p # ps) b = q b" if "mb_wf b" for b
    using Cons(1) that by (rule writes_cases) (auto simp: q_def)
  then have "writes (pack_or_fail (p # ps)) = writes q" by (intro ext writes_cong)
  ultimately show ?case by (simp only: concat.simps)
qed

text \<open>A map: its header, then the packers of its fields, in two groups.\<close>

lemma writes_map:
  assumes "list_all2 writes ps (map (\<lambda>(k, v). enc_str k @ enc_value v) xs)"
    and "list_all2 writes qs (map (\<lambda>(k, v). enc_str k @ enc_value v) ys)"
    and "n = of_nat (length (xs @ ys))"
  shows "writes (pack_or_fail (lumbre_msgpack_pack_map n # ps @ qs)) (enc_map (xs @ ys))"
proof -
  have "list_all2 writes (lumbre_msgpack_pack_map n # ps @ qs)
      (enc_map_header n # map (\<lambda>(k, v). enc_str k @ enc_value v) (xs @ ys))"
    using list_all2_appendI [OF assms(1,2)] by (simp add: writes_pack_map)
  from writes_pack_or_fail [OF this] show ?thesis by (simp only: concat.simps enc_map_def assms(3))
qed

lemma str_image_payload: "readable p n \<Longrightarrow> str_image p n = enc_str (payload p n)"
  by (simp add: str_image_def enc_str_def length_payload)

text \<open>A key passed with its own length.\<close>

definition key_ok :: "bytes \<Rightarrow> u32 \<Rightarrow> bool" where
  "key_ok k n \<longleftrightarrow> unat n = length k \<and> length k < 32"

lemma key_image: "key_ok k n \<Longrightarrow> readable (Some k) n \<and> unat n < 4294967291 \<and> str_image (Some k) n = enc_str k"
  by (simp add: key_ok_def readable_def str_image_payload) (simp add: payload_def)

lemma writes_field:
  assumes "key_ok k n"
  shows "writes (lumbre_msgpack_pack_uint_kv (Some k) n v) (enc_str k @ enc_value (MP_Uint v))"
    and "text_ok p m \<Longrightarrow>
      writes (lumbre_msgpack_pack_str_kv (Some k) n p m) (enc_str k @ enc_value (MP_Str (payload p m)))"
    and "length d = 16 \<Longrightarrow>
      writes (lumbre_msgpack_pack_bin_kv (Some k) n (Some d) 16) (enc_str k @ enc_value (MP_Bin d))"
proof -
  note k = key_image [OF assms]
  show "writes (lumbre_msgpack_pack_uint_kv (Some k) n v) (enc_str k @ enc_value (MP_Uint v))"
    using writes_uint_kv [of "Some k" n v] k by simp
  show "writes (lumbre_msgpack_pack_str_kv (Some k) n p m) (enc_str k @ enc_value (MP_Str (payload p m)))"
    if "text_ok p m"
    using writes_str_kv [of "Some k" n p m] k that by (simp add: text_ok_def str_image_payload)
  show "writes (lumbre_msgpack_pack_bin_kv (Some k) n (Some d) 16) (enc_str k @ enc_value (MP_Bin d))"
    if "length d = 16"
    using writes_bin_kv [of "Some k" n "Some d" 16] k that bin_image_bytes [of d]
    by (simp add: readable_def)
qed

lemma span_keys_ok:
  "key_ok (c_str ''t'') 1" "key_ok (c_str ''tid'') 3" "key_ok (c_str ''sid'') 3"
  "key_ok (c_str ''pid'') 3" "key_ok (c_str ''s'') 1" "key_ok (c_str ''d'') 1"
  "key_ok (c_str ''uri'') 3" "key_ok (c_str ''mth'') 3" "key_ok (c_str ''url'') 3"
  "key_ok (c_str ''st'') 2" "key_ok (c_str ''q'') 1" "key_ok (c_str ''dbt'') 3"
  "key_ok (c_str ''r'') 1" "key_ok (c_str ''cmd'') 3" "key_ok (c_str ''k'') 1"
  "key_ok (c_str ''cls'') 3" "key_ok (c_str ''fn'') 2" "key_ok (c_str ''f'') 1" "key_ok (c_str ''l'') 1"
  by (simp_all add: key_ok_def)

lemma field_count: "lumbre_span_field_count (sp_type s) = of_nat (length (span_fields s))"
  by (simp add: lumbre_span_field_count_def span_fields_def common_fields_def own_fields_def)

lemma writes_span_encode:
  assumes "span_ok s"
  shows "writes (lumbre_span_encode s) (span_image s)"
  unfolding lumbre_span_encode_def span_image_def span_fields_def append_Cons append_Nil
proof (rule writes_map [where ps = "[_, _, _, _, _, _]", unfolded append_Cons append_Nil])
  show "lumbre_span_field_count (sp_type s) = word_of_nat (length (common_fields s @ own_fields s))"
    using field_count [of s] by (simp add: span_fields_def)
qed (use assms in \<open>auto simp: span_ok_def common_fields_def own_fields_def span_keys
      intro!: writes_field [unfolded enc_value.simps] span_keys_ok\<close>)

lemma payload_str_ok: "text_ok p n \<Longrightarrow> str_ok (payload p n)"
  by (simp add: text_ok_def str_ok_def length_payload)

lemma span_fields_ok: "span_ok s \<Longrightarrow> map_ok (span_fields s)"
  by (simp add: map_ok_def span_fields_def common_fields_def own_fields_def span_ok_def payload_str_ok)
    (simp add: str_ok_def)

interpretation span_packer: packer lumbre_span_encode span_image span_ok
  by unfold_locales (rule writes_span_encode)

lemma dec_span: "span_ok s \<Longrightarrow> dec_map (span_image s @ r) = Some (span_fields s, r)"
  unfolding span_image_def by (rule map_codec.dec_enc) (rule span_fields_ok)

subsection \<open>Finishing\<close>

definition span_timed :: "lumbre_span_t \<Rightarrow> timespec \<Rightarrow> lumbre_span_t" where
  "span_timed s ts = s\<lparr>sp_duration_ns := lumbre_clock_ns ts - sp_start_ns s\<rparr>"

lemma span_timed_fields:
  "sp_type (span_timed s ts) = sp_type s"
  "sp_parent_id (span_timed s ts) = sp_parent_id s"
  "sp_query_len (span_timed s ts) = sp_query_len s"
  "sp_duration_ns (span_timed s ts) = lumbre_clock_ns ts - sp_start_ns s"
  by (simp_all add: span_timed_def)

definition span_truncated :: "u32 \<Rightarrow> lumbre_span_t \<Rightarrow> lumbre_span_t" where
  "span_truncated maxq s =
     (if sp_type s = LUMBRE_SPAN_DB \<and> 0 < maxq then s\<lparr>sp_query_len := min maxq (sp_query_len s)\<rparr> else s)"

definition span_final :: "lumbre_span_t \<Rightarrow> timespec \<Rightarrow> u32 \<Rightarrow> lumbre_span_t" where
  "span_final s ts maxq = span_truncated maxq (span_timed s ts)"

definition span_filtered :: "lumbre_span_t \<Rightarrow> timespec \<Rightarrow> u64 \<Rightarrow> bool" where
  "span_filtered s ts min_ns \<longleftrightarrow>
     sp_type s \<noteq> LUMBRE_SPAN_HTTP_IN \<and> lumbre_clock_ns ts - sp_start_ns s < min_ns"

lemma text_ok_shorter: "text_ok p n \<Longrightarrow> text_ok p (min m n)"
  by (auto simp: text_ok_def readable_def min_def word_le_nat_alt unsigned_eq_0_iff
      split: option.splits)

lemma span_final_if: "span_final s ts maxq =
  (if sp_type s = LUMBRE_SPAN_DB \<and> 0 < maxq \<and> maxq < sp_query_len s
   then (span_timed s ts)\<lparr>sp_query_len := maxq\<rparr> else span_timed s ts)"
  by (auto simp: span_final_def span_truncated_def span_timed_def min_def)

lemma span_final_ok: "span_ok s \<Longrightarrow> span_ok (span_final s ts maxq)"
  by (simp add: span_ok_def span_final_def span_truncated_def span_timed_def text_ok_shorter)

text \<open>The ring buffer reads no more of its payload than the given length.\<close>

lemma ringbuf_write_prefix:
  assumes "unat len \<le> length p"
  shows "lumbre_ringbuf_write rb p len = lumbre_ringbuf_write rb (take (unat len) p) len"
proof -
  have "mem_load (take (unat len) p) 0 (unat len) = mem_load p 0 (unat len)"
    using assms by (simp add: mem_load_def)
  then have "ringbuf_commit r h off p len n = ringbuf_commit r h off (take (unat len) p) len n" for r h off n
    by (simp only: ringbuf_commit_def)
  then show ?thesis unfolding lumbre_ringbuf_write_def by (simp only:)
qed

definition mp_ready :: "lumbre_msgpack_buf \<Rightarrow> bool" where
  "mp_ready mp \<longleftrightarrow> mb_wf mp \<and> unat (mb_capacity mp) < 4294967296"

lemma reset_wf: "mp_ready mp \<Longrightarrow> mb_wf (lumbre_msgpack_reset mp)"
  by (simp add: mp_ready_def mb_wf_def lumbre_msgpack_reset_def)

lemma reset_written: "written (lumbre_msgpack_reset mp) = []"
  by (simp add: written_def lumbre_msgpack_reset_def)

text \<open>What is handed to the ring is exactly the image of the span.\<close>

lemma ringbuf_write_written:
  assumes "mb_wf mp" and "unat (mb_capacity mp) < 4294967296" and "written mp = img"
  shows "lumbre_ringbuf_write rb (mb_buf mp) (ucast (mb_pos mp)) = ring_put rb img"
proof -
  have pos: "unat (mb_pos mp) < 4294967296" "unat (mb_pos mp) \<le> length (mb_buf mp)"
    using assms by (simp_all add: mb_wf_def)
  then have len: "unat (ucast (mb_pos mp) :: u32) = unat (mb_pos mp)"
    by (simp add: unsigned_ucast_eq take_bit_nat_eq_self)
  have img: "take (unat (mb_pos mp)) (mb_buf mp) = img" using assms(3) by (simp add: written_def)
  then have "length img = unat (mb_pos mp)" using pos(2) by auto
  then have "(of_nat (length img) :: u32) = ucast (mb_pos mp)" using len by (metis of_nat_unat ucast_id)
  then show ?thesis using ringbuf_write_prefix [of "ucast (mb_pos mp)" "mb_buf mp" rb] len pos(2) img
    by (simp add: ring_put_def)
qed

lemma span_finish_cases:
  fixes ctx :: lumbre_context_t and ts :: timespec and maxq :: u32
  assumes "span_ok s" and "mp_ready mp"
  defines "ctx' \<equiv> ctx\<lparr>cx_current_parent_id := sp_parent_id s\<rparr>"
    and "img \<equiv> span_image (span_final s ts maxq)"
  shows "if span_filtered s ts min_ns then
      lumbre_span_finish s rb mp ctx min_ns maxq ts = Some (1, span_timed s ts, rb, mp, ctx')
    else \<exists>mp'. mp_ready mp' \<and> mb_capacity mp' = mb_capacity mp \<and>
      lumbre_span_finish s rb mp ctx min_ns maxq ts =
        (if unat (mb_capacity mp) < length img then Some (-1, span_final s ts maxq, rb, mp', ctx')
         else do { (rc, rb) \<leftarrow> ring_put rb img; Some (rc, span_final s ts maxq, rb, mp', ctx') })"
proof (cases "span_filtered s ts min_ns")
  case True
  then show ?thesis
    by (auto simp: lumbre_span_finish_def span_filtered_def span_timed_def ctx'_def Let_def
        intro: le_less_trans)
next
  case False
  define mp0 where "mp0 = lumbre_msgpack_reset mp"
  have wf: "mb_wf mp0" and cap: "mb_capacity mp0 = mb_capacity mp" "unat (mb_capacity mp) < 4294967296"
    and empty: "written mp0 = []"
    using assms(2) reset_wf [OF assms(2)] reset_written [of mp]
    by (simp_all add: mp0_def lumbre_msgpack_reset_def mp_ready_def)
  have unfiltered: "\<not> (0 < min_ns \<and> lumbre_clock_ns ts - sp_start_ns s < min_ns
      \<and> sp_type s \<noteq> LUMBRE_SPAN_HTTP_IN)"
    using False by (auto simp: span_filtered_def)
  have finish: "lumbre_span_finish s rb mp ctx min_ns maxq ts = do {
      (rc, mp) \<leftarrow> lumbre_span_encode (span_final s ts maxq) mp0;
      if rc < 0 then Some (-1, span_final s ts maxq, rb, mp, ctx')
      else do {
        (rc, rb) \<leftarrow> lumbre_ringbuf_write rb (mb_buf mp) (ucast (mb_pos mp));
        Some (rc, span_final s ts maxq, rb, mp, ctx') } }"
    unfolding lumbre_span_finish_def span_timed_def [symmetric] span_final_if Let_def ctx'_def mp0_def
      span_timed_fields
    by (rule if_not_P [OF unfiltered])
  have ok: "span_ok (span_final s ts maxq)" using assms(1) by (rule span_final_ok)
  from span_packer.pack_total [OF ok wf] obtain rc mp1 where
    enc: "lumbre_span_encode (span_final s ts maxq) mp0 = Some (rc, mp1)" "rc = 0 \<or> rc = -1" "extends mp0 mp1"
    by auto
  then have mp1: "mb_wf mp1" "mb_capacity mp1 = mb_capacity mp" by (simp_all add: extends_def cap)
  have "rc = 0 \<Longrightarrow> written mp1 = img \<and> length img \<le> unat (mb_capacity mp)"
    using span_packer.pack_success [OF ok wf, of mp1] enc(1) cap by (simp add: empty img_def)
  moreover have "rc = -1 \<Longrightarrow> unat (mb_capacity mp) < length img"
    using span_packer.pack_failure [OF ok wf, of mp1] enc(1) cap by (simp add: empty img_def)
  ultimately show ?thesis
    using False enc mp1 cap(2) ringbuf_write_written [OF mp1(1), of img rb]
    by (auto simp: finish mp_ready_def intro!: exI [of _ mp1])
qed

subsection \<open>Samples\<close>

definition sample_ctx :: lumbre_context_t where
  "sample_ctx = \<lparr>cx_trace_id = replicate 16 0xab, cx_root_span_id = 1, cx_current_parent_id = 1,
     cx_span_counter = 2, cx_active = 1, cx_full_trace = 0\<rparr>"

definition sample_span :: lumbre_span_t where
  "sample_span = lumbre_span_set_db (fst (lumbre_span_start LUMBRE_SPAN_DB sample_ctx (Timespec 10 5)))
     (Some (c_str ''SELECT 1'')) 8 (Some (c_str ''pdo'')) 3 0 6"

definition sample_mp :: lumbre_msgpack_buf where
  "sample_mp = \<lparr>mb_buf = replicate 128 0, mb_capacity = 128, mb_pos = 0\<rparr>"

lemma sample_span_ok: "span_ok sample_span"
  by (simp add: sample_span_def sample_ctx_def lumbre_span_set_db_def lumbre_span_start_def
      zero_span_def span_ok_def text_ok_def readable_def Let_def)

lemma sample_mp_ready: "mp_ready sample_mp"
  by (simp add: mp_ready_def mb_wf_def sample_mp_def)

subsection \<open>Properties\<close>

text \<open>
  C25: \<^verbatim>\<open>lumbre_span_encode\<close> on a span with readable fields returns 0 exactly when the span's
  map fits, and then a msgpack reader gets back, whatever follows, exactly the six common fields
  and the fields of the span's type: the declared field count is the number of pairs written.
  Otherwise it returns -1. Earlier output and the bytes past the capacity are kept.
\<close>

theorem span_encode_correct:
  assumes "mb_wf b" and "span_ok s"
  shows "\<exists>rc b'. lumbre_span_encode s b = Some (rc, b') \<and> extends b b' \<and>
    (if length (written b) + length (span_image s) \<le> unat (mb_capacity b)
     then rc = 0 \<and> dec_map (drop (length (written b)) (written b') @ r) = Some (span_fields s, r)
     else rc = -1)"
proof -
  obtain rc b' where e: "lumbre_span_encode s b = Some (rc, b')" "rc = 0 \<or> rc = -1" "extends b b'"
    using span_packer.pack_total [OF assms(2,1)] by auto
  then show ?thesis
    using span_packer.pack_success [OF assms(2,1), of b'] span_packer.pack_failure [OF assms(2,1), of b']
    by (auto simp: dec_span [OF assms(2)])
qed

theorem span_encode_correct_witness:
  "\<exists>b'. lumbre_span_encode sample_span sample_mp = Some (0, b') \<and>
     dec_map (written b') = Some (span_fields sample_span, [])"
proof -
  have "mb_wf sample_mp" using sample_mp_ready by (simp add: mp_ready_def)
  moreover have "written sample_mp = []" by (simp add: written_def sample_mp_def)
  moreover have "length (span_image sample_span) \<le> 128" by code_simp
  then have "length (span_image sample_span) \<le> unat (mb_capacity sample_mp)" by (simp add: sample_mp_def)
  ultimately show ?thesis
    using span_encode_correct [OF _ sample_span_ok, of sample_mp "[]"] by auto
qed

lemma span_finish_spec:
  assumes "span_ok s" and "mp_ready mp" and "ring_holds rb ms"
  shows "case lumbre_span_finish s rb mp ctx min_ns maxq ts of
      None \<Rightarrow> marker_overruns rb (span_image (span_final s ts maxq))
    | Some (rc, s', rb', mp', ctx') \<Rightarrow>
        mp_ready mp' \<and> ctx' = ctx\<lparr>cx_current_parent_id := sp_parent_id s\<rparr> \<and>
        (if span_filtered s ts min_ns then rc = 1 \<and> rb' = rb
         else s' = span_final s ts maxq \<and>
          (if unat (mb_capacity mp) < length (span_image s') then rc = -1 \<and> rb' = rb
           else if ring_accepts rb (span_image s')
           then rc = 0 \<and> ring_holds rb' (ms @ [span_image s']) \<and> rb_dropped rb' = rb_dropped rb
           else rc = -1 \<and> ring_holds rb' ms \<and> rb_dropped rb' = rb_dropped rb + 1))"
proof (cases "span_filtered s ts min_ns")
  case True
  then show ?thesis
    using span_finish_cases [OF assms(1,2), of ts min_ns rb ctx maxq] assms(2) by simp
next
  case False
  then obtain mp' where mp': "mp_ready mp'" and eq:
    "lumbre_span_finish s rb mp ctx min_ns maxq ts =
      (if unat (mb_capacity mp) < length (span_image (span_final s ts maxq))
       then Some (-1, span_final s ts maxq, rb, mp', ctx\<lparr>cx_current_parent_id := sp_parent_id s\<rparr>)
       else do { (rc, rb) \<leftarrow> ring_put rb (span_image (span_final s ts maxq));
         Some (rc, span_final s ts maxq, rb, mp', ctx\<lparr>cx_current_parent_id := sp_parent_id s\<rparr>) })"
    using span_finish_cases [OF assms(1,2), of ts min_ns rb ctx maxq] by auto
  show ?thesis
  proof (cases "unat (mb_capacity mp) < length (span_image (span_final s ts maxq))")
    case True
    then show ?thesis using False mp' unfolding eq by simp
  next
    case fits: False
    then have "ring_payload (span_image (span_final s ts maxq))"
      using assms(2) by (simp add: ring_payload_def mp_ready_def)
    from ring_put_refines [OF assms(3) this] show ?thesis
      using False fits mp' unfolding eq by (auto split: option.splits if_splits)
  qed
qed

text \<open>
  C23: \<^verbatim>\<open>lumbre_span_finish\<close> on a ring that holds the messages \<open>ms\<close>: a filtered span returns 1
  and leaves the ring alone; a span whose map exceeds the serialisation buffer returns -1 and is
  lost without being counted; any other span appends exactly one message, its map, when the ring
  has room for it, and otherwise counts a drop and returns -1. On every path the current parent is
  again what it was before the span was started, and nothing else of the context changes. The only
  fault possible is the ring's padding marker.
\<close>

theorem span_finish_refines:
  assumes "span_ok s" and "mp_ready mp" and "ring_holds rb ms"
  shows "case lumbre_span_finish s rb mp ctx min_ns maxq ts of
      None \<Rightarrow> marker_overruns rb (span_image (span_final s ts maxq))
    | Some (rc, s', rb', mp', ctx') \<Rightarrow>
        mp_ready mp' \<and> ctx' = ctx\<lparr>cx_current_parent_id := sp_parent_id s\<rparr> \<and>
        (if span_filtered s ts min_ns then rc = 1 \<and> rb' = rb
         else s' = span_final s ts maxq \<and>
          (if unat (mb_capacity mp) < length (span_image s') then rc = -1 \<and> rb' = rb
           else if ring_accepts rb (span_image s')
           then rc = 0 \<and> ring_holds rb' (ms @ [span_image s']) \<and> rb_dropped rb' = rb_dropped rb
           else rc = -1 \<and> ring_holds rb' ms \<and> rb_dropped rb' = rb_dropped rb + 1))"
  by (rule span_finish_spec [OF assms])

theorem span_finish_refines_witness:
  "\<exists>s' rb' mp' ctx'. lumbre_span_finish sample_span sample_ring sample_mp sample_ctx 0 6 (Timespec 11 0)
     = Some (-1, s', rb', mp', ctx') \<and> ring_holds rb' []"
proof -
  have len: "length (span_image (span_final sample_span (Timespec 11 0) 6)) = 74"
    by code_simp
  have "\<not> ring_accepts sample_ring (span_image (span_final sample_span (Timespec 11 0) 6))"
    by (simp add: ring_accepts_def ring_cost_def len sample_ring_def rb_size_def)
  moreover have "\<not> marker_overruns sample_ring (span_image (span_final sample_span (Timespec 11 0) 6))"
    by (simp add: marker_overruns_def len sample_ring_def rb_size_def)
  moreover have "\<not> span_filtered sample_span (Timespec 11 0) 0" by (simp add: span_filtered_def)
  ultimately show ?thesis
    using span_finish_refines [OF sample_span_ok sample_mp_ready sample_ring_holds,
        where ts = "Timespec 11 0" and maxq = 6 and ctx = sample_ctx and min_ns = 0]
    by (auto simp: len sample_mp_def split: option.splits)
qed

text \<open>
  Whatever happens between the start of a span and its finish, and whichever way the finish
  ends (recorded, filtered, encode overflow, ring full), the context's current parent is again
  the one the span was started under, and the finish changes nothing else in the context.
\<close>

theorem span_finish_restores_parent:
  assumes "lumbre_span_start type ctx ts0 = (span, ctx1)" and "sp_parent_id s = sp_parent_id span"
    and "lumbre_span_finish s rb mp ctx2 min_ns maxq ts = Some (rc, s', rb', mp', ctx3)"
  shows "ctx3 = ctx2\<lparr>cx_current_parent_id := cx_current_parent_id ctx\<rparr>"
proof -
  have p: "sp_parent_id span = cx_current_parent_id ctx"
    using assms(1) by (auto simp: lumbre_span_start_def Let_def)
  show ?thesis
    using assms(3) unfolding assms(2) [unfolded p, symmetric]
    by (auto simp: lumbre_span_finish_def Let_def bind_eq_Some_conv split: if_splits)
qed

theorem span_finish_restores_parent_witness:
  "\<exists>span ctx1 s' mp' ctx3. lumbre_span_start LUMBRE_SPAN_FUNC sample_ctx (Timespec 1 0) = (span, ctx1) \<and>
     cx_current_parent_id ctx1 = 2 \<and>
     lumbre_span_finish span sample_ring sample_mp ctx1 1000 6 (Timespec 1 30) = Some (1, s', sample_ring, mp', ctx3) \<and>
     cx_current_parent_id ctx3 = 1 \<and> cx_span_counter ctx3 = 3"
proof -
  obtain span ctx1 where s: "lumbre_span_start LUMBRE_SPAN_FUNC sample_ctx (Timespec 1 0) = (span, ctx1)"
    by (cases "lumbre_span_start LUMBRE_SPAN_FUNC sample_ctx (Timespec 1 0)")
  then have c: "cx_current_parent_id ctx1 = 2" "cx_span_counter ctx1 = 3"
    "sp_start_ns span = 1000000000" "sp_type span = LUMBRE_SPAN_FUNC"
    by (auto simp: lumbre_span_start_def sample_ctx_def Let_def lumbre_clock_ns_def)
  then obtain s' ctx3 where f: "lumbre_span_finish span sample_ring sample_mp ctx1 1000 6 (Timespec 1 30)
      = Some (1, s', sample_ring, sample_mp, ctx3)"
    by (simp add: lumbre_span_finish_def lumbre_clock_ns_def span_types)
  from span_finish_restores_parent [OF s refl f] s c f show ?thesis
    by (auto simp: sample_ctx_def)
qed

text \<open>
  A started span gets the next identifier, the current parent and the trace id; it becomes
  the current parent, the counter moves on, and it is recorded as root exactly when it has no
  parent. All payload fields are empty.
\<close>

theorem span_start_links:
  assumes "lumbre_span_start type ctx ts = (span, ctx')"
  shows "sp_type span = type \<and> sp_trace_id span = cx_trace_id ctx \<and>
    sp_span_id span = cx_span_counter ctx \<and> sp_parent_id span = cx_current_parent_id ctx \<and>
    cx_span_counter ctx' = cx_span_counter ctx + 1 \<and> cx_current_parent_id ctx' = sp_span_id span \<and>
    cx_root_span_id ctx' =
      (if cx_current_parent_id ctx = 0 then sp_span_id span else cx_root_span_id ctx) \<and>
    cx_active ctx' = cx_active ctx \<and> cx_trace_id ctx' = cx_trace_id ctx \<and>
    (length (cx_trace_id ctx) = 16 \<longrightarrow> span_ok span)"
  using assms
  by (auto simp: lumbre_span_start_def Let_def span_ok_def text_ok_def readable_def zero_span_def)

theorem span_start_links_witness:
  "\<exists>span ctx'. lumbre_span_start LUMBRE_SPAN_DB sample_ctx (Timespec 0 9) = (span, ctx') \<and>
     sp_span_id span = 2 \<and> sp_parent_id span = 1 \<and> cx_root_span_id ctx' = 1 \<and> span_ok span"
proof -
  obtain span ctx' where s: "lumbre_span_start LUMBRE_SPAN_DB sample_ctx (Timespec 0 9) = (span, ctx')"
    by (cases "lumbre_span_start LUMBRE_SPAN_DB sample_ctx (Timespec 0 9)")
  from span_start_links [OF s] s show ?thesis by (simp add: sample_ctx_def)
qed

text \<open>
  The clock reading in nanoseconds does not wrap before the year 2554 of the monotonic clock,
  and for a later reading the duration is the exact time between the two.
\<close>

theorem clock_duration_exact:
  assumes "s \<le> t" and "tv_sec t < 18446744073" and "tv_nsec s < 1000000000" and "tv_nsec t < 1000000000"
  shows "lumbre_clock_ns s \<le> lumbre_clock_ns t \<and>
    int (unat (lumbre_clock_ns t - lumbre_clock_ns s)) =
      (int (unat (tv_sec t)) - int (unat (tv_sec s))) * 1000000000 +
      (int (unat (tv_nsec t)) - int (unat (tv_nsec s)))"
proof -
  have ns: "unat (lumbre_clock_ns x) = unat (tv_sec x) * 1000000000 + unat (tv_nsec x)"
    if "tv_sec x < 18446744073" "tv_nsec x < 1000000000" for x
  proof -
    have "unat (tv_sec x) < 18446744073" "unat (tv_nsec x) < 1000000000"
      using that by (simp_all add: word_less_nat_alt)
    then show ?thesis by (simp add: lumbre_clock_ns_def unat_word_ariths)
  qed
  have "tv_sec s < 18446744073" using assms(1,2) by (auto simp: less_eq_timespec_def)
  note v = ns [OF this assms(3)] ns [OF assms(2,4)]
  have "unat (tv_sec s) < unat (tv_sec t) \<or> unat (tv_sec s) = unat (tv_sec t) \<and> unat (tv_nsec s) \<le> unat (tv_nsec t)"
    using assms(1) by (auto simp: less_eq_timespec_def word_less_nat_alt word_le_nat_alt)
  moreover have "unat (tv_nsec s) < 1000000000" using assms(3) by (simp add: word_less_nat_alt)
  ultimately have le: "unat (lumbre_clock_ns s) \<le> unat (lumbre_clock_ns t)" using v by auto
  then have "lumbre_clock_ns s \<le> lumbre_clock_ns t" by (simp add: word_le_nat_alt)
  moreover from this have "unat (lumbre_clock_ns t - lumbre_clock_ns s) =
      unat (lumbre_clock_ns t) - unat (lumbre_clock_ns s)"
    by (simp add: unat_sub)
  ultimately show ?thesis using v le by (simp add: of_nat_diff algebra_simps)
qed

theorem clock_duration_exact_witness:
  "int (unat (lumbre_clock_ns (Timespec 3 2) - lumbre_clock_ns (Timespec 2 999999999))) = 3"
  using clock_duration_exact [of "Timespec 2 999999999" "Timespec 3 2"]
  by (simp add: less_eq_timespec_def)

text \<open>A number that a message records under a key, as a reader of the ring finds it.\<close>

definition message_uint :: "string \<Rightarrow> bytes \<Rightarrow> u64 option" where
  "message_uint key m =
     (case dec_map m of
        Some (kvs, _) \<Rightarrow> (case map_of kvs (c_str key) of Some (MP_Uint v) \<Rightarrow> Some v | _ \<Rightarrow> None)
      | None \<Rightarrow> None)"

lemma message_ids:
  assumes "span_ok s"
  shows "message_uint ''sid'' (span_image s) = Some (sp_span_id s)"
    and "message_uint ''pid'' (span_image s) = Some (sp_parent_id s)"
  using dec_span [OF assms, of "[]"]
  by (simp_all add: message_uint_def span_fields_def common_fields_def c_str_def)

text \<open>
  C36: What the consumer reads of a database query: a database span whose query is set by
  \<^verbatim>\<open>lumbre_span_set_db\<close> and that \<^verbatim>\<open>lumbre_span_finish\<close> writes to the ring arrives as a message whose
  query is the prefix of the query that both limits allow, the one in force at the start of the call
  and the one in force at its end, in which zero means no query for the first and no limit for the second.
\<close>

theorem query_truncation:
  assumes q: "readable q n" and db: "sp_type s = LUMBRE_SPAN_DB"
    and ok: "span_ok (lumbre_span_set_db s q n db dbn rows maxq)" "mp_ready mp" "ring_holds rb ms"
    and finish: "lumbre_span_finish (lumbre_span_set_db s q n db dbn rows maxq) rb mp ctx min_ns maxq' ts =
      Some (0, s', rb', mp', ctx')"
  shows "\<exists>m kvs. ring_holds rb' (ms @ [m]) \<and> dec_map m = Some (kvs, []) \<and>
    map_of kvs (c_str ''q'') =
      Some (MP_Str (take (if maxq' = 0 then unat maxq else min (unat maxq) (unat maxq')) (payload q n)))"
proof -
  let ?s = "lumbre_span_set_db s q n db dbn rows maxq"
  have final: "s' = span_final ?s ts maxq'" "ring_holds rb' (ms @ [span_image s'])"
    using span_finish_spec [OF ok, where ctx = ctx and min_ns = min_ns and maxq = maxq' and ts = ts] unfolding finish by (auto split: if_splits)
  have "dec_map (span_image s') = Some (span_fields s', [])"
    using dec_span [OF span_final_ok [OF ok(1)], of ts maxq' "[]"] by (simp add: final(1))
  moreover have type: "sp_type s' = LUMBRE_SPAN_DB"
    using db by (simp add: final(1) span_final_def span_truncated_def span_timed_def lumbre_span_set_db_def)
  then have "map_of (span_fields s') (c_str ''q'') = Some (MP_Str (payload (sp_query s') (sp_query_len s')))"
    by (simp add: span_fields_def common_fields_def own_fields_def c_str_def span_types)
  moreover have "payload (sp_query s') (sp_query_len s') =
      take (if maxq' = 0 then unat maxq else min (unat maxq) (unat maxq')) (payload q n)"
    using q type unfolding final(1) span_final_if
    by (auto simp: lumbre_span_set_db_def span_timed_def readable_def payload_def min_def word_less_nat_alt
        word_gt_0 unsigned_eq_0_iff split: option.splits if_splits)
  ultimately show ?thesis using final(2) by auto
qed

definition sample_ring128 :: lumbre_ringbuf_t where
  "sample_ring128 = sample_ring\<lparr>rb_header := Some (fresh_header 128 4242 0), rb_data := replicate 128 0,
     rb_capacity := 128, rb_mask := 127\<rparr>"

lemma sample_ring128_holds: "ring_holds sample_ring128 []"
  by (simp add: sample_ring128_def sample_ring_def ring_holds_def rb_wf_def LUMBRE_IS_POWER_OF_TWO_def
      rb_used_def rb_read_pos_def rb_write_pos_def fresh_header_def rb_size_def)

theorem query_truncation_witness:
  "\<exists>s' rb' mp' ctx' m kvs. lumbre_span_finish sample_span sample_ring128 sample_mp sample_ctx 0 4 (Timespec 11 0) =
       Some (0, s', rb', mp', ctx') \<and>
     ring_holds rb' [m] \<and> dec_map m = Some (kvs, []) \<and> map_of kvs (c_str ''q'') = Some (MP_Str (c_str ''SELE''))"
proof -
  let ?s0 = "fst (lumbre_span_start LUMBRE_SPAN_DB sample_ctx (Timespec 10 5))"
  let ?img = "span_image (span_final sample_span (Timespec 11 0) 4)"
  have span: "sample_span = lumbre_span_set_db ?s0 (Some (c_str ''SELECT 1'')) 8 (Some (c_str ''pdo'')) 3 0 6"
    by (simp add: sample_span_def)
  have len: "length ?img = 72" by code_simp
  have "ring_accepts sample_ring128 ?img"
    by (simp add: ring_accepts_def ring_cost_def len sample_ring128_def sample_ring_def rb_size_def rb_offset_def
        rb_used_def rb_read_pos_def fresh_header_def)
  moreover have "\<not> marker_overruns sample_ring128 ?img"
    by (simp add: marker_overruns_def len sample_ring128_def sample_ring_def rb_size_def rb_offset_def)
  ultimately obtain s' rb' mp' ctx' where finish:
    "lumbre_span_finish sample_span sample_ring128 sample_mp sample_ctx 0 4 (Timespec 11 0) = Some (0, s', rb', mp', ctx')"
    using span_finish_cases [OF sample_span_ok sample_mp_ready, of "Timespec 11 0" 0 sample_ring128 sample_ctx 4]
      ring_put_refines [OF sample_ring128_holds, of ?img]
    by (auto simp: len sample_mp_def ring_payload_def span_filtered_def split: option.splits)
  have "sp_type ?s0 = LUMBRE_SPAN_DB" by (simp add: lumbre_span_start_def Let_def)
  moreover have "readable (Some (c_str ''SELECT 1'')) 8" by (simp add: readable_def)
  ultimately obtain m kvs where "ring_holds rb' [m]" "dec_map m = Some (kvs, [])"
    "map_of kvs (c_str ''q'') = Some (MP_Str (c_str ''SELE''))"
    using query_truncation [OF _ _ sample_span_ok [unfolded span] sample_mp_ready
        sample_ring128_holds finish [unfolded span]]
    by (auto simp: payload_def c_str_def)
  with finish show ?thesis by blast
qed

end
