(* ===== verification/Lumbre_Whitelist_Correct.thy ===== *)
theory Lumbre_Whitelist_Correct
  imports Lumbre_Whitelist
begin

text \<open>
  Correctness of the whitelist: the initialisation and every lookup terminate, and a lookup finds
  exactly the static entry with the same canonical key.
\<close>

subsection \<open>The probing loops\<close>

definition ekey :: "lumbre_whitelist_entry_t \<Rightarrow> bytes" where
  "ekey e = (case entry_key e of None \<Rightarrow> [] | Some k \<Rightarrow> k)"

definition key_home :: "bytes \<Rightarrow> nat" where
  "key_home k = unat (lumbre_fnv1a k AND LUMBRE_WHITELIST_MASK)"

text \<open>An entry as the initialisation makes it: with the hash of its own key.\<close>

definition good_entry :: "lumbre_whitelist_entry_t \<Rightarrow> bool" where
  "good_entry e \<longleftrightarrow> we_occupied e \<and> entry_key e \<noteq> None \<and> ekey e \<noteq> [] \<and>
     we_key_hash e = lumbre_fnv1a (ekey e)"

interpretation wl_table: open_table we_occupied ekey key_home 64
  by unfold_locales simp

lemma masked_slot: "unat (w AND LUMBRE_WHITELIST_MASK) = unat w mod 64"
proof -
  have "w AND LUMBRE_WHITELIST_MASK = take_bit 6 w"
    by (simp add: LUMBRE_WHITELIST_MASK_def take_bit_eq_mask mask_eq_exp_minus_1)
  then show ?thesis by (simp only: unsigned_take_bit_eq) (simp add: take_bit_eq_mod)
qed

lemma next_slot:
  assumes "unat slot < 64"
  shows "unat ((slot + 1) AND LUMBRE_WHITELIST_MASK) = Suc (unat slot) mod 64"
proof -
  have "unat (slot + 1) = Suc (unat slot)" using assms by (simp add: unat_plus)
  then show ?thesis by (simp only: masked_slot)
qed

lemma wl_empty_slot_finds:
  assumes "chain we_occupied wl (unat slot) d" and "\<not> we_occupied (wl ! ((unat slot + d) mod 64))"
    and "length wl = 64" and "unat slot < 64"
  shows "\<exists>r. wl_empty_slot wl slot = Some r \<and> unat r = (unat slot + d) mod 64"
  using assms
proof (induction d arbitrary: slot)
  case 0
  then show ?case by (simp add: wl_empty_slot.simps [of wl slot])
next
  case (Suc d)
  let ?next = "(slot + 1) AND LUMBRE_WHITELIST_MASK"
  have nx: "unat ?next = Suc (unat slot) mod 64" using Suc.prems(4) by (rule next_slot)
  have "we_occupied (wl ! unat slot)" "chain we_occupied wl (Suc (unat slot)) d"
    using Suc.prems by (simp_all add: chain_Suc)
  moreover from this(2) have "chain we_occupied wl (unat ?next) d"
    using chain_mod [of we_occupied wl "Suc (unat slot)" d] Suc.prems(3) nx by simp
  moreover have "(unat ?next + d) mod 64 = (unat slot + Suc d) mod 64"
    using nx by (simp only: mod_add_left_eq) simp
  ultimately show ?case
    using Suc.IH [of ?next] Suc.prems(2,3) nx by (simp add: wl_empty_slot.simps [of wl slot])
qed

lemma wl_probe_result:
  assumes "chain we_occupied wl (unat slot) d"
    and "\<forall>j < d. ekey (wl ! ((unat slot + j) mod 64)) \<noteq> key"
    and "\<forall>i < 64. we_occupied (wl ! i) \<longrightarrow> good_entry (wl ! i)"
    and "length wl = 64" and "unat slot < 64"
  shows "let e = wl ! ((unat slot + d) mod 64) in
    (\<not> we_occupied e \<longrightarrow> wl_probe wl key (lumbre_fnv1a key) slot = Some None) \<and>
    (we_occupied e \<and> ekey e = key \<longrightarrow> wl_probe wl key (lumbre_fnv1a key) slot = Some (Some e))"
  using assms
proof (induction d arbitrary: slot)
  case 0
  then show ?case
    by (auto simp: wl_probe.simps [of wl key "lumbre_fnv1a key" slot] good_entry_def ekey_def Let_def)
next
  case (Suc d)
  let ?next = "(slot + 1) AND LUMBRE_WHITELIST_MASK"
  have nx: "unat ?next = Suc (unat slot) mod 64" using Suc.prems(5) by (rule next_slot)
  have occ: "we_occupied (wl ! unat slot)" "chain we_occupied wl (Suc (unat slot)) d"
    using Suc.prems by (simp_all add: chain_Suc)
  then have "chain we_occupied wl (unat ?next) d"
    using chain_mod [of we_occupied wl "Suc (unat slot)" d] Suc.prems(4) nx by simp
  moreover have shift: "(unat ?next + j) mod 64 = (unat slot + Suc j) mod 64" for j
    using nx by (simp only: mod_add_left_eq) simp
  moreover have "\<forall>j < d. ekey (wl ! ((unat ?next + j) mod 64)) \<noteq> key"
    using Suc.prems(2) by (auto simp only: shift Suc_less_eq)
  ultimately have IH: "let e = wl ! ((unat slot + Suc d) mod 64) in
      (\<not> we_occupied e \<longrightarrow> wl_probe wl key (lumbre_fnv1a key) ?next = Some None) \<and>
      (we_occupied e \<and> ekey e = key \<longrightarrow> wl_probe wl key (lumbre_fnv1a key) ?next = Some (Some e))"
    using Suc.IH [of ?next] Suc.prems(3,4) nx by simp
  have "good_entry (wl ! unat slot)" using occ(1) Suc.prems(3,5) by blast
  moreover have "ekey (wl ! unat slot) \<noteq> key" using Suc.prems(2,5) by (auto dest: spec [of _ 0])
  ultimately have "wl_probe wl key (lumbre_fnv1a key) slot = wl_probe wl key (lumbre_fnv1a key) ?next"
    using occ(1)
    by (subst wl_probe.simps) (auto simp: good_entry_def ekey_def Let_def)
  with IH show ?case by simp
qed

subsection \<open>Building the table\<close>

definition static_key :: "lumbre_wl_static_entry_t \<Rightarrow> bytes" where
  "static_key src =
     (case lumbre_wl_build_key (se_class_name src) (ucast (se_class_len src))
             (Some (se_func_name src)) (ucast (se_func_len src)) of None \<Rightarrow> [] | Some k \<Rightarrow> k)"

definition static_entry :: "lumbre_wl_static_entry_t \<Rightarrow> lumbre_whitelist_entry_t" where
  "static_entry src =
     \<lparr>we_class_name = se_class_name src, we_class_len = se_class_len src,
      we_func_name = Some (se_func_name src), we_func_len = se_func_len src,
      we_span_type = se_span_type src, we_key_hash = lumbre_fnv1a (static_key src), we_occupied = True\<rparr>"

lemma ekey_static [simp]: "ekey (static_entry src) = static_key src"
  by (simp add: ekey_def entry_key_def static_entry_def static_key_def)

lemma static_entry_occupied: "we_occupied (static_entry src)"
  by (simp add: static_entry_def)

lemma static_key_build:
  "static_key src \<noteq> [] \<Longrightarrow>
   lumbre_wl_build_key (se_class_name src) (ucast (se_class_len src))
     (Some (se_func_name src)) (ucast (se_func_len src)) = Some (static_key src)"
  by (simp add: static_key_def split: option.splits)

lemma static_entry_good: "static_key src \<noteq> [] \<Longrightarrow> good_entry (static_entry src)"
  using static_key_build [of src]
  by (simp add: good_entry_def entry_key_def) (simp add: static_entry_def)

lemma wl_insert_table:
  assumes "table_of we_occupied (\<lambda>e. key_home (ekey e)) wl es" and "length wl = 64"
    and "length es < 64" and "static_key src \<noteq> []"
  shows "\<exists>wl'. wl_insert wl src = Some wl' \<and> length wl' = 64 \<and>
    table_of we_occupied (\<lambda>e. key_home (ekey e)) wl' (es @ [static_entry src])"
proof -
  let ?e = "static_entry src" and ?k = "static_key src"
  let ?home = "lumbre_fnv1a ?k AND LUMBRE_WHITELIST_MASK"
  have home: "unat ?home = key_home ?k" "unat ?home < 64"
    by (simp_all add: key_home_def masked_slot)
  obtain d where d: "d < 64" "chain we_occupied wl (key_home ?k) d"
    "\<not> we_occupied (wl ! ((key_home ?k + d) mod 64))"
    using wl_table.free_slot [OF assms(1-3)] by blast
  then obtain r where r: "wl_empty_slot wl ?home = Some r" "unat r = (key_home ?k + d) mod 64"
    using wl_empty_slot_finds [of wl ?home d] home assms(2) by auto
  have "wl_insert wl src = Some (wl[unat r := ?e])"
    using assms(4) r(1)
    by (simp add: wl_insert_def static_key_build static_entry_def Let_def)
  moreover have "table_of we_occupied (\<lambda>e. key_home (ekey e)) (wl[unat r := ?e]) (es @ [?e])"
    using wl_table.insert_entry [OF assms(1,2), of d ?e] d r(2) static_entry_occupied by simp
  ultimately show ?thesis using assms(2) by simp
qed

lemma wl_insert_all_table:
  assumes "table_of we_occupied (\<lambda>e. key_home (ekey e)) wl es" and "length wl = 64"
    and "length es + length srcs \<le> 64" and "list_all (\<lambda>src. static_key src \<noteq> []) srcs"
  shows "\<exists>wl'. wl_insert_all wl srcs = Some wl' \<and> length wl' = 64 \<and>
    table_of we_occupied (\<lambda>e. key_home (ekey e)) wl' (es @ map static_entry srcs)"
  using assms
proof (induction srcs arbitrary: wl es)
  case Nil
  then show ?case by simp
next
  case (Cons src srcs)
  then obtain wl1 where wl1: "wl_insert wl src = Some wl1" "length wl1 = 64"
    "table_of we_occupied (\<lambda>e. key_home (ekey e)) wl1 (es @ [static_entry src])"
    using wl_insert_table [of wl es src] by auto
  from Cons.IH [OF wl1(3,2)] Cons.prems(3,4) wl1(1) show ?case by auto
qed

lemma static_table_keys:
  "list_all (\<lambda>src. static_key src \<noteq> []) lumbre_wl_static_table"
  "distinct (map static_key lumbre_wl_static_table)"
  "length lumbre_wl_static_table = 22"
  by code_simp+

lemma whitelist_table:
  "\<exists>wl. lumbre_whitelist_init = Some wl \<and> length wl = 64 \<and>
     table_of we_occupied (\<lambda>e. key_home (ekey e)) wl (map static_entry lumbre_wl_static_table)"
proof -
  have "table_of we_occupied (\<lambda>e. key_home (ekey e)) zero_table []"
    by (simp add: table_of_def zero_table_def zero_entry_def)
  from wl_insert_all_table [OF this _ _ static_table_keys(1)] static_table_keys(3) show ?thesis
    by (simp add: lumbre_whitelist_init_def zero_table_def LUMBRE_WHITELIST_SIZE_def)
qed

subsection \<open>Looking up\<close>

lemma find_distinct:
  "distinct (map f xs) \<Longrightarrow> x \<in> set xs \<Longrightarrow> f x = k \<Longrightarrow> List.find (\<lambda>y. f y = k) xs = Some x"
  by (induction xs) auto

lemma wl_probe_table:
  assumes "lumbre_whitelist_init = Some wl" and "key \<noteq> []"
  shows "wl_probe wl key (lumbre_fnv1a key) (lumbre_fnv1a key AND LUMBRE_WHITELIST_MASK) =
    Some (map_option static_entry (List.find (\<lambda>s. static_key s = key) lumbre_wl_static_table))"
proof -
  let ?es = "map static_entry lumbre_wl_static_table"
  let ?home = "lumbre_fnv1a key AND LUMBRE_WHITELIST_MASK"
  have len: "length wl = 64" and table: "table_of we_occupied (\<lambda>e. key_home (ekey e)) wl ?es"
    using whitelist_table unfolding assms(1) by simp_all
  have "length ?es < 64" by (simp add: static_table_keys)
  from wl_table.lookup_stops [OF table len this, of key] obtain d where
    d: "chain we_occupied wl (key_home key) d"
      "\<forall>j < d. ekey (wl ! ((key_home key + j) mod 64)) \<noteq> key"
      "let e = wl ! ((key_home key + d) mod 64)
       in e \<in> set ?es \<and> ekey e = key \<and> we_occupied e \<or> \<not> we_occupied e \<and> key \<notin> ekey ` set ?es"
    by blast
  have good: "\<forall>i < 64. we_occupied (wl ! i) \<longrightarrow> good_entry (wl ! i)"
    using table len static_table_keys(1)
    by (auto simp: table_of_def list_all_iff dest!: spec intro!: static_entry_good)
  have home: "unat ?home = key_home key" "unat ?home < 64"
    by (simp_all add: key_home_def masked_slot)
  define e where "e = wl ! ((key_home key + d) mod 64)"
  have r: "(\<not> we_occupied e \<longrightarrow> wl_probe wl key (lumbre_fnv1a key) ?home = Some None) \<and>
    (we_occupied e \<and> ekey e = key \<longrightarrow> wl_probe wl key (lumbre_fnv1a key) ?home = Some (Some e))"
    using wl_probe_result [of wl ?home d key] d(1,2) good len home by (simp add: Let_def e_def)
  from d(3) consider "e \<in> set ?es" "ekey e = key" "we_occupied e"
    | "\<not> we_occupied e" "key \<notin> ekey ` set ?es"
    by (auto simp: Let_def e_def)
  then show ?thesis
  proof cases
    case 1
    then obtain src where "src \<in> set lumbre_wl_static_table" "e = static_entry src" by auto
    with 1 r find_distinct [OF static_table_keys(2), of src key] show ?thesis by simp
  next
    case 2
    then have "List.find (\<lambda>s. static_key s = key) lumbre_wl_static_table = None"
      by (auto simp: find_None_iff image_image)
    with 2 r show ?thesis by simp
  qed
qed

lemma whitelist_match_static:
  assumes "lumbre_whitelist_init = Some wl"
    and "lumbre_wl_build_key class_name class_len func_name func_len = Some key"
  shows "lumbre_whitelist_match wl class_name class_len func_name func_len =
    Some (if key = [] then None
          else map_option static_entry (List.find (\<lambda>s. static_key s = key) lumbre_wl_static_table))"
  using assms wl_probe_table [OF assms(1), of key] by (simp add: lumbre_whitelist_match_def Let_def)

subsection \<open>Properties\<close>

text \<open>
  Names as the Zend engine passes them: each with its own length. The canonical key they stand for.
\<close>

definition name_len :: "bytes option \<Rightarrow> u64" where
  "name_len name = (case name of None \<Rightarrow> 0 | Some s \<Rightarrow> of_nat (length s))"

definition wl_lookup ::
  "lumbre_whitelist_t \<Rightarrow> bytes option \<Rightarrow> bytes \<Rightarrow> lumbre_whitelist_entry_t option option" where
  "wl_lookup wl cls func =
     lumbre_whitelist_match wl cls (name_len cls) (Some func) (name_len (Some func))"

definition canonical :: "bytes option \<Rightarrow> bytes \<Rightarrow> bytes" where
  "canonical cls func =
     (case cls of
        None \<Rightarrow> map wl_lower func
      | Some c \<Rightarrow> if c = [] then map wl_lower func
                  else map wl_lower c @ c_str ''::'' @ map wl_lower func)"

definition name_ok :: "bytes option \<Rightarrow> bool" where
  "name_ok name \<longleftrightarrow> (case name of None \<Rightarrow> True | Some s \<Rightarrow> length s < 4611686018427387904)"

lemma build_key_canonical:
  assumes "name_ok cls" and "name_ok (Some func)"
  shows "lumbre_wl_build_key cls (name_len cls) (Some func) (name_len (Some func)) =
    Some (if 128 \<le> length (canonical cls func) then [] else canonical cls func)"
proof -
  have func: "unat (of_nat (length func) :: u64) = length func"
    using assms(2) by (simp add: name_ok_def unat_of_nat)
  show ?thesis
  proof (cases "cls = None \<or> cls = Some []")
    case True
    then show ?thesis
      using func
      by (auto simp: lumbre_wl_build_key_def name_len_def read_name_def mem_load_def canonical_def
          word_le_nat_alt)
  next
    case False
    then obtain c where c: "cls = Some c" "c \<noteq> []" by auto
    have len: "unat (of_nat (length c) :: u64) = length c"
      using assms(1) c(1) by (simp add: name_ok_def unat_of_nat)
    then have pos: "0 < (of_nat (length c) :: u64)"
      using c(2) by (simp add: word_less_nat_alt)
    have "length c < 4611686018427387904" "length func < 4611686018427387904"
      using assms c(1) by (simp_all add: name_ok_def)
    then have "unat (of_nat (length c) + 2 + of_nat (length func) :: u64) = length c + 2 + length func"
      using len func by (simp add: unat_plus)
    then show ?thesis
      using c pos len func
      by (simp add: lumbre_wl_build_key_def name_len_def read_name_def mem_load_def canonical_def
          word_le_nat_alt c_str_def)
  qed
qed

lemma static_keys_short: "list_all (\<lambda>s. length (static_key s) < 128) lumbre_wl_static_table"
  by code_simp

lemma whitelist_lookup:
  assumes "lumbre_whitelist_init = Some wl" and "name_ok cls" and "name_ok (Some func)"
  shows "wl_lookup wl cls func =
    Some (map_option static_entry
      (List.find (\<lambda>s. static_key s = canonical cls func) lumbre_wl_static_table))"
proof -
  have none: "List.find (\<lambda>s. static_key s = canonical cls func) lumbre_wl_static_table = None"
    if "128 \<le> length (canonical cls func) \<or> canonical cls func = []"
    using that static_keys_short static_table_keys(1)
    by (fastforce simp: find_None_iff list_all_iff)
  show ?thesis
    unfolding wl_lookup_def
      whitelist_match_static [OF assms(1) build_key_canonical [OF assms(2,3)]]
    using none by auto
qed

text \<open>
  C27: The initialisation of the whitelist terminates; afterwards the occupied slots hold exactly
  the entries of the static table, each with the hash of its canonical key, and each reachable
  from its home slot over occupied slots.
\<close>

theorem whitelist_init_complete:
  "\<exists>wl. lumbre_whitelist_init = Some wl \<and> length wl = LUMBRE_WHITELIST_SIZE \<and>
     set (filter we_occupied wl) = static_entry ` set lumbre_wl_static_table \<and>
     list_all (\<lambda>s. stored we_occupied wl (key_home (static_key s)) (static_entry s)) lumbre_wl_static_table"
proof -
  obtain wl where wl: "lumbre_whitelist_init = Some wl" "length wl = 64"
    "table_of we_occupied (\<lambda>e. key_home (ekey e)) wl (map static_entry lumbre_wl_static_table)"
    using whitelist_table by blast
  have "static_entry s \<in> set (filter we_occupied wl)" if s: "s \<in> set lumbre_wl_static_table" for s
  proof -
    obtain d where "wl ! ((key_home (static_key s) + d) mod 64) = static_entry s"
      using wl s by (auto simp: table_of_def stored_def)
    then have "static_entry s \<in> set wl" using wl(2) by (metis mod_less_divisor nth_mem zero_less_numeral)
    then show ?thesis by (simp add: static_entry_occupied)
  qed
  moreover have "set (filter we_occupied wl) \<subseteq> static_entry ` set lumbre_wl_static_table"
    using wl(2,3) by (auto simp: table_of_def in_set_conv_nth)
  ultimately show ?thesis
    using wl by (auto simp: LUMBRE_WHITELIST_SIZE_def table_of_def list_all_iff)
qed

text \<open>
  C24: For every class and function name, of any length and in any mix of cases, the lookup
  terminates and returns the entry of the static table with the same canonical key, or NULL when
  there is none.
\<close>

theorem whitelist_lookup_exact:
  assumes "lumbre_whitelist_init = Some wl" and "name_ok cls" and "name_ok (Some func)"
  shows "wl_lookup wl cls func =
    Some (map_option static_entry
      (List.find (\<lambda>s. static_key s = canonical cls func) lumbre_wl_static_table))"
  using assms by (rule whitelist_lookup)

theorem whitelist_lookup_exact_witness:
  "\<exists>wl e. lumbre_whitelist_init = Some wl \<and>
     wl_lookup wl (Some (c_str ''pDo'')) (c_str ''EXECUTE'') = Some (Some e) \<and> we_span_type e = LUMBRE_SPAN_DB"
proof -
  obtain wl where wl: "lumbre_whitelist_init = Some wl" using whitelist_table by blast
  have ok: "name_ok (Some (c_str ''pDo''))" "name_ok (Some (c_str ''EXECUTE''))"
    by (simp_all add: name_ok_def)
  have "map_option we_span_type (map_option static_entry (List.find (\<lambda>s. static_key s =
      canonical (Some (c_str ''pDo'')) (c_str ''EXECUTE'')) lumbre_wl_static_table)) = Some LUMBRE_SPAN_DB"
    by code_simp
  with whitelist_lookup_exact [OF wl ok] wl show ?thesis by auto
qed

lemma build_key_case:
  assumes "map wl_lower c = map wl_lower c'" and "map wl_lower f = map wl_lower f'"
  shows "lumbre_wl_build_key (Some c) n (Some f) m = lumbre_wl_build_key (Some c') n (Some f') m"
proof -
  have "length c = length c'" "length f = length f'"
    using assms by (auto dest: map_eq_imp_length_eq)
  moreover have "map wl_lower (take k c) = map wl_lower (take k c')"
    "map wl_lower (take k f) = map wl_lower (take k f')" for k
    using assms by (simp_all flip: take_map)
  ultimately show ?thesis
    unfolding lumbre_wl_build_key_def read_name_def mem_load_def by auto
qed

text \<open>
  A lookup ignores case, as PHP does: names that agree up to ASCII case get the same answer,
  from any table and at any stage of its construction.
\<close>

theorem whitelist_case_insensitive:
  assumes "map wl_lower c = map wl_lower c'" and "map wl_lower f = map wl_lower f'"
  shows "wl_lookup wl (Some c) f = wl_lookup wl (Some c') f'"
proof -
  have "length c = length c'" "length f = length f'"
    using assms by (auto dest: map_eq_imp_length_eq)
  then show ?thesis
    by (simp only: wl_lookup_def lumbre_whitelist_match_def name_len_def option.case
        build_key_case [OF assms])
qed

theorem whitelist_case_insensitive_witness:
  "wl_lookup zero_table (Some (c_str ''REDIS'')) (c_str ''MGet'') =
     wl_lookup zero_table (Some (c_str ''redis'')) (c_str ''mget'')"
  by (rule whitelist_case_insensitive) code_simp+

text \<open>
  The key never overruns its 128-byte buffer, and its NUL would fit too.
\<close>

theorem build_key_bounded:
  assumes "lumbre_wl_build_key cls clen func flen = Some key"
    and "unat clen < 9223372036854775808" and "unat flen < 9223372036854775806"
  shows "length key < 128"
proof -
  have "unat (clen + 2 + flen) = unat clen + 2 + unat flen"
    using assms(2,3) by (simp add: unat_plus)
  then show ?thesis
    using assms(1)
    by (auto simp: lumbre_wl_build_key_def read_name_def bind_eq_Some_conv word_le_nat_alt
        dest!: mem_load_length split: if_splits option.splits)
qed

theorem build_key_bounded_witness:
  "\<exists>key. lumbre_wl_build_key None 0 (Some (c_str ''fopen'')) 5 = Some key \<and> length key < 128"
proof -
  obtain key where "lumbre_wl_build_key None 0 (Some (c_str ''fopen'')) 5 = Some key"
    by (simp add: lumbre_wl_build_key_def read_name_def mem_load_def)
  moreover from build_key_bounded [OF this] have "length key < 128" by simp
  ultimately show ?thesis by blast
qed

end
