(* ===== verification/Lumbre_Module.thy ===== *)
theory Lumbre_Module
  imports Lumbre_Span_Correct Lumbre_Whitelist_Correct Lumbre_Ringbuf_Lifecycle
begin

text \<open>
  The module layer of \<^verbatim>\<open>php_lumbre.c\<close>: the module globals, the configuration handler, the
  parsers of the request headers, and the five lifecycle functions. What PHP and the operating
  system provide to a request (\<^verbatim>\<open>$_SERVER\<close>, the SAPI's request info, the allocator, the random
  source, the process id) is the record \<open>php_request\<close>; C strings are their characters up to
  the NUL; a \<^verbatim>\<open>zend_long\<close> is a 64-bit word. The state that outlives a call is \<open>php_state\<close>:
  the globals, the time the monotonic clock shows, the worker counter, the system calls made, the
  number of warnings raised, what the script has printed, and, call by call, the function that the
  call finally reached, Zend's or another extension's, with the frame it got.
\<close>

subsection \<open>Module globals\<close>

text \<open>
  The serialisation storage is what \<^verbatim>\<open>mp_buf.buf\<close> points to, so its bytes are those of the
  buffer; \<open>g_mp_storage\<close> says whether the pointer to it is set.
\<close>

record lumbre_globals =
  g_enabled :: bool
  g_mode :: u64
  g_shm_dir :: "bytes option"
  g_buffer_size :: u64
  g_trigger_header :: "bytes option"
  g_max_query_len :: u64
  g_min_duration_ns :: u64
  g_trace_namespaces :: "bytes option"
  g_ringbuf :: lumbre_ringbuf_t
  g_ringbuf_initialized :: int
  g_mp_buf :: lumbre_msgpack_buf
  g_mp_storage :: bool
  g_ctx :: lumbre_context_t
  g_root_span :: lumbre_span_t
  g_whitelist :: lumbre_whitelist_t
  g_worker_id :: u64

subsection \<open>What the engine hands to the module\<close>

datatype zval = Zval_string bytes | Zval_array "(bytes \<times> zval) list" | Zval_other u8

text \<open>The frame of a call.\<close>

record zend_function =
  zf_function_name :: "bytes option"
  zf_scope_name :: "bytes option"
  zf_is_user :: bool
  zf_filename :: "bytes option"

record zend_execute_data =
  ed_func :: "zend_function option"
  ed_args :: "zval list"
  ed_opline :: "u32 option"

text \<open>The functions that Zend's two hook pointers can point to.\<close>

datatype zend_fn =
    Zend_execute_internal
  | Zend_execute_ex
  | Lumbre_execute_internal
  | Lumbre_execute_ex
  | Other_extension nat

subsection \<open>The state\<close>

record php_state =
  ps_lumbre :: lumbre_globals
  ps_now :: timespec
  ps_worker_counter :: u64
  ps_calls :: "os_call list"
  ps_warnings :: nat
  ps_output :: bytes
  ps_reached :: "(zend_fn \<times> zend_execute_data) list"

definition LUMBRE_MSGPACK_BUF_SIZE :: u64 where "LUMBRE_MSGPACK_BUF_SIZE = 16384"

definition zero_globals :: lumbre_globals where
  "zero_globals =
     \<lparr>g_enabled = False, g_mode = 0, g_shm_dir = None, g_buffer_size = 0, g_trigger_header = None,
      g_max_query_len = 0, g_min_duration_ns = 0, g_trace_namespaces = None,
      g_ringbuf = null_ring, g_ringbuf_initialized = 0,
      g_mp_buf = \<lparr>mb_buf = [], mb_capacity = 0, mb_pos = 0\<rparr>, g_mp_storage = False,
      g_ctx = \<lparr>cx_trace_id = replicate 16 0, cx_root_span_id = 0, cx_current_parent_id = 0,
               cx_span_counter = 0, cx_active = 0, cx_full_trace = 0\<rparr>,
      g_root_span = zero_span, g_whitelist = zero_table, g_worker_id = 0\<rparr>"

subsection \<open>Parsing helpers\<close>

text \<open>One hexadecimal character, as both halves of the loop body read it.\<close>

definition hex_digit :: "u8 \<Rightarrow> u32 option" where
  "hex_digit c =
     (if 48 \<le> c \<and> c \<le> 57 then Some (ucast (c - 48))
      else if 97 \<le> c \<and> c \<le> 102 then Some (ucast (c - 97) + 10)
      else if 65 \<le> c \<and> c \<le> 70 then Some (ucast (c - 65) + 10)
      else None)"

text \<open>The loop from index \<open>i\<close> with \<open>n\<close> output bytes to go.\<close>

fun hex_loop :: "bytes \<Rightarrow> bytes \<Rightarrow> nat \<Rightarrow> nat \<Rightarrow> (int \<times> bytes) option" where
  "hex_loop hex out i 0 = Some (0, out)"
| "hex_loop hex out i (Suc n) = do {
     c \<leftarrow> mem_load hex (i * 2) 1;
     (case hex_digit (hd c) of
        None \<Rightarrow> Some (-1, out)
      | Some hi \<Rightarrow> do {
          c \<leftarrow> mem_load hex (i * 2 + 1) 1;
          (case hex_digit (hd c) of
             None \<Rightarrow> Some (-1, out)
           | Some lo \<Rightarrow> do {
               out \<leftarrow> mem_store out i [ucast (push_bit 4 hi OR lo)];
               hex_loop hex out (Suc i) n }) }) }"

definition lumbre_hex_to_bin :: "bytes \<Rightarrow> u64 \<Rightarrow> bytes \<Rightarrow> u64 \<Rightarrow> (int \<times> bytes) option" where
  "lumbre_hex_to_bin hex hex_len out out_len =
     (if hex_len \<noteq> out_len * 2 then Some (-1, out) else hex_loop hex out 0 (unat out_len))"

text \<open>
  \<^verbatim>\<open>strtol\<close> in base ten, as \<^verbatim>\<open>ZEND_STRTOL\<close> calls it: leading white space, an optional sign,
  as many digits as follow, saturating; 0 when there is no digit.
\<close>

definition c_strtol :: "bytes \<Rightarrow> u64" where
  "c_strtol s =
     (let s = dropWhile (\<lambda>c. c = 32 \<or> 9 \<le> c \<and> c \<le> 13) (takeWhile (\<lambda>c. c \<noteq> 0) s);
          neg = (s \<noteq> [] \<and> hd s = 45);
          s = (if s \<noteq> [] \<and> (hd s = 45 \<or> hd s = 43) then tl s else s);
          n = foldl (\<lambda>a d. 10 * a + (uint d - 48)) 0 (takeWhile (\<lambda>c. 48 \<le> c \<and> c \<le> 57) s)
      in word_of_int (if neg then max (- (2 ^ 63)) (- n) else min (2 ^ 63 - 1) n))"

text \<open>The update handler of \<^verbatim>\<open>lumbre.mode\<close>; true is \<^verbatim>\<open>SUCCESS\<close>.\<close>

definition lumbre_OnUpdateMode :: "bytes \<Rightarrow> lumbre_globals \<Rightarrow> bool \<times> lumbre_globals" where
  "lumbre_OnUpdateMode new_value g =
     (if new_value = c_str ''io'' then (True, g\<lparr>g_mode := 0\<rparr>)
      else if new_value = c_str ''full'' then (True, g\<lparr>g_mode := 1\<rparr>)
      else
        let val = c_strtol new_value
        in if val = 0 \<or> val = 1 then (True, g\<lparr>g_mode := val\<rparr>) else (False, g))"

subsection \<open>Configuration entries\<close>

text \<open>
  The table between \<^verbatim>\<open>PHP_INI_BEGIN\<close> and \<^verbatim>\<open>PHP_INI_END\<close>: name, default, who may change it, and
  the handler that stores a new value. How PHP reads a boolean and a number is a parameter; its
  \<^verbatim>\<open>OnUpdate\<close> handlers store what was read into the field and succeed. A string is stored as the
  pointer to its characters, which end at the first NUL for the code that reads the field.
\<close>

datatype ini_access = PHP_INI_ALL | PHP_INI_SYSTEM

record ini_parsers =
  zend_ini_parse_bool :: "bytes \<Rightarrow> bool"
  zend_ini_parse_long :: "bytes \<Rightarrow> u64"

type_synonym ini_handler = "ini_parsers \<Rightarrow> bytes \<Rightarrow> lumbre_globals \<Rightarrow> bool \<times> lumbre_globals"

datatype ini_entry =
  Ini_entry (ini_name: bytes) (ini_default: bytes) (ini_modifiable: ini_access) (ini_handle: ini_handler)

definition OnUpdateBool :: "(bool \<Rightarrow> lumbre_globals \<Rightarrow> lumbre_globals) \<Rightarrow> ini_handler" where
  "OnUpdateBool set_field P v g = (True, set_field (zend_ini_parse_bool P v) g)"

definition OnUpdateLong :: "(u64 \<Rightarrow> lumbre_globals \<Rightarrow> lumbre_globals) \<Rightarrow> ini_handler" where
  "OnUpdateLong set_field P v g = (True, set_field (zend_ini_parse_long P v) g)"

definition OnUpdateString :: "(bytes option \<Rightarrow> lumbre_globals \<Rightarrow> lumbre_globals) \<Rightarrow> ini_handler" where
  "OnUpdateString set_field P v g = (True, set_field (Some (takeWhile (\<lambda>c. c \<noteq> 0) v)) g)"

definition lumbre_ini_entries :: "ini_entry list" where
  "lumbre_ini_entries =
     [Ini_entry (c_str ''lumbre.enabled'') (c_str ''1'') PHP_INI_ALL
        (OnUpdateBool (\<lambda>b g. g\<lparr>g_enabled := b\<rparr>)),
      Ini_entry (c_str ''lumbre.mode'') (c_str ''io'') PHP_INI_SYSTEM
        (\<lambda>P. lumbre_OnUpdateMode),
      Ini_entry (c_str ''lumbre.buffer_size'') (c_str ''4194304'') PHP_INI_SYSTEM
        (OnUpdateLong (\<lambda>n g. g\<lparr>g_buffer_size := n\<rparr>)),
      Ini_entry (c_str ''lumbre.shm_dir'') (c_str ''/dev/shm'') PHP_INI_SYSTEM
        (OnUpdateString (\<lambda>s g. g\<lparr>g_shm_dir := s\<rparr>)),
      Ini_entry (c_str ''lumbre.trigger_header'') (c_str ''X-Trace-Debug'') PHP_INI_SYSTEM
        (OnUpdateString (\<lambda>s g. g\<lparr>g_trigger_header := s\<rparr>)),
      Ini_entry (c_str ''lumbre.max_query_len'') (c_str ''2048'') PHP_INI_SYSTEM
        (OnUpdateLong (\<lambda>n g. g\<lparr>g_max_query_len := n\<rparr>)),
      Ini_entry (c_str ''lumbre.min_duration_ns'') (c_str ''0'') PHP_INI_ALL
        (OnUpdateLong (\<lambda>n g. g\<lparr>g_min_duration_ns := n\<rparr>)),
      Ini_entry (c_str ''lumbre.trace_namespaces'') [] PHP_INI_SYSTEM
        (OnUpdateString (\<lambda>s g. g\<lparr>g_trace_namespaces := s\<rparr>))]"

text \<open>
  What \<^verbatim>\<open>REGISTER_INI_ENTRIES\<close> is relied on to do: run every handler once, in the order of the table,
  on the configured value or else on the default. The function itself is PHP's.
\<close>

definition configured_value :: "(bytes \<Rightarrow> bytes option) \<Rightarrow> ini_entry \<Rightarrow> bytes" where
  "configured_value configured e = (case configured (ini_name e) of Some v \<Rightarrow> v | None \<Rightarrow> ini_default e)"

definition registers_entries ::
  "ini_parsers \<Rightarrow> (bytes \<Rightarrow> bytes option) \<Rightarrow> (lumbre_globals \<Rightarrow> lumbre_globals) \<Rightarrow> bool" where
  "registers_entries P configured register_ini_entries \<longleftrightarrow>
     (\<forall>g. register_ini_entries g =
        fold (\<lambda>e g. snd (ini_handle e P (configured_value configured e) g)) lumbre_ini_entries g)"

subsection \<open>What a request brings\<close>

record php_request =
  rq_zts :: bool
  rq_storage :: "bytes option"
  rq_os :: os_env
  rq_pid :: u32
  rq_random :: "bytes \<Rightarrow> bool \<times> bytes"
  rq_server :: zval
  rq_sapi_name :: "bytes option"
  rq_path_translated :: "bytes option"
  rq_request_uri :: "bytes option"
  rq_request_method :: "bytes option"

definition lumbre_get_server_vars :: "zval \<Rightarrow> (bytes \<times> zval) list option" where
  "lumbre_get_server_vars sv = (case sv of Zval_array a \<Rightarrow> Some a | _ \<Rightarrow> None)"

definition lumbre_worker_id :: "bool \<Rightarrow> u64 \<Rightarrow> u64 \<times> u64" where
  "lumbre_worker_id zts counter = (if zts then (counter, counter + 1) else (0, counter))"

definition lumbre_php_random_bytes :: "(bytes \<Rightarrow> bool \<times> bytes) \<Rightarrow> bytes \<Rightarrow> int \<times> bytes" where
  "lumbre_php_random_bytes php_random_bytes buf =
     (let (ok, buf) = php_random_bytes buf in (if ok then 0 else -1, buf))"

subsection \<open>GINIT and MINIT\<close>

definition lumbre_ginit :: "lumbre_globals option" where
  "lumbre_ginit = do { wl \<leftarrow> lumbre_whitelist_init; Some (zero_globals\<lparr>g_whitelist := wl\<rparr>) }"

text \<open>Zend's two hook pointers, and the module's copies of what they were.\<close>

record zend_hooks =
  zend_execute_internal :: "zend_fn option"
  zend_execute_ex :: "zend_fn option"
  lumbre_original_execute_internal :: "zend_fn option"
  lumbre_original_execute_ex :: "zend_fn option"

text \<open>\<^verbatim>\<open>REGISTER_INI_ENTRIES\<close> runs first; its effect on the globals is an argument.\<close>

definition lumbre_minit ::
  "(lumbre_globals \<Rightarrow> lumbre_globals) \<Rightarrow> lumbre_globals \<times> zend_hooks \<Rightarrow> lumbre_globals \<times> zend_hooks" where
  "lumbre_minit register_ini_entries = (\<lambda>(g, z).
     let g = register_ini_entries g;
         z = z\<lparr>lumbre_original_execute_internal := zend_execute_internal z\<rparr>;
         z = z\<lparr>zend_execute_internal := Some Lumbre_execute_internal\<rparr>;
         z = z\<lparr>lumbre_original_execute_ex := zend_execute_ex z\<rparr>;
         z = z\<lparr>zend_execute_ex := Some Lumbre_execute_ex\<rparr>
     in (g, z))"

subsection \<open>RINIT\<close>

text \<open>
  The lazy initialisation; false means that the function returns. A null \<^verbatim>\<open>shm_dir\<close> would be
  formatted as a string, which is a fault.
\<close>

definition rinit_ringbuf :: "php_request \<Rightarrow> php_state \<Rightarrow> (bool \<times> php_state) option" where
  "rinit_ringbuf rq st =
     (let g = ps_lumbre st
      in if g_ringbuf_initialized g \<noteq> 0 then Some (True, st)
      else
        let (wid, counter) = lumbre_worker_id (rq_zts rq) (ps_worker_counter st);
            g = g\<lparr>g_worker_id := wid\<rparr>;
            st = st\<lparr>ps_worker_counter := counter\<rparr>
        in if \<not> g_mp_storage g \<and> rq_storage rq = None
        then Some (False, st\<lparr>ps_lumbre := g\<lparr>g_enabled := False\<rparr>\<rparr>)
        else
          let storage = (if g_mp_storage g then mb_buf (g_mp_buf g) else the (rq_storage rq));
              g = g\<lparr>g_mp_storage := True,
                    g_mp_buf := \<lparr>mb_buf = storage, mb_capacity = LUMBRE_MSGPACK_BUF_SIZE, mb_pos = 0\<rparr>\<rparr>
          in do {
            dir \<leftarrow> g_shm_dir g;
            let (rc, rb, calls) = lumbre_ringbuf_init (rq_os rq) (g_ringbuf g) dir (rq_pid rq) wid
                                    (ucast (g_buffer_size g));
            let st = st\<lparr>ps_calls := ps_calls st @ calls\<rparr>;
            if rc \<noteq> 0
            then Some (False, st\<lparr>ps_lumbre := g\<lparr>g_ringbuf := rb, g_enabled := False\<rparr>,
                                 ps_warnings := ps_warnings st + 1\<rparr>)
            else Some (True, st\<lparr>ps_lumbre := g\<lparr>g_ringbuf := rb, g_ringbuf_initialized := 1\<rparr>\<rparr>) })"

text \<open>The trace id propagated by the caller, if it sent a well-formed one.\<close>

definition rinit_trace_id :: "zval \<Rightarrow> bytes option option" where
  "rinit_trace_id server =
     (case lumbre_get_server_vars server of
        None \<Rightarrow> Some None
      | Some vars \<Rightarrow>
          (case map_of vars (c_str ''HTTP_X_TRACE_ID'') of
             Some (Zval_string s) \<Rightarrow>
               if length s = 32 then do {
                 (rc, out) \<leftarrow> lumbre_hex_to_bin s 32 (replicate 16 0) 16;
                 Some (if rc = 0 then Some out else None) }
               else Some None
           | _ \<Rightarrow> Some None))"

text \<open>The \<^verbatim>\<open>$_SERVER\<close> key of the trigger header, built in a 256-byte buffer.\<close>

definition trigger_char :: "u8 \<Rightarrow> u8" where
  "trigger_char c = (if c = 45 then 95 else if 97 \<le> c \<and> c \<le> 122 then c - 97 + 65 else c)"

fun trigger_loop :: "bytes \<Rightarrow> nat \<Rightarrow> bytes \<Rightarrow> bytes option" where
  "trigger_loop header_key i [] = Some header_key"
| "trigger_loop header_key i (c # cs) = do {
     header_key \<leftarrow> mem_store header_key (5 + i) [trigger_char c];
     trigger_loop header_key (Suc i) cs }"

definition rinit_trigger :: "bytes option \<Rightarrow> zval \<Rightarrow> bool option" where
  "rinit_trigger trigger_header server =
     (case (trigger_header, lumbre_get_server_vars server) of
        (Some hdr, Some vars) \<Rightarrow>
          if hdr \<noteq> [] \<and> length hdr + 6 < 256 then do {
            m \<leftarrow> mem_store (replicate 256 0) 0 (c_str ''HTTP_'');
            m \<leftarrow> trigger_loop m 0 hdr;
            let key_len = 5 + length hdr;
            m \<leftarrow> mem_store m key_len [0];
            key \<leftarrow> mem_load m 0 key_len;
            Some (map_of vars key \<noteq> None) }
          else Some False
      | _ \<Rightarrow> Some False)"

definition c_string_or_empty :: "bytes option \<Rightarrow> bytes" where
  "c_string_or_empty s = (case s of None \<Rightarrow> [] | Some s \<Rightarrow> s)"

definition rinit_root_span :: "php_request \<Rightarrow> php_state \<Rightarrow> php_state" where
  "rinit_root_span rq st =
     (let g = ps_lumbre st;
          (span, ctx) = lumbre_span_start LUMBRE_SPAN_HTTP_IN (g_ctx g) (ps_now st);
          cli = (rq_sapi_name rq = Some (c_str ''cli''));
          uri = c_string_or_empty (if cli then rq_path_translated rq else rq_request_uri rq);
          request_method = (if cli then c_str ''CLI'' else c_string_or_empty (rq_request_method rq));
          span = lumbre_span_set_http_in span (Some uri) (of_nat (length uri))
                   (Some request_method) (of_nat (length request_method))
      in st\<lparr>ps_lumbre := g\<lparr>g_root_span := span, g_ctx := ctx\<lparr>cx_root_span_id := sp_span_id span\<rparr>\<rparr>\<rparr>)"

definition lumbre_rinit :: "php_request \<Rightarrow> php_state \<Rightarrow> php_state option" where
  "lumbre_rinit rq st =
     (if \<not> g_enabled (ps_lumbre st) then Some st
      else do {
        (continue, st) \<leftarrow> rinit_ringbuf rq st;
        if \<not> continue then Some st
        else do {
          propagated \<leftarrow> rinit_trace_id (rq_server rq);
          let g = ps_lumbre st;
          let ctx = lumbre_context_init (g_ctx g) propagated
                      (Some (lumbre_php_random_bytes (rq_random rq)));
          full \<leftarrow> rinit_trigger (g_trigger_header g) (rq_server rq);
          let ctx = (if full then ctx\<lparr>cx_full_trace := 1\<rparr> else ctx);
          Some (rinit_root_span rq (st\<lparr>ps_lumbre := g\<lparr>g_ctx := ctx\<rparr>\<rparr>)) } })"

subsection \<open>RSHUTDOWN and MSHUTDOWN\<close>

definition lumbre_rshutdown :: "php_state \<Rightarrow> php_state option" where
  "lumbre_rshutdown st =
     (let g = ps_lumbre st
      in if cx_active (g_ctx g) = 0 then Some st
      else do {
        (rc, span, rb, mp, ctx) \<leftarrow>
          lumbre_span_finish (g_root_span g) (g_ringbuf g) (g_mp_buf g) (g_ctx g) 0
            (ucast (g_max_query_len g)) (ps_now st);
        Some (st\<lparr>ps_lumbre := g\<lparr>g_root_span := span, g_ringbuf := rb, g_mp_buf := mp,
                                g_ctx := lumbre_context_reset ctx\<rparr>\<rparr>) })"

definition lumbre_mshutdown :: "bytes option \<Rightarrow> php_state \<times> zend_hooks \<Rightarrow> php_state \<times> zend_hooks" where
  "lumbre_mshutdown sapi_name = (\<lambda>(st, z).
     let z = z\<lparr>zend_execute_internal := lumbre_original_execute_internal z\<rparr>;
         z = z\<lparr>zend_execute_ex := lumbre_original_execute_ex z\<rparr>;
         g = ps_lumbre st;
         skip_unlink = (sapi_name = Some (c_str ''cli''));
         (rb, calls) = (if g_ringbuf_initialized g \<noteq> 0
                        then lumbre_ringbuf_destroy (g_ringbuf g) skip_unlink
                        else (g_ringbuf g, []));
         g = g\<lparr>g_ringbuf := rb\<rparr>;
         g = (if g_mp_storage g then g\<lparr>g_mp_storage := False\<rparr> else g);
         g = g\<lparr>g_whitelist := lumbre_whitelist_destroy (g_whitelist g)\<rparr>
     in (st\<lparr>ps_lumbre := g, ps_calls := ps_calls st @ calls\<rparr>, z))"

end
