(* ===== verification/Lumbre_Hooks.thy ===== *)
theory Lumbre_Hooks
  imports Lumbre_Module
begin

text \<open>
  The two Zend hooks of \<^verbatim>\<open>php_lumbre.c\<close>. The engine function that a hook pointer refers to is
  a parameter: a handler takes the call's frame and the state, and either returns, or bails out
  (a \<^verbatim>\<open>longjmp\<close> past its callers, as on \<^verbatim>\<open>exit\<close> or a fatal error), or faults. A request's
  workload is a tree of calls in which user code may also change the two runtime settings; it is
  run with every internal and user call going through Zend's hook pointers.
\<close>

subsection \<open>Outcomes\<close>

datatype outcome = Returned | Bailed_out

type_synonym handler = "php_state \<Rightarrow> (outcome \<times> php_state) option"

subsection \<open>Helpers of the hooks\<close>

definition zstr_len :: "bytes option \<Rightarrow> u64" where
  "zstr_len s = (case s of None \<Rightarrow> 0 | Some s \<Rightarrow> of_nat (length s))"

text \<open>Class name and length, function name and length.\<close>

definition lumbre_extract_names :: "zend_function \<Rightarrow> (bytes option \<times> u64) \<times> (bytes option \<times> u64)" where
  "lumbre_extract_names func =
     ((zf_scope_name func, zstr_len (zf_scope_name func)),
      (zf_function_name func, zstr_len (zf_function_name func)))"

definition name_char :: "bytes \<Rightarrow> nat \<Rightarrow> string \<Rightarrow> bool" where
  "name_char s i alternatives \<longleftrightarrow> i < length s \<and> s ! i \<in> set (c_str alternatives)"

definition lumbre_infer_db_type :: "bytes option \<Rightarrow> u64 \<Rightarrow> bytes \<times> u32" where
  "lumbre_infer_db_type class_name class_len =
     (case class_name of
        None \<Rightarrow> (c_str ''unknown'', 7)
      | Some c \<Rightarrow>
          if class_len = 3 \<and> name_char c 0 ''Pp'' \<and> name_char c 1 ''Dd'' \<and> name_char c 2 ''Oo''
          then (c_str ''pdo'', 3)
          else if 6 \<le> class_len \<and> name_char c 0 ''mM'' \<and> name_char c 1 ''yY'' \<and> name_char c 2 ''sS''
            \<and> name_char c 3 ''qQ'' \<and> name_char c 4 ''lL'' \<and> name_char c 5 ''iI''
          then (c_str ''mysql'', 5)
          else if 12 \<le> class_len \<and> name_char c 0 ''Pp'' \<and> name_char c 1 ''Dd'' \<and> name_char c 2 ''Oo''
            \<and> name_char c 3 ''S''
          then (c_str ''pdo'', 3)
          else (c_str ''pgsql'', 5))"

definition lumbre_extract_first_str_arg :: "zend_execute_data \<Rightarrow> bytes option \<times> u32" where
  "lumbre_extract_first_str_arg ed =
     (case ed_args ed of
        Zval_string s # _ \<Rightarrow> (Some s, ucast (of_nat (length s) :: u64))
      | _ \<Rightarrow> (None, 0))"

subsection \<open>execute_internal\<close>

definition call_original_internal ::
  "(zend_fn \<Rightarrow> zend_execute_data \<Rightarrow> handler) \<Rightarrow> zend_hooks \<Rightarrow> zend_execute_data \<Rightarrow> handler" where
  "call_original_internal engine z ed =
     (case lumbre_original_execute_internal z of
        Some f \<Rightarrow> engine f ed
      | None \<Rightarrow> engine Zend_execute_internal ed)"

text \<open>The payload set before the call, by span type.\<close>

definition internal_payload ::
  "u32 \<Rightarrow> zend_execute_data \<Rightarrow> bytes option \<Rightarrow> u64 \<Rightarrow> bytes option \<Rightarrow> u64 \<Rightarrow> u8 \<Rightarrow>
   lumbre_span_t \<Rightarrow> lumbre_span_t" where
  "internal_payload max_query_len ed class_name class_len func_name func_len type span =
     (if type = LUMBRE_SPAN_DB then
        let (query, query_len) = lumbre_extract_first_str_arg ed;
            (db_type, db_type_len) = lumbre_infer_db_type class_name class_len
        in if query \<noteq> None
           then lumbre_span_set_db span query query_len (Some db_type) db_type_len 0 max_query_len
           else span
      else if type = LUMBRE_SPAN_REDIS \<or> type = LUMBRE_SPAN_MEMCACHED \<or> type = LUMBRE_SPAN_CACHE then
        let (key, key_len) = lumbre_extract_first_str_arg ed
        in lumbre_span_set_cache span func_name (ucast func_len)
             (if key \<noteq> None then key else Some []) key_len
      else if type = LUMBRE_SPAN_FILE_IO then
        let (path, path_len) = lumbre_extract_first_str_arg ed
        in if path \<noteq> None then lumbre_span_set_file_io span path path_len else span
      else span)"

definition set_globals :: "lumbre_globals \<Rightarrow> php_state \<Rightarrow> php_state" where
  "set_globals g st = st\<lparr>ps_lumbre := g\<rparr>"

text \<open>The call of \<^verbatim>\<open>lumbre_span_finish\<close> that ends both hooks.\<close>

definition finish_call :: "lumbre_span_t \<Rightarrow> php_state \<Rightarrow> php_state option" where
  "finish_call span st =
     (let g = ps_lumbre st
      in do {
        (rc, span, rb, mp, ctx) \<leftarrow>
          lumbre_span_finish span (g_ringbuf g) (g_mp_buf g) (g_ctx g) (g_min_duration_ns g)
            (ucast (g_max_query_len g)) (ps_now st);
        Some (set_globals (g\<lparr>g_ringbuf := rb, g_mp_buf := mp, g_ctx := ctx\<rparr>) st) })"

text \<open>The original handler, then the finish; a bailout never comes back to the hook.\<close>

definition call_then_finish :: "handler \<Rightarrow> lumbre_span_t \<Rightarrow> handler" where
  "call_then_finish call span st = do {
     (out, st) \<leftarrow> call st;
     (case out of
        Bailed_out \<Rightarrow> Some (Bailed_out, st)
      | Returned \<Rightarrow> do { st \<leftarrow> finish_call span st; Some (Returned, st) }) }"

definition lumbre_execute_internal ::
  "(zend_fn \<Rightarrow> zend_execute_data \<Rightarrow> handler) \<Rightarrow> zend_hooks \<Rightarrow> zend_execute_data \<Rightarrow> handler" where
  "lumbre_execute_internal engine z ed st =
     (let g = ps_lumbre st
      in if \<not> g_enabled g \<or> cx_active (g_ctx g) = 0 then call_original_internal engine z ed st
      else do {
        func \<leftarrow> ed_func ed;
        let ((class_name, class_len), (func_name, func_len)) = lumbre_extract_names func;
        if func_name = None then call_original_internal engine z ed st
        else do {
          entry \<leftarrow> lumbre_whitelist_match (g_whitelist g) class_name class_len func_name func_len;
          (case entry of
             None \<Rightarrow> call_original_internal engine z ed st
           | Some entry \<Rightarrow>
               let (span, ctx) = lumbre_span_start (we_span_type entry) (g_ctx g) (ps_now st);
                   span = internal_payload (ucast (g_max_query_len g)) ed class_name class_len
                            func_name func_len (we_span_type entry) span
               in call_then_finish (call_original_internal engine z ed) span
                    (set_globals (g\<lparr>g_ctx := ctx\<rparr>) st)) } })"

subsection \<open>execute_ex\<close>

definition call_original_ex ::
  "(zend_fn \<Rightarrow> zend_execute_data \<Rightarrow> handler) \<Rightarrow> zend_hooks \<Rightarrow> zend_execute_data \<Rightarrow> handler" where
  "call_original_ex engine z ed st =
     (case lumbre_original_execute_ex z of Some f \<Rightarrow> engine f ed st | None \<Rightarrow> None)"

text \<open>File name and line of a user function.\<close>

definition user_location :: "zend_execute_data \<Rightarrow> zend_function \<Rightarrow> bytes option \<times> u32 \<times> u32" where
  "user_location ed func =
     (if zf_is_user func
      then (zf_filename func, ucast (zstr_len (zf_filename func)),
            (case ed_opline ed of Some line \<Rightarrow> line | None \<Rightarrow> 0))
      else (None, 0, 0))"

definition lumbre_execute_ex ::
  "(zend_fn \<Rightarrow> zend_execute_data \<Rightarrow> handler) \<Rightarrow> zend_hooks \<Rightarrow> zend_execute_data \<Rightarrow> handler" where
  "lumbre_execute_ex engine z ed st =
     (let g = ps_lumbre st
      in if \<not> g_enabled g \<or> cx_active (g_ctx g) = 0 then call_original_ex engine z ed st
      else if g_mode g \<noteq> 1 \<and> cx_full_trace (g_ctx g) = 0 then call_original_ex engine z ed st
      else
        (case ed_func ed of
           None \<Rightarrow> call_original_ex engine z ed st
         | Some func \<Rightarrow>
             if zf_function_name func = None then call_original_ex engine z ed st
             else
               let func_name = zf_function_name func;
                   func_len = zstr_len func_name;
                   class_name = zf_scope_name func;
                   class_len = zstr_len class_name;
                   (file, file_len, line) = user_location ed func;
                   (span, ctx) = lumbre_span_start LUMBRE_SPAN_FUNC (g_ctx g) (ps_now st);
                   span = lumbre_span_set_func span class_name (ucast class_len)
                            func_name (ucast func_len)
                            (if file \<noteq> None then file else Some []) file_len line
               in call_then_finish (call_original_ex engine z ed) span
                    (set_globals (g\<lparr>g_ctx := ctx\<rparr>) st)))"

subsection \<open>A request's calls\<close>

text \<open>
  The workload: time passing, output, runtime changes of the two settings that are \<^verbatim>\<open>PHP_INI_ALL\<close>,
  calls with what happens inside them, and the end of the request by a bailout.
\<close>

datatype activity =
    Clock timespec
  | Echo bytes
  | Ini_enabled bool
  | Ini_min_duration u64
  | Call_internal zend_execute_data "activity list"
  | Call_user zend_execute_data "activity list"
  | Bailout

text \<open>
  The engine's function \<open>f\<close>, called with a frame: it is recorded as reached, and the call's body runs.
\<close>

definition dispatch :: "handler \<Rightarrow> zend_fn \<Rightarrow> zend_execute_data \<Rightarrow> handler" where
  "dispatch body f ed st = body (st\<lparr>ps_reached := ps_reached st @ [(f, ed)]\<rparr>)"

text \<open>
  What calling through a hook pointer does: the extension's hooks run its code; anything else is the
  engine's function itself. A null \<^verbatim>\<open>zend_execute_internal\<close> stands for \<^verbatim>\<open>execute_internal\<close>; a null
  \<^verbatim>\<open>zend_execute_ex\<close> cannot be called.
\<close>

definition through_internal :: "zend_hooks \<Rightarrow> zend_execute_data \<Rightarrow> handler \<Rightarrow> handler" where
  "through_internal z ed body =
     (case zend_execute_internal z of
        None \<Rightarrow> dispatch body Zend_execute_internal ed
      | Some f \<Rightarrow>
          if f = Lumbre_execute_internal then lumbre_execute_internal (dispatch body) z ed else dispatch body f ed)"

definition through_ex :: "zend_hooks \<Rightarrow> zend_execute_data \<Rightarrow> handler \<Rightarrow> handler" where
  "through_ex z ed body =
     (case zend_execute_ex z of
        None \<Rightarrow> (\<lambda>st. None)
      | Some f \<Rightarrow> if f = Lumbre_execute_ex then lumbre_execute_ex (dispatch body) z ed else dispatch body f ed)"

fun run_activity :: "zend_hooks \<Rightarrow> activity \<Rightarrow> handler"
  and run_activities :: "zend_hooks \<Rightarrow> activity list \<Rightarrow> handler" where
  "run_activity z (Clock t) st = Some (Returned, st\<lparr>ps_now := t\<rparr>)"
| "run_activity z (Echo s) st = Some (Returned, st\<lparr>ps_output := ps_output st @ s\<rparr>)"
| "run_activity z (Ini_enabled b) st = Some (Returned, set_globals ((ps_lumbre st)\<lparr>g_enabled := b\<rparr>) st)"
| "run_activity z (Ini_min_duration n) st =
     Some (Returned, set_globals ((ps_lumbre st)\<lparr>g_min_duration_ns := n\<rparr>) st)"
| "run_activity z (Call_internal ed body) st = through_internal z ed (run_activities z body) st"
| "run_activity z (Call_user ed body) st = through_ex z ed (run_activities z body) st"
| "run_activity z Bailout st = Some (Bailed_out, st)"
| "run_activities z [] st = Some (Returned, st)"
| "run_activities z (a # as) st = do {
     (out, st) \<leftarrow> run_activity z a st;
     (case out of Bailed_out \<Rightarrow> Some (Bailed_out, st) | Returned \<Rightarrow> run_activities z as st) }"

text \<open>A whole request: start, calls, and the shutdown that follows even a bailout.\<close>

definition run_request :: "zend_hooks \<Rightarrow> php_request \<Rightarrow> activity list \<Rightarrow> php_state \<Rightarrow> php_state option" where
  "run_request z rq calls st = do {
     st \<leftarrow> lumbre_rinit rq st;
     (out, st) \<leftarrow> run_activities z calls st;
     lumbre_rshutdown st }"

end
