(* ===== verification/Lumbre_Trace.thy ===== *)
theory Lumbre_Trace
  imports Lumbre_Hooks
begin

text \<open>
  What tracing a request means, without buffers: a recursive description of the spans that a tree
  of calls gives rise to (identifiers in the order of entry, parents by nesting, records in the
  order of return), and the proof that the hooks, the span functions, the packer and the ring
  buffer together implement it: they offer the images of exactly these spans to the ring, in this
  order.
\<close>

subsection \<open>The abstract tracer\<close>

text \<open>What is fixed during a request, and what changes.\<close>

record trace_env =
  te_trace_id :: bytes
  te_full :: bool
  te_max_query_len :: u32
  te_capacity :: nat

record tracer =
  tr_enabled :: bool
  tr_min :: u64
  tr_now :: timespec
  tr_counter :: u64
  tr_parent :: u64

definition new_span :: "trace_env \<Rightarrow> u8 \<Rightarrow> tracer \<Rightarrow> lumbre_span_t" where
  "new_span e type t = zero_span\<lparr>sp_type := type, sp_trace_id := te_trace_id e,
     sp_span_id := tr_counter t, sp_parent_id := tr_parent t, sp_start_ns := lumbre_clock_ns (tr_now t)\<rparr>"

text \<open>Which internal calls are traced, and as what: by the static table alone.\<close>

definition classify :: "bytes option \<Rightarrow> bytes \<Rightarrow> u8 option" where
  "classify cls func = map_option se_span_type
     (List.find (\<lambda>s. static_key s = canonical cls func) lumbre_wl_static_table)"

text \<open>
  What a traced call records of itself: a database call its query, cut to the limit, and the kind of
  database; a cache call its name and key; a file call its path. A call whose first argument is not a
  string records no query and no path, and an empty key.
\<close>

definition text_len :: "bytes option \<Rightarrow> u32" where
  "text_len s = (case s of None \<Rightarrow> 0 | Some s \<Rightarrow> of_nat (length s))"

definition first_string :: "zval list \<Rightarrow> bytes option" where
  "first_string args = (case args of Zval_string s # _ \<Rightarrow> Some s | _ \<Rightarrow> None)"

definition db_label :: "bytes option \<Rightarrow> bytes" where
  "db_label cls = (case cls of
     None \<Rightarrow> c_str ''unknown'' | Some c \<Rightarrow> if c = [] then c_str ''pgsql'' else c_str ''pdo'')"

definition describe_internal ::
  "u32 \<Rightarrow> u8 \<Rightarrow> bytes option \<Rightarrow> bytes \<Rightarrow> bytes option \<Rightarrow> lumbre_span_t \<Rightarrow> lumbre_span_t" where
  "describe_internal maxq type cls func arg s =
     (if type = LUMBRE_SPAN_DB \<and> arg \<noteq> None then
        s\<lparr>sp_query := arg, sp_query_len := min maxq (text_len arg),
          sp_db_type := Some (db_label cls), sp_db_type_len := text_len (Some (db_label cls)),
          sp_rows_affected := 0\<rparr>
      else if type \<in> {LUMBRE_SPAN_REDIS, LUMBRE_SPAN_MEMCACHED, LUMBRE_SPAN_CACHE} then
        s\<lparr>sp_cache_cmd := Some func, sp_cache_cmd_len := text_len (Some func),
          sp_cache_key := Some (case arg of None \<Rightarrow> [] | Some k \<Rightarrow> k), sp_cache_key_len := text_len arg\<rparr>
      else if type = LUMBRE_SPAN_FILE_IO \<and> arg \<noteq> None then s\<lparr>sp_url := arg, sp_url_len := text_len arg\<rparr>
      else s)"

definition span_of_internal :: "trace_env \<Rightarrow> zend_execute_data \<Rightarrow> tracer \<Rightarrow> lumbre_span_t option" where
  "span_of_internal e ed t =
     (if tr_enabled t then do {
        f \<leftarrow> ed_func ed;
        func \<leftarrow> zf_function_name f;
        type \<leftarrow> classify (zf_scope_name f) func;
        Some (describe_internal (te_max_query_len e) type (zf_scope_name f) func (first_string (ed_args ed))
                (new_span e type t)) }
      else None)"

text \<open>A user function records its class, its name, and file and line of its code.\<close>

definition describe_user :: "zend_function \<Rightarrow> bytes \<Rightarrow> u32 option \<Rightarrow> lumbre_span_t \<Rightarrow> lumbre_span_t" where
  "describe_user f func line s =
     (let file = (if zf_is_user f then zf_filename f else None)
      in s\<lparr>sp_func_class := zf_scope_name f, sp_func_class_len := text_len (zf_scope_name f),
           sp_func_name := Some func, sp_func_name_len := text_len (Some func),
           sp_func_file := Some (case file of None \<Rightarrow> [] | Some p \<Rightarrow> p), sp_func_file_len := text_len file,
           sp_func_line := (case line of Some l \<Rightarrow> if zf_is_user f then l else 0 | None \<Rightarrow> 0)\<rparr>)"

definition span_of_user :: "trace_env \<Rightarrow> zend_execute_data \<Rightarrow> tracer \<Rightarrow> lumbre_span_t option" where
  "span_of_user e ed t =
     (if tr_enabled t \<and> te_full e then do {
        f \<leftarrow> ed_func ed;
        func \<leftarrow> zf_function_name f;
        Some (describe_user f func (ed_opline ed) (new_span e LUMBRE_SPAN_FUNC t)) }
      else None)"

type_synonym tracing = "tracer \<Rightarrow> outcome \<times> lumbre_span_t list \<times> tracer"

definition recorded :: "trace_env \<Rightarrow> lumbre_span_t \<Rightarrow> tracer \<Rightarrow> lumbre_span_t list" where
  "recorded e s t =
     (if span_filtered s (tr_now t) (tr_min t) then [] else [span_final s (tr_now t) (te_max_query_len e)])"

fun traced_call :: "trace_env \<Rightarrow> lumbre_span_t option \<Rightarrow> tracing \<Rightarrow> tracing" where
  "traced_call e None body t = body t"
| "traced_call e (Some s) body t =
     (case body (t\<lparr>tr_counter := tr_counter t + 1, tr_parent := sp_span_id s\<rparr>) of
        (Bailed_out, spans, t) \<Rightarrow> (Bailed_out, spans, t)
      | (Returned, spans, t) \<Rightarrow> (Returned, spans @ recorded e s t, t\<lparr>tr_parent := sp_parent_id s\<rparr>))"

fun trace_activity :: "trace_env \<Rightarrow> activity \<Rightarrow> tracing"
  and trace_activities :: "trace_env \<Rightarrow> activity list \<Rightarrow> tracing" where
  "trace_activity e (Clock now) t = (Returned, [], t\<lparr>tr_now := now\<rparr>)"
| "trace_activity e (Echo s) t = (Returned, [], t)"
| "trace_activity e (Ini_enabled b) t = (Returned, [], t\<lparr>tr_enabled := b\<rparr>)"
| "trace_activity e (Ini_min_duration n) t = (Returned, [], t\<lparr>tr_min := n\<rparr>)"
| "trace_activity e (Call_internal ed body) t =
     traced_call e (span_of_internal e ed t) (trace_activities e body) t"
| "trace_activity e (Call_user ed body) t =
     traced_call e (span_of_user e ed t) (trace_activities e body) t"
| "trace_activity e Bailout t = (Bailed_out, [], t)"
| "trace_activities e [] t = (Returned, [], t)"
| "trace_activities e (a # as) t =
     (case trace_activity e a t of
        (Bailed_out, spans, t) \<Rightarrow> (Bailed_out, spans, t)
      | (Returned, spans, t) \<Rightarrow>
          (case trace_activities e as t of (out, spans', t) \<Rightarrow> (out, spans @ spans', t)))"

subsection \<open>Offering messages to the ring\<close>

text \<open>Messages that exceed the serialisation buffer never get to the ring.\<close>

fun ring_offers :: "nat \<Rightarrow> bytes list \<Rightarrow> lumbre_ringbuf_t \<Rightarrow> lumbre_ringbuf_t option" where
  "ring_offers cap [] rb = Some rb"
| "ring_offers cap (m # ms) rb =
     (if cap < length m then ring_offers cap ms rb
      else do { (rc, rb) \<leftarrow> ring_put rb m; ring_offers cap ms rb })"

lemma ring_offers_append:
  "ring_offers cap (xs @ ys) rb = do { rb \<leftarrow> ring_offers cap xs rb; ring_offers cap ys rb }"
  by (induction cap xs rb rule: ring_offers.induct) (auto split: bind_split)

subsection \<open>The state of a traced request\<close>

definition tracer_of :: "php_state \<Rightarrow> tracer" where
  "tracer_of st =
     \<lparr>tr_enabled = g_enabled (ps_lumbre st), tr_min = g_min_duration_ns (ps_lumbre st),
      tr_now = ps_now st, tr_counter = cx_span_counter (g_ctx (ps_lumbre st)),
      tr_parent = cx_current_parent_id (g_ctx (ps_lumbre st))\<rparr>"

definition ready :: "trace_env \<Rightarrow> php_state \<Rightarrow> bool" where
  "ready e st \<longleftrightarrow> (let g = ps_lumbre st in
     mp_ready (g_mp_buf g) \<and> unat (mb_capacity (g_mp_buf g)) = te_capacity e \<and>
     length (te_trace_id e) = 16 \<and> cx_trace_id (g_ctx g) = te_trace_id e \<and> cx_active (g_ctx g) \<noteq> 0 \<and>
     (te_full e \<longleftrightarrow> g_mode g = 1 \<or> cx_full_trace (g_ctx g) \<noteq> 0) \<and>
     te_max_query_len e = ucast (g_max_query_len g) \<and> lumbre_whitelist_init = Some (g_whitelist g))"

definition ring_of :: "php_state \<Rightarrow> lumbre_ringbuf_t" where
  "ring_of st = g_ringbuf (ps_lumbre st)"

definition hooks_installed :: "zend_hooks \<Rightarrow> bool" where
  "hooks_installed z \<longleftrightarrow> zend_execute_internal z = Some Lumbre_execute_internal \<and>
     zend_execute_ex z = Some Lumbre_execute_ex \<and> lumbre_original_execute_ex z \<noteq> None"

text \<open>Frames with a function and with names and strings of less than 2^32 - 5 bytes.\<close>

definition string_ok :: "bytes option \<Rightarrow> bool" where
  "string_ok s \<longleftrightarrow> (case s of None \<Rightarrow> True | Some s \<Rightarrow> str_ok s)"

definition frame_ok :: "zend_execute_data \<Rightarrow> bool" where
  "frame_ok ed \<longleftrightarrow>
     (case ed_func ed of None \<Rightarrow> False
      | Some f \<Rightarrow> string_ok (zf_scope_name f) \<and> string_ok (zf_function_name f) \<and> string_ok (zf_filename f)) \<and>
     string_ok (fst (lumbre_extract_first_str_arg ed))"

fun activity_ok :: "activity \<Rightarrow> bool" where
  "activity_ok (Call_internal ed body) \<longleftrightarrow> frame_ok ed \<and> list_all activity_ok body"
| "activity_ok (Call_user ed body) \<longleftrightarrow> frame_ok ed \<and> list_all activity_ok body"
| "activity_ok _ \<longleftrightarrow> True"

text \<open>A handler follows an abstract tracing.\<close>

definition follows :: "trace_env \<Rightarrow> handler \<Rightarrow> tracing \<Rightarrow> php_state \<Rightarrow> bool" where
  "follows e h spec st \<longleftrightarrow>
     (case spec (tracer_of st) of (out, spans, t) \<Rightarrow>
        (case ring_offers (te_capacity e) (map span_image spans) (ring_of st) of
           None \<Rightarrow> h st = None
         | Some rb \<Rightarrow> \<exists>st'. h st = Some (out, st') \<and> ready e st' \<and> ring_of st' = rb \<and> tracer_of st' = t))"

end
