(* ===== verification/Lumbre_Policy.thy ===== *)
theory Lumbre_Policy
  imports Lumbre_Whitelist_Correct Lumbre_Hooks
begin

text \<open>
  Which calls are traced and what a traced database call is said to have talked to: the static table
  and the inference of the database type, put together.
\<close>

lemma wl_lower_cases: "wl_lower x = x \<or> wl_lower x = x + 32"
  by (rule byte_cases [where P = "\<lambda>x. wl_lower x = x \<or> wl_lower x = x + 32"]) code_simp

lemma wl_lower_eq: "wl_lower x = b \<Longrightarrow> x = b \<or> x = b - 32"
  using wl_lower_cases [of x] by auto

lemma find_SomeD: "List.find P xs = Some x \<Longrightarrow> x \<in> set xs \<and> P x"
  by (auto simp: find_Some_iff)

text \<open>The keys of the table that belong to methods, and the types of their entries.\<close>

definition method_classes :: "bytes list" where
  "method_classes = [c_str ''pdo'', c_str ''redis'', c_str ''memcached'']"

lemma static_separators:
  "list_all (\<lambda>s. list_all (\<lambda>i. \<not> (static_key s ! i = 58 \<and> static_key s ! Suc i = 58) \<or>
      take i (static_key s) \<in> set method_classes \<and>
      (se_span_type s \<noteq> LUMBRE_SPAN_DB \<or> take i (static_key s) = c_str ''pdo''))
    [0..<length (static_key s) - 1]) lumbre_wl_static_table"
  by code_simp

lemma static_methods:
  assumes "s \<in> set lumbre_wl_static_table" and "static_key s = canonical (Some c) f" and "c \<noteq> []"
  shows "map wl_lower c \<in> set method_classes"
    and "se_span_type s = LUMBRE_SPAN_DB \<Longrightarrow> map wl_lower c = c_str ''pdo''"
proof -
  have key: "static_key s = map wl_lower c @ 58 # 58 # map wl_lower f"
    using assms(2,3) by (simp add: canonical_def c_str_def)
  then have "static_key s ! length c = 58" "static_key s ! Suc (length c) = 58"
    "take (length c) (static_key s) = map wl_lower c" "length c \<in> set [0..<length (static_key s) - 1]"
    by (simp_all add: nth_append)
  with static_separators assms(1)
  have "map wl_lower c \<in> set method_classes \<and> (se_span_type s \<noteq> LUMBRE_SPAN_DB \<or> map wl_lower c = c_str ''pdo'')"
    unfolding list_all_iff by metis
  then show "map wl_lower c \<in> set method_classes"
    "se_span_type s = LUMBRE_SPAN_DB \<Longrightarrow> map wl_lower c = c_str ''pdo''"
    by simp_all
qed

lemma pdo_db_type:
  assumes "map wl_lower c = c_str ''pdo''"
  shows "lumbre_infer_db_type (Some c) (name_len (Some c)) = (c_str ''pdo'', 3)"
proof -
  obtain x y z where c: "c = [x, y, z]" "wl_lower x = 112" "wl_lower y = 100" "wl_lower z = 111"
    using assms by (auto simp: c_str_def Cons_eq_map_conv map_eq_Cons_conv)
  then show ?thesis
    using wl_lower_eq [OF c(2)] wl_lower_eq [OF c(3)] wl_lower_eq [OF c(4)]
    by (auto simp: lumbre_infer_db_type_def name_char_def name_len_def c_str_def)
qed

text \<open>
  C14: What is traced of a class, and how a database call is labelled: a method call is traced only for
  the classes PDO, Redis and Memcached, in any mix of cases, so neither PDOStatement nor the class
  mysqli is ever traced; and a traced database call is labelled pdo when it is a method and unknown
  when it is a function, never mysql or pgsql.
\<close>

theorem traced_methods_and_db_type:
  assumes "lumbre_whitelist_init = Some wl" and "name_ok cls" and "name_ok (Some func)"
    and "wl_lookup wl cls func = Some (Some e)"
  shows "case cls of
      None \<Rightarrow> lumbre_infer_db_type cls (name_len cls) = (c_str ''unknown'', 7)
    | Some c \<Rightarrow> c = [] \<or> map wl_lower c \<in> set method_classes \<and>
        (we_span_type e \<noteq> LUMBRE_SPAN_DB \<or>
         lumbre_infer_db_type cls (name_len cls) = (c_str ''pdo'', 3))"
proof -
  obtain s where s: "s \<in> set lumbre_wl_static_table" "static_key s = canonical cls func" "e = static_entry s"
    using assms(4) unfolding whitelist_lookup [OF assms(1-3)]
    by (auto dest!: find_SomeD)
  then have "we_span_type e = se_span_type s" by (simp add: static_entry_def)
  with s static_methods [OF s(1)] pdo_db_type show ?thesis
    by (auto simp: lumbre_infer_db_type_def [of None] split: option.split)
qed

theorem traced_methods_and_db_type_witness:
  "\<exists>wl e. lumbre_whitelist_init = Some wl \<and>
     wl_lookup wl (Some (c_str ''pDo'')) (c_str ''QUERY'') = Some (Some e) \<and> we_span_type e = LUMBRE_SPAN_DB \<and>
     lumbre_infer_db_type (Some (c_str ''pDo'')) 3 = (c_str ''pdo'', 3) \<and>
     wl_lookup wl (Some (c_str ''PDOStatement'')) (c_str ''execute'') = Some None"
proof -
  obtain wl where wl: "lumbre_whitelist_init = Some wl" using whitelist_table by blast
  have ok: "name_ok (Some (c_str ''pDo''))" "name_ok (Some (c_str ''QUERY''))"
    "name_ok (Some (c_str ''PDOStatement''))" "name_ok (Some (c_str ''execute''))"
    by (simp_all add: name_ok_def)
  have "map_option we_span_type (map_option static_entry (List.find (\<lambda>s. static_key s =
      canonical (Some (c_str ''pDo'')) (c_str ''QUERY'')) lumbre_wl_static_table)) = Some LUMBRE_SPAN_DB"
    by code_simp
  then obtain e where e: "wl_lookup wl (Some (c_str ''pDo'')) (c_str ''QUERY'') = Some (Some e)"
    "we_span_type e = LUMBRE_SPAN_DB"
    using whitelist_lookup [OF wl ok(1,2)] by auto
  have "wl_lookup wl (Some (c_str ''PDOStatement'')) (c_str ''execute'') = Some None"
  proof (cases "wl_lookup wl (Some (c_str ''PDOStatement'')) (c_str ''execute'')")
    case None
    then show ?thesis using whitelist_lookup [OF wl ok(3,4)] by simp
  next
    case (Some r)
    have "map wl_lower (c_str ''PDOStatement'') \<notin> set method_classes" by code_simp
    with traced_methods_and_db_type [OF wl ok(3,4)] Some show ?thesis
      by (cases r) (auto simp: c_str_def)
  qed
  with traced_methods_and_db_type [OF wl ok(1,2) e(1)] e wl show ?thesis
    by (auto simp: name_len_def c_str_def)
qed

end
