(* ===== verification/Lumbre_Transparency.thy ===== *)
theory Lumbre_Transparency
  imports Lumbre_Hooks
begin

text \<open>
  Tracing does not change the program: a tree of calls run through the hooks returns or bails out
  as it does without them, with the same output, the same settings and the same clock. The proof
  needs no invariant of the tracer, so it covers every state the hooks can be called in.
\<close>

subsection \<open>What the program sees\<close>

text \<open>Everything but the tracer's own state: its context, its buffer and its ring.\<close>

definition settings :: "lumbre_globals \<Rightarrow> lumbre_globals" where
  "settings g = g\<lparr>g_ringbuf := g_ringbuf zero_globals, g_mp_buf := g_mp_buf zero_globals,
     g_ctx := g_ctx zero_globals\<rparr>"

definition program_view :: "php_state \<Rightarrow> php_state" where
  "program_view st = st\<lparr>ps_lumbre := settings (ps_lumbre st)\<rparr>"

lemma program_view_iff:
  "program_view st = program_view st' \<longleftrightarrow>
     ps_now st = ps_now st' \<and> ps_output st = ps_output st' \<and> ps_calls st = ps_calls st' \<and>
     ps_warnings st = ps_warnings st' \<and> ps_worker_counter st = ps_worker_counter st' \<and>
     ps_reached st = ps_reached st' \<and>
     settings (ps_lumbre st) = settings (ps_lumbre st')"
  by (cases st; cases st') (auto simp: program_view_def)

lemma settings_tracer [simp]:
  "settings (g\<lparr>g_ctx := c\<rparr>) = settings g"
  "settings (g\<lparr>g_ringbuf := r\<rparr>) = settings g"
  "settings (g\<lparr>g_mp_buf := m\<rparr>) = settings g"
  by (simp_all add: settings_def)

lemma settings_update:
  assumes "settings g = settings g'"
  shows "settings (g\<lparr>g_enabled := b\<rparr>) = settings (g'\<lparr>g_enabled := b\<rparr>)"
    and "settings (g\<lparr>g_min_duration_ns := n\<rparr>) = settings (g'\<lparr>g_min_duration_ns := n\<rparr>)"
proof -
  have "settings (g\<lparr>g_enabled := b\<rparr>) = (settings g)\<lparr>g_enabled := b\<rparr>"
    "settings (g\<lparr>g_min_duration_ns := n\<rparr>) = (settings g)\<lparr>g_min_duration_ns := n\<rparr>" for g
    by (simp_all add: settings_def)
  with assms show "settings (g\<lparr>g_enabled := b\<rparr>) = settings (g'\<lparr>g_enabled := b\<rparr>)"
    "settings (g\<lparr>g_min_duration_ns := n\<rparr>) = settings (g'\<lparr>g_min_duration_ns := n\<rparr>)"
    by simp_all
qed

subsection \<open>Handlers the program cannot tell apart\<close>

definition shadows :: "handler \<Rightarrow> handler \<Rightarrow> bool" where
  "shadows h h0 \<longleftrightarrow> (\<forall>st st0 out st'. program_view st = program_view st0 \<longrightarrow> h st = Some (out, st') \<longrightarrow>
     (\<exists>st0'. h0 st0 = Some (out, st0') \<and> program_view st' = program_view st0'))"

lemma shadowsD:
  assumes "shadows h h0" and "h st = Some (out, st')" and "program_view st = program_view st0"
  obtains st0' where "h0 st0 = Some (out, st0')" "program_view st' = program_view st0'"
  using assms unfolding shadows_def by blast

lemma finish_call_view: "finish_call s st = Some st' \<Longrightarrow> program_view st' = program_view st"
  by (auto simp: finish_call_def Let_def bind_eq_Some_conv set_globals_def program_view_iff)

lemma call_then_finish_view:
  assumes "call_then_finish h s st = Some (out, st')"
  obtains st1 where "h st = Some (out, st1)" "program_view st' = program_view st1"
proof -
  obtain o1 st1 where "h st = Some (o1, st1)"
    "(case o1 of Bailed_out \<Rightarrow> Some (Bailed_out, st1)
      | Returned \<Rightarrow> do { st \<leftarrow> finish_call s st1; Some (Returned, st) }) = Some (out, st')"
    using assms by (auto simp: call_then_finish_def bind_eq_Some_conv)
  then show thesis using that finish_call_view by (cases o1) (auto simp: bind_eq_Some_conv)
qed

text \<open>
  The function that a call finally reaches: the one the hook pointer leads to, or behind the module's
  hook the one that it saved.
\<close>

definition target_internal :: "zend_hooks \<Rightarrow> zend_fn" where
  "target_internal z =
     (case (if zend_execute_internal z = Some Lumbre_execute_internal then lumbre_original_execute_internal z
            else zend_execute_internal z) of
        None \<Rightarrow> Zend_execute_internal
      | Some f \<Rightarrow> f)"

definition target_ex :: "zend_hooks \<Rightarrow> zend_fn option" where
  "target_ex z =
     (if zend_execute_ex z = Some Lumbre_execute_ex then lumbre_original_execute_ex z else zend_execute_ex z)"

lemma call_original_dispatch:
  "zend_execute_internal z = Some Lumbre_execute_internal \<Longrightarrow>
    call_original_internal (dispatch h) z ed = dispatch h (target_internal z) ed"
  "zend_execute_ex z = Some Lumbre_execute_ex \<Longrightarrow>
    call_original_ex (dispatch h) z ed = (\<lambda>st. case target_ex z of None \<Rightarrow> None | Some f \<Rightarrow> dispatch h f ed st)"
  by (auto simp: call_original_internal_def call_original_ex_def target_internal_def target_ex_def fun_eq_iff
      split: option.splits)

lemma dispatch_same [simp]:
  "ps_lumbre (st\<lparr>ps_reached := r\<rparr>) = ps_lumbre st" "ps_now (st\<lparr>ps_reached := r\<rparr>) = ps_now st"
  by simp_all

text \<open>A hook that returns has run the call exactly as it is, or between a start and a finish.\<close>

definition between :: "handler \<Rightarrow> outcome \<Rightarrow> php_state \<Rightarrow> php_state \<Rightarrow> bool" where
  "between h out st st' \<longleftrightarrow> h st = Some (out, st') \<or>
     (\<exists>s ctx. call_then_finish h s (set_globals ((ps_lumbre st)\<lparr>g_ctx := ctx\<rparr>) st) = Some (out, st'))"

lemma through_internal_runs:
  assumes "through_internal z ed h st = Some (out, st')"
  shows "between (dispatch h (target_internal z) ed) out st st'"
proof (cases "zend_execute_internal z = Some Lumbre_execute_internal")
  case True
  then show ?thesis
    using assms
    by (auto simp: through_internal_def lumbre_execute_internal_def lumbre_extract_names_def between_def
        call_original_dispatch Let_def split_beta bind_eq_Some_conv split: if_splits option.splits)
next
  case False
  then show ?thesis
    using assms by (auto simp: through_internal_def target_internal_def between_def split: if_splits option.splits)
qed

lemma through_ex_runs:
  assumes "through_ex z ed h st = Some (out, st')"
  shows "\<exists>f. target_ex z = Some f \<and> between (dispatch h f ed) out st st'"
proof (cases "zend_execute_ex z = Some Lumbre_execute_ex")
  case True
  then show ?thesis
    using assms
    by (cases "target_ex z")
      (auto simp: through_ex_def lumbre_execute_ex_def between_def call_then_finish_def call_original_dispatch
        Let_def split_beta split: if_splits option.splits)
next
  case False
  then show ?thesis
    using assms by (auto simp: through_ex_def target_ex_def between_def split: if_splits option.splits)
qed

lemma dispatch_shadows: "shadows h h0 \<Longrightarrow> shadows (dispatch h f ed) (dispatch h0 f ed)"
proof -
  assume h: "shadows h h0"
  have "program_view st = program_view st0 \<Longrightarrow> program_view (st\<lparr>ps_reached := ps_reached st @ [(f, ed)]\<rparr>) =
      program_view (st0\<lparr>ps_reached := ps_reached st0 @ [(f, ed)]\<rparr>)" for st st0
    by (simp add: program_view_iff)
  with h show ?thesis unfolding shadows_def dispatch_def by blast
qed

lemma between_shadows:
  assumes "shadows h h0" and "between h out st st'" and view: "program_view st = program_view st0"
  shows "\<exists>st0'. h0 st0 = Some (out, st0') \<and> program_view st' = program_view st0'"
  using assms(2) unfolding between_def
proof (elim disjE exE)
  assume "h st = Some (out, st')"
  with assms(1) view show ?thesis by (auto elim: shadowsD)
next
  fix s ctx
  assume "call_then_finish h s (set_globals ((ps_lumbre st)\<lparr>g_ctx := ctx\<rparr>) st) = Some (out, st')"
  then obtain st1 where "h (set_globals ((ps_lumbre st)\<lparr>g_ctx := ctx\<rparr>) st) = Some (out, st1)"
    "program_view st' = program_view st1"
    by (rule call_then_finish_view)
  moreover have "program_view (set_globals ((ps_lumbre st)\<lparr>g_ctx := ctx\<rparr>) st) = program_view st0"
    using view by (simp add: program_view_iff set_globals_def)
  ultimately show ?thesis using assms(1) by (auto elim: shadowsD)
qed

definition hooks_absent :: "zend_hooks \<Rightarrow> bool" where
  "hooks_absent z \<longleftrightarrow> zend_execute_internal z \<noteq> Some Lumbre_execute_internal \<and>
     zend_execute_ex z \<noteq> Some Lumbre_execute_ex"

lemma through_absent:
  assumes "hooks_absent z"
  shows "through_internal z ed h = dispatch h (target_internal z) ed"
    and "target_ex z = Some f \<Longrightarrow> through_ex z ed h = dispatch h f ed"
  using assms
  by (auto simp: hooks_absent_def through_internal_def through_ex_def target_internal_def target_ex_def
      split: option.splits)

lemma through_shadows:
  assumes "hooks_absent z0" and "target_internal z = target_internal z0" and "target_ex z = target_ex z0"
    and "shadows h h0"
  shows "shadows (through_internal z ed h) (through_internal z0 ed h0)"
    and "shadows (through_ex z ed h) (through_ex z0 ed h0)"
proof -
  note absent = through_absent [OF assms(1)]
  show "shadows (through_internal z ed h) (through_internal z0 ed h0)"
    unfolding shadows_def absent assms(2) [symmetric]
    using between_shadows [OF dispatch_shadows [OF assms(4)] through_internal_runs] by blast
  show "shadows (through_ex z ed h) (through_ex z0 ed h0)"
    unfolding shadows_def
  proof (intro allI impI)
    fix st st0 out st'
    assume view: "program_view st = program_view st0" and "through_ex z ed h st = Some (out, st')"
    then obtain f where f: "target_ex z = Some f" "between (dispatch h f ed) out st st'"
      using through_ex_runs by blast
    have "through_ex z0 ed h0 = dispatch h0 f ed" using absent(2) f(1) assms(3) by simp
    then show "\<exists>st0'. through_ex z0 ed h0 st0 = Some (out, st0') \<and> program_view st' = program_view st0'"
      using between_shadows [OF dispatch_shadows [OF assms(4)] f(2) view] by simp
  qed
qed

lemma activities_shadow:
  assumes "\<And>a. a \<in> set as \<Longrightarrow> shadows (run_activity z a) (run_activity z0 a)"
  shows "shadows (run_activities z as) (run_activities z0 as)"
  using assms
proof (induction as)
  case Nil
  then show ?case by (simp add: shadows_def)
next
  case (Cons a as)
  then have a: "shadows (run_activity z a) (run_activity z0 a)"
    and as: "shadows (run_activities z as) (run_activities z0 as)" by simp_all
  show ?case
    unfolding shadows_def
  proof (intro allI impI)
    fix st st0 out st'
    assume view: "program_view st = program_view st0" and run: "run_activities z (a # as) st = Some (out, st')"
    then obtain o1 st1 where 1: "run_activity z a st = Some (o1, st1)"
      "(case o1 of Bailed_out \<Rightarrow> Some (Bailed_out, st1) | Returned \<Rightarrow> run_activities z as st1) = Some (out, st')"
      by (auto simp: bind_eq_Some_conv)
    from shadowsD [OF a 1(1) view] obtain st2 where 2: "run_activity z0 a st0 = Some (o1, st2)"
      "program_view st1 = program_view st2" by blast
    then show "\<exists>st0'. run_activities z0 (a # as) st0 = Some (out, st0') \<and> program_view st' = program_view st0'"
      using 1(2) shadowsD [OF as _ 2(2), of out st'] by (cases o1) auto
  qed
qed

lemma activity_shadows:
  assumes "hooks_absent z0" and "target_internal z = target_internal z0" and "target_ex z = target_ex z0"
  shows "shadows (run_activity z a) (run_activity z0 a)"
proof (induction a)
  case (Call_internal ed body)
  then have "shadows (run_activities z body) (run_activities z0 body)" by (rule activities_shadow)
  from through_shadows(1) [OF assms this] show ?case by (simp add: shadows_def)
next
  case (Call_user ed body)
  then have "shadows (run_activities z body) (run_activities z0 body)" by (rule activities_shadow)
  from through_shadows(2) [OF assms this] show ?case by (simp add: shadows_def)
qed (auto simp: shadows_def program_view_iff set_globals_def intro: settings_update)

lemma run_shadows:
  assumes "hooks_absent z0" and "target_internal z = target_internal z0" and "target_ex z = target_ex z0"
  shows "shadows (run_activities z as) (run_activities z0 as)"
  using activity_shadows [OF assms] by (intro activities_shadow)

text \<open>\<^verbatim>\<open>MINIT\<close> puts the hooks in front of what was there.\<close>

lemma minit_targets:
  assumes "hooks_absent z0"
  shows "target_internal (snd (lumbre_minit ini (g, z0))) = target_internal z0"
    and "target_ex (snd (lumbre_minit ini (g, z0))) = target_ex z0"
  using assms by (simp_all add: target_internal_def target_ex_def lumbre_minit_def hooks_absent_def)

subsection \<open>What a run keeps\<close>

text \<open>
  A property of states that the finish of a span, the context, the clock, the output, the record of
  reached functions and the two runtime settings do not touch is kept by every run.
\<close>

locale run_kept =
  fixes v :: "php_state \<Rightarrow> 'a"
  assumes finish_kept: "finish_call s st = Some st' \<Longrightarrow> v st' = v st"
    and ctx_kept: "v (set_globals ((ps_lumbre st)\<lparr>g_ctx := ctx\<rparr>) st) = v st"
    and reached_kept: "v (st\<lparr>ps_reached := r\<rparr>) = v st"
    and now_kept: "v (st\<lparr>ps_now := t\<rparr>) = v st"
    and output_kept: "v (st\<lparr>ps_output := o'\<rparr>) = v st"
    and enabled_kept: "v (set_globals ((ps_lumbre st)\<lparr>g_enabled := b\<rparr>) st) = v st"
    and min_duration_kept: "v (set_globals ((ps_lumbre st)\<lparr>g_min_duration_ns := n\<rparr>) st) = v st"
begin

lemma between_kept:
  assumes "between (dispatch h f ed) out st st'" and "\<And>st out st'. h st = Some (out, st') \<Longrightarrow> v st' = v st"
  shows "v st' = v st"
proof -
  have h: "v st' = v st" if "dispatch h f ed st = Some (out, st')" for st out st'
    using assms(2) that reached_kept by (fastforce simp: dispatch_def)
  have "v st' = v st" if run: "call_then_finish (dispatch h f ed) s st = Some (out, st')" for st s
  proof -
    obtain o1 st1 where 1: "dispatch h f ed st = Some (o1, st1)"
      "(case o1 of Bailed_out \<Rightarrow> Some (Bailed_out, st1)
        | Returned \<Rightarrow> do { st \<leftarrow> finish_call s st1; Some (Returned, st) }) = Some (out, st')"
      using run by (auto simp: call_then_finish_def bind_eq_Some_conv)
    have "v st' = v st1" using 1(2) finish_kept by (cases o1) (auto simp: bind_eq_Some_conv)
    with h [OF 1(1)] show ?thesis by simp
  qed
  with h assms(1) ctx_kept show ?thesis unfolding between_def by metis
qed

lemma run_kept:
  shows "run_activity z a st = Some (out, st') \<Longrightarrow> v st' = v st"
    and "run_activities z as st = Some (out, st') \<Longrightarrow> v st' = v st"
proof (induction z a st and z as st arbitrary: out st' and out st' rule: run_activity_run_activities.induct)
  case (5 z ed body st)
  show ?case by (rule between_kept [OF through_internal_runs [OF 5(2) [simplified]] 5(1)])
next
  case (6 z ed body st)
  obtain f where "between (dispatch (run_activities z body) f ed) out st st'"
    using through_ex_runs [OF 6(2) [simplified]] by blast
  then show ?case by (rule between_kept) (rule 6(1))
next
  case (9 z a as st)
  then obtain o1 st1 where 1: "run_activity z a st = Some (o1, st1)"
    "(case o1 of Bailed_out \<Rightarrow> Some (Bailed_out, st1) | Returned \<Rightarrow> run_activities z as st1) = Some (out, st')"
    by (auto simp: bind_eq_Some_conv)
  with 9 show ?case by (cases o1) fastforce+
qed (auto simp: now_kept output_kept enabled_kept min_duration_kept)

end

text \<open>A run touches no setting but the two that scripts may change.\<close>

definition fixed_settings :: "lumbre_globals \<Rightarrow> lumbre_globals" where
  "fixed_settings g = (settings g)\<lparr>g_enabled := False, g_min_duration_ns := 0\<rparr>"

lemma finish_call_settings: "finish_call s st = Some st' \<Longrightarrow> settings (ps_lumbre st') = settings (ps_lumbre st)"
  using finish_call_view program_view_iff by blast

interpretation fixed: run_kept "\<lambda>st. fixed_settings (ps_lumbre st)"
  by unfold_locales
    (simp_all add: fixed_settings_def set_globals_def finish_call_settings, simp_all add: settings_def)

lemma run_fixed:
  assumes "run_activities z as st = Some (out, st')"
  shows "fixed_settings (ps_lumbre st') = fixed_settings (ps_lumbre st)"
  by (rule fixed.run_kept(2) [OF assms])

end
