(* ===== verification/Lumbre_Trace_Correct.thy ===== *)
theory Lumbre_Trace_Correct
  imports Lumbre_Trace Lumbre_Policy Lumbre_Transparency
begin

text \<open>
  The proof that the hooks follow the abstract tracing, call by call and then for a whole tree of
  calls by induction over it.
\<close>

subsection \<open>The descriptions, as the hooks compute them\<close>

lemma narrow_length: "(ucast (of_nat n :: u64) :: u32) = of_nat n"
  by (rule bit_word_eqI) (simp add: bit_ucast_iff bit_of_nat_iff)

lemma text_len_zstr: "ucast (zstr_len s) = text_len s"
  by (simp add: text_len_def zstr_len_def narrow_length split: option.split)

lemma first_arg_text:
  "lumbre_extract_first_str_arg ed = (first_string (ed_args ed), text_len (first_string (ed_args ed)))"
  by (simp add: lumbre_extract_first_str_arg_def first_string_def text_len_def narrow_length
      split: list.split zval.split)

lemma db_label_inferred:
  assumes "classify cls func = Some LUMBRE_SPAN_DB"
  shows "lumbre_infer_db_type cls (zstr_len cls) = (db_label cls, text_len (Some (db_label cls)))"
proof -
  obtain s where s: "s \<in> set lumbre_wl_static_table" "static_key s = canonical cls func"
    "se_span_type s = LUMBRE_SPAN_DB"
    using assms by (auto simp: classify_def dest!: find_SomeD)
  show ?thesis
  proof (cases "cls = None \<or> cls = Some []")
    case True
    then show ?thesis
      by (auto simp: lumbre_infer_db_type_def db_label_def text_len_def zstr_len_def c_str_def)
  next
    case False
    then obtain c where c: "cls = Some c" "c \<noteq> []" by auto
    from pdo_db_type [OF static_methods(2) [OF s(1) s(2) [unfolded c(1)] c(2) s(3)]]
    show ?thesis by (simp add: c db_label_def text_len_def zstr_len_def name_len_def c_str_def)
  qed
qed

lemma described_internal:
  assumes "classify cls func = Some type"
  shows "describe_internal maxq type cls func (first_string (ed_args ed)) s =
    internal_payload maxq ed cls (zstr_len cls) (Some func) (zstr_len (Some func)) type s"
  using db_label_inferred [of cls func] assms
  by (auto simp: internal_payload_def describe_internal_def first_arg_text text_len_zstr lumbre_span_set_db_def
      lumbre_span_set_cache_def lumbre_span_set_file_io_def min_def span_types split: option.splits)

lemma described_user:
  "describe_user f func (ed_opline ed) s = (case user_location ed f of (file, file_len, line) \<Rightarrow>
     lumbre_span_set_func s (zf_scope_name f) (ucast (zstr_len (zf_scope_name f))) (Some func)
       (ucast (zstr_len (Some func))) (if file \<noteq> None then file else Some []) file_len line)"
  by (auto simp: describe_user_def user_location_def lumbre_span_set_func_def text_len_zstr Let_def text_len_def
      split: option.splits)

lemma span_of_internal_code: "span_of_internal e ed t =
    (if tr_enabled t then do {
       f \<leftarrow> ed_func ed;
       func \<leftarrow> zf_function_name f;
       type \<leftarrow> classify (zf_scope_name f) func;
       Some (internal_payload (te_max_query_len e) ed (zf_scope_name f) (zstr_len (zf_scope_name f))
               (Some func) (zstr_len (Some func)) type (new_span e type t)) }
     else None)"
  by (cases "ed_func ed"; cases "zf_function_name (the (ed_func ed))";
      cases "classify (zf_scope_name (the (ed_func ed))) (the (zf_function_name (the (ed_func ed))))")
    (simp_all add: span_of_internal_def described_internal)

lemma span_of_user_code: "span_of_user e ed t =
    (if tr_enabled t \<and> te_full e then do {
       f \<leftarrow> ed_func ed;
       func \<leftarrow> zf_function_name f;
       Some (case user_location ed f of (file, file_len, line) \<Rightarrow>
         lumbre_span_set_func (new_span e LUMBRE_SPAN_FUNC t)
           (zf_scope_name f) (ucast (zstr_len (zf_scope_name f))) (Some func) (ucast (zstr_len (Some func)))
           (if file \<noteq> None then file else Some []) file_len line) }
     else None)"
  by (simp only: span_of_user_def described_user)

subsection \<open>Spans the hooks build\<close>

lemma span_start_new:
  assumes "ready e st"
  shows "lumbre_span_start type (g_ctx (ps_lumbre st)) (ps_now st) =
    (new_span e type (tracer_of st),
     let ctx = g_ctx (ps_lumbre st) in
       ctx\<lparr>cx_span_counter := cx_span_counter ctx + 1, cx_current_parent_id := cx_span_counter ctx,
           cx_root_span_id := (if cx_current_parent_id ctx = 0 then cx_span_counter ctx else cx_root_span_id ctx)\<rparr>)"
  using assms
  by (auto simp: lumbre_span_start_def new_span_def tracer_of_def ready_def Let_def)

lemma new_span_ids [simp]:
  "sp_span_id (new_span e type t) = tr_counter t"
  "sp_parent_id (new_span e type t) = tr_parent t"
  "sp_type (new_span e type t) = type"
  by (simp_all add: new_span_def)

lemma new_span_ok: "length (te_trace_id e) = 16 \<Longrightarrow> span_ok (new_span e type t)"
  by (simp add: new_span_def zero_span_def span_ok_def text_ok_def readable_def)

lemma internal_payload_ids [simp]:
  "sp_span_id (internal_payload maxq ed c cl f fl type s) = sp_span_id s"
  "sp_parent_id (internal_payload maxq ed c cl f fl type s) = sp_parent_id s"
  "sp_type (internal_payload maxq ed c cl f fl type s) = sp_type s"
  by (simp_all add: internal_payload_def lumbre_span_set_db_def lumbre_span_set_cache_def
      lumbre_span_set_file_io_def split: prod.splits)

lemma str_text_ok:
  assumes "str_ok s"
  shows "text_ok (Some s) (ucast (of_nat (length s) :: u64))"
proof -
  have "unat (ucast (of_nat (length s) :: u64) :: u32) = length s"
    using assms by (simp add: str_ok_def unsigned_ucast_eq unat_of_nat take_bit_nat_eq_self)
  then show ?thesis using assms by (simp add: text_ok_def readable_def str_ok_def)
qed

lemma string_text_ok: "string_ok s \<Longrightarrow> text_ok s (ucast (zstr_len s))"
  by (cases s) (simp_all add: string_ok_def zstr_len_def str_text_ok, simp add: text_ok_def readable_def)

lemma text_ok_empty [simp]: "text_ok None 0" "text_ok (Some []) 0"
  by (simp_all add: text_ok_def readable_def)

lemma first_arg_ok:
  assumes "string_ok (fst (lumbre_extract_first_str_arg ed))"
  shows "text_ok (fst (lumbre_extract_first_str_arg ed)) (snd (lumbre_extract_first_str_arg ed))"
  using assms
  by (auto simp: lumbre_extract_first_str_arg_def string_ok_def str_text_ok split: list.splits zval.splits)

lemma first_arg_null: "fst (lumbre_extract_first_str_arg ed) = None \<Longrightarrow> snd (lumbre_extract_first_str_arg ed) = 0"
  by (auto simp: lumbre_extract_first_str_arg_def split: list.splits zval.splits)

lemma db_type_ok:
  "text_ok (Some (fst (lumbre_infer_db_type c n))) (snd (lumbre_infer_db_type c n))"
  by (auto simp: lumbre_infer_db_type_def text_ok_def readable_def split: option.splits)

text \<open>Every setter keeps a span encodable when it is given encodable strings.\<close>

lemma setters_ok:
  assumes "span_ok s" and "text_ok p n" and "text_ok q m"
  shows "span_ok (lumbre_span_set_db s p n q m rows maxq)"
    and "span_ok (lumbre_span_set_cache s p n q m)"
    and "span_ok (lumbre_span_set_file_io s p n)"
    and "span_ok (lumbre_span_set_http_in s p n q m)"
    and "span_ok (lumbre_span_set_http_out s p n q m status)"
proof -
  have "text_ok p (if maxq < n then maxq else n)"
    using text_ok_shorter [OF assms(2), of maxq] assms(2) by (auto simp: min_def not_le split: if_splits)
  then show "span_ok (lumbre_span_set_db s p n q m rows maxq)"
    using assms by (simp add: span_ok_def lumbre_span_set_db_def)
qed (use assms in \<open>simp_all add: span_ok_def lumbre_span_set_cache_def lumbre_span_set_file_io_def
      lumbre_span_set_http_in_def lumbre_span_set_http_out_def\<close>)

lemma set_func_ok:
  assumes "span_ok s" and "text_ok c cn" and "text_ok f fn" and "text_ok p n"
  shows "span_ok (lumbre_span_set_func s c cn f fn p n line)"
  using assms by (simp add: span_ok_def lumbre_span_set_func_def)

lemma internal_payload_ok:
  assumes "span_ok s" and "string_ok f" and "string_ok (fst (lumbre_extract_first_str_arg ed))"
  shows "span_ok (internal_payload maxq ed c cl f (zstr_len f) type s)"
proof -
  obtain p n where arg: "lumbre_extract_first_str_arg ed = (p, n)" by (cases "lumbre_extract_first_str_arg ed")
  obtain q m where db: "lumbre_infer_db_type c cl = (q, m)" by (cases "lumbre_infer_db_type c cl")
  have "text_ok p n" "text_ok (Some q) m" "p = None \<Longrightarrow> n = 0"
    using first_arg_ok [OF assms(3)] db_type_ok [of c cl] first_arg_null [of ed] arg db by simp_all
  then show ?thesis
    using assms(1) string_text_ok [OF assms(2)]
    by (auto simp: internal_payload_def arg db intro!: setters_ok)
qed

lemma span_of_internal_ok:
  assumes "span_of_internal e ed t = Some s" and "frame_ok ed" and "length (te_trace_id e) = 16"
  shows "span_ok s" and "sp_span_id s = tr_counter t" and "sp_parent_id s = tr_parent t"
  using assms internal_payload_ok [OF new_span_ok [OF assms(3)]]
  by (auto simp: span_of_internal_code frame_ok_def bind_eq_Some_conv split: if_splits)

lemma span_of_user_ok:
  assumes "span_of_user e ed t = Some s" and "frame_ok ed" and "length (te_trace_id e) = 16"
  shows "span_ok s" and "sp_span_id s = tr_counter t" and "sp_parent_id s = tr_parent t"
proof -
  obtain f func where f: "ed_func ed = Some f" "zf_function_name f = Some func"
    "s = (case user_location ed f of (file, file_len, line) \<Rightarrow>
          lumbre_span_set_func (new_span e LUMBRE_SPAN_FUNC t)
            (zf_scope_name f) (ucast (zstr_len (zf_scope_name f))) (Some func) (ucast (zstr_len (Some func)))
            (if file \<noteq> None then file else Some []) file_len line)"
    using assms(1) by (auto simp: span_of_user_code bind_eq_Some_conv split: if_splits)
  have names: "string_ok (zf_scope_name f)" "string_ok (Some func)" "string_ok (zf_filename f)"
    using assms(2) f by (simp_all add: frame_ok_def)
  have "zf_filename f = None \<Longrightarrow> (ucast (zstr_len (zf_filename f)) :: u32) = 0"
    by (simp add: zstr_len_def)
  then show "span_ok s"
    using new_span_ok [OF assms(3)] names [THEN string_text_ok] f(3)
    by (auto simp: user_location_def intro!: set_func_ok)
  show "sp_span_id s = tr_counter t" "sp_parent_id s = tr_parent t"
    using f(3) by (simp_all add: lumbre_span_set_func_def split: prod.splits)
qed

subsection \<open>State bookkeeping\<close>

lemma tracer_views [simp]:
  "tr_now (tracer_of st) = ps_now st"
  "tr_min (tracer_of st) = g_min_duration_ns (ps_lumbre st)"
  "tr_enabled (tracer_of st) = g_enabled (ps_lumbre st)"
  "tr_counter (tracer_of st) = cx_span_counter (g_ctx (ps_lumbre st))"
  "tr_parent (tracer_of st) = cx_current_parent_id (g_ctx (ps_lumbre st))"
  by (simp_all add: tracer_of_def)

lemma finish_call_follows:
  assumes r: "ready e st" and s: "span_ok s"
  shows "case ring_offers (te_capacity e) (map span_image (recorded e s (tracer_of st))) (ring_of st) of
      None \<Rightarrow> finish_call s st = None
    | Some rb \<Rightarrow> \<exists>st'. finish_call s st = Some st' \<and> ready e st' \<and> ring_of st' = rb \<and>
        tracer_of st' = (tracer_of st)\<lparr>tr_parent := sp_parent_id s\<rparr>"
proof -
  define g where "g = ps_lumbre st"
  have mp: "mp_ready (g_mp_buf g)" and cap: "unat (mb_capacity (g_mp_buf g)) = te_capacity e"
    and maxq: "te_max_query_len e = ucast (g_max_query_len g)"
    using r by (simp_all add: ready_def Let_def g_def)
  have finish: "finish_call s st = do {
      (rc, span, rb, mp, ctx) \<leftarrow> lumbre_span_finish s (g_ringbuf g) (g_mp_buf g) (g_ctx g)
         (g_min_duration_ns g) (te_max_query_len e) (ps_now st);
      Some (set_globals (g\<lparr>g_ringbuf := rb, g_mp_buf := mp, g_ctx := ctx\<rparr>) st) }"
    by (simp add: finish_call_def g_def [symmetric] maxq)
  let ?ctx = "(g_ctx g)\<lparr>cx_current_parent_id := sp_parent_id s\<rparr>"
  have result: "ready e st' \<and> ring_of st' = rb \<and> tracer_of st' = (tracer_of st)\<lparr>tr_parent := sp_parent_id s\<rparr>"
    if "st' = set_globals (g\<lparr>g_ringbuf := rb, g_mp_buf := mp', g_ctx := ?ctx\<rparr>) st"
      and "mp_ready mp'" and "mb_capacity mp' = mb_capacity (g_mp_buf g)" for st' rb mp'
    using that r by (simp add: ready_def set_globals_def ring_of_def tracer_of_def g_def Let_def)
  note cases = span_finish_cases [OF s mp, of "ps_now st" "g_min_duration_ns g" "g_ringbuf g" "g_ctx g"
      "te_max_query_len e"]
  show ?thesis
  proof (cases "span_filtered s (ps_now st) (g_min_duration_ns g)")
    case True
    with cases result [OF refl mp refl, of "g_ringbuf g"] show ?thesis
      by (simp add: finish recorded_def g_def [symmetric] ring_of_def del: lumbre_globals.update_convs)
  next
    case False
    with cases obtain mp' where "mp_ready mp'" "mb_capacity mp' = mb_capacity (g_mp_buf g)"
      "lumbre_span_finish s (g_ringbuf g) (g_mp_buf g) (g_ctx g) (g_min_duration_ns g)
         (te_max_query_len e) (ps_now st) =
        (if te_capacity e < length (span_image (span_final s (ps_now st) (te_max_query_len e)))
         then Some (-1, span_final s (ps_now st) (te_max_query_len e), g_ringbuf g, mp', ?ctx)
         else do { (rc, rb) \<leftarrow> ring_put (g_ringbuf g) (span_image (span_final s (ps_now st) (te_max_query_len e)));
           Some (rc, span_final s (ps_now st) (te_max_query_len e), rb, mp', ?ctx) })"
      unfolding cap by auto
    with False result [OF refl, of mp' "g_ringbuf g"] result [OF refl, of mp'] show ?thesis
      by (auto simp: finish recorded_def g_def [symmetric] ring_of_def split: option.splits bind_splits)
  qed
qed

lemma call_then_finish_follows:
  assumes r: "ready e st" and s: "span_ok s"
    and ids: "sp_span_id s = cx_span_counter (g_ctx (ps_lumbre st))"
    and body: "\<And>st. ready e st \<Longrightarrow> follows e h spec st"
    and ctx: "cx_span_counter ctx = cx_span_counter (g_ctx (ps_lumbre st)) + 1"
      "cx_current_parent_id ctx = sp_span_id s" "cx_trace_id ctx = cx_trace_id (g_ctx (ps_lumbre st))"
      "cx_active ctx = cx_active (g_ctx (ps_lumbre st))"
      "cx_full_trace ctx = cx_full_trace (g_ctx (ps_lumbre st))"
  shows "follows e (\<lambda>st. call_then_finish h s (set_globals ((ps_lumbre st)\<lparr>g_ctx := ctx\<rparr>) st))
    (traced_call e (Some s) spec) st"
proof -
  define st1 where "st1 = set_globals ((ps_lumbre st)\<lparr>g_ctx := ctx\<rparr>) st"
  have st1: "ready e st1" "ring_of st1 = ring_of st"
    "tracer_of st1 = (tracer_of st)\<lparr>tr_counter := tr_counter (tracer_of st) + 1, tr_parent := sp_span_id s\<rparr>"
    using r ctx by (simp_all add: st1_def ready_def set_globals_def ring_of_def tracer_of_def Let_def)
  obtain out spans t where spec: "spec (tracer_of st1) = (out, spans, t)" by (cases "spec (tracer_of st1)")
  note b = body [OF st1(1), unfolded follows_def spec prod.case st1(2)]
  show ?thesis
  proof (cases "ring_offers (te_capacity e) (map span_image spans) (ring_of st)")
    case None
    with b have "h st1 = None" by simp
    with None spec show ?thesis
      by (cases out) (simp_all add: follows_def st1(3) st1_def [symmetric] call_then_finish_def ring_offers_append)
  next
    case (Some rb)
    with b obtain st2 where st2: "h st1 = Some (out, st2)" "ready e st2" "ring_of st2 = rb" "tracer_of st2 = t"
      by auto
    show ?thesis
    proof (cases out)
      case Returned
      with finish_call_follows [OF st2(2) s] spec Some st2 show ?thesis
        by (auto simp: follows_def st1(3) st1_def [symmetric] call_then_finish_def ring_offers_append
            split: option.splits)
    next
      case Bailed_out
      with spec Some st2 show ?thesis
        by (simp add: follows_def st1(3) st1_def [symmetric] call_then_finish_def)
    qed
  qed
qed

subsection \<open>The hooks\<close>

lemma zstr_len_name: "zstr_len s = name_len s"
  by (simp add: zstr_len_def name_len_def)

lemma string_name_ok: "string_ok s \<Longrightarrow> name_ok s"
  by (auto simp: string_ok_def name_ok_def str_ok_def split: option.splits)

lemma match_classifies:
  assumes "lumbre_whitelist_init = Some wl" and "string_ok cls" and "str_ok func"
  shows "\<exists>entry. lumbre_whitelist_match wl cls (zstr_len cls) (Some func) (zstr_len (Some func)) = Some entry \<and>
    map_option we_span_type entry = classify cls func"
proof -
  have "name_ok cls" "name_ok (Some func)"
    using assms(2,3) string_name_ok [of cls] string_name_ok [of "Some func"] by (simp_all add: string_ok_def)
  from whitelist_lookup [OF assms(1) this] show ?thesis
    by (auto simp: wl_lookup_def zstr_len_name classify_def static_entry_def option.map_comp comp_def)
qed

lemma call_originals:
  assumes "hooks_installed z"
  shows "call_original_internal (dispatch h) z ed = dispatch h (target_internal z) ed"
    and "call_original_ex (dispatch h) z ed = dispatch h (the (target_ex z)) ed"
  using assms call_original_dispatch [of z h ed]
  by (auto simp: hooks_installed_def target_ex_def fun_eq_iff)

lemma minit_hooks:
  "zend_execute_ex z \<noteq> None \<Longrightarrow> hooks_installed (snd (lumbre_minit ini (g, z)))"
  by (simp add: lumbre_minit_def hooks_installed_def)

definition started :: "trace_env \<Rightarrow> u8 \<Rightarrow> php_state \<Rightarrow> lumbre_context_t" where
  "started e type st = snd (lumbre_span_start type (g_ctx (ps_lumbre st)) (ps_now st))"

lemma through_internal_cases:
  assumes "ready e st" and "hooks_installed z" and "frame_ok ed"
  shows "case span_of_internal e ed (tracer_of st) of
      None \<Rightarrow> through_internal z ed h st = dispatch h (target_internal z) ed st
    | Some s \<Rightarrow> \<exists>type. through_internal z ed h st =
        call_then_finish (dispatch h (target_internal z) ed) s (set_globals ((ps_lumbre st)\<lparr>g_ctx := started e type st\<rparr>) st)"
proof -
  obtain f where f: "ed_func ed = Some f" "string_ok (zf_scope_name f)" "string_ok (zf_function_name f)"
    using assms(3) by (auto simp: frame_ok_def split: option.splits)
  have r: "lumbre_whitelist_init = Some (g_whitelist (ps_lumbre st))" "cx_active (g_ctx (ps_lumbre st)) \<noteq> 0"
    "te_max_query_len e = ucast (g_max_query_len (ps_lumbre st))"
    using assms(1) by (simp_all add: ready_def Let_def)
  have hook: "through_internal z ed h = lumbre_execute_internal (dispatch h) z ed"
    using assms(2) by (simp add: through_internal_def hooks_installed_def)
  note orig = call_originals(1) [OF assms(2)]
  show ?thesis
  proof (cases "g_enabled (ps_lumbre st) \<and> zf_function_name f \<noteq> None")
    case False
    then show ?thesis using f r
      by (auto simp: hook orig lumbre_execute_internal_def lumbre_extract_names_def span_of_internal_code Let_def)
  next
    case True
    then obtain func where func: "zf_function_name f = Some func" by auto
    with f have "str_ok func" by (simp add: string_ok_def)
    with match_classifies [OF r(1) f(2)] obtain entry where m:
      "lumbre_whitelist_match (g_whitelist (ps_lumbre st)) (zf_scope_name f) (zstr_len (zf_scope_name f))
         (Some func) (zstr_len (Some func)) = Some entry"
      "map_option we_span_type entry = classify (zf_scope_name f) func"
      by blast
    show ?thesis
      using True f func m(1) m(2) [symmetric] r span_start_new [OF assms(1)]
      by (cases entry)
        (auto simp: hook orig lumbre_execute_internal_def lumbre_extract_names_def span_of_internal_code
          started_def Let_def split: option.splits)
  qed
qed

lemma through_ex_cases:
  assumes "ready e st" and "hooks_installed z" and "frame_ok ed"
  shows "case span_of_user e ed (tracer_of st) of
      None \<Rightarrow> through_ex z ed h st = dispatch h (the (target_ex z)) ed st
    | Some s \<Rightarrow> \<exists>type. through_ex z ed h st =
        call_then_finish (dispatch h (the (target_ex z)) ed) s (set_globals ((ps_lumbre st)\<lparr>g_ctx := started e type st\<rparr>) st)"
proof -
  obtain f where f: "ed_func ed = Some f" using assms(3) by (auto simp: frame_ok_def split: option.splits)
  have r: "cx_active (g_ctx (ps_lumbre st)) \<noteq> 0"
    "te_full e \<longleftrightarrow> g_mode (ps_lumbre st) = 1 \<or> cx_full_trace (g_ctx (ps_lumbre st)) \<noteq> 0"
    using assms(1) by (simp_all add: ready_def Let_def)
  have hook: "through_ex z ed h = lumbre_execute_ex (dispatch h) z ed"
    using assms(2) by (simp add: through_ex_def hooks_installed_def)
  note orig = call_originals(2) [OF assms(2)]
  show ?thesis
    using f r span_start_new [OF assms(1)]
    by (auto simp: hook orig lumbre_execute_ex_def span_of_user_code started_def Let_def
        split: option.splits prod.splits)
qed

text \<open>What is reached plays no part in tracing.\<close>

lemma reached_fields [simp]:
  "ready e (st\<lparr>ps_reached := r\<rparr>) = ready e st" "tracer_of (st\<lparr>ps_reached := r\<rparr>) = tracer_of st"
  "ring_of (st\<lparr>ps_reached := r\<rparr>) = ring_of st"
  by (simp_all add: ready_def tracer_of_def ring_of_def)

lemma dispatch_follows:
  assumes "\<And>st. ready e st \<Longrightarrow> follows e h spec st" and "ready e st"
  shows "follows e (dispatch h f ed) spec st"
  using assms(1) [of "st\<lparr>ps_reached := ps_reached st @ [(f, ed)]\<rparr>"] assms(2)
  unfolding follows_def dispatch_def by simp

lemma call_follows:
  assumes r: "ready e st" and body: "\<And>st. ready e st \<Longrightarrow> follows e h spec st"
    and ok: "\<And>s. span = Some s \<Longrightarrow> span_ok s \<and> sp_span_id s = tr_counter (tracer_of st)"
    and run: "case span of
      None \<Rightarrow> h' st = h st
    | Some s \<Rightarrow> \<exists>type. h' st =
        call_then_finish h s (set_globals ((ps_lumbre st)\<lparr>g_ctx := started e type st\<rparr>) st)"
  shows "follows e h' (traced_call e span spec) st"
proof (cases span)
  case None
  with run have "h' st = h st" by simp
  with body [OF r] show ?thesis unfolding None follows_def traced_call.simps by (simp only:)
next
  case (Some s)
  with run obtain type where h': "h' st =
      call_then_finish h s (set_globals ((ps_lumbre st)\<lparr>g_ctx := started e type st\<rparr>) st)" by auto
  have id: "sp_span_id s = cx_span_counter (g_ctx (ps_lumbre st))" using ok Some by simp
  have "follows e (\<lambda>st'. call_then_finish h s (set_globals ((ps_lumbre st')\<lparr>g_ctx := started e type st\<rparr>) st'))
      (traced_call e (Some s) spec) st"
    using r ok Some id body
    by (intro call_then_finish_follows)
      (auto simp: started_def span_start_new [OF r] Let_def)
  then show ?thesis using h' Some by (simp only: follows_def)
qed

lemma seq_follows:
  assumes a: "follows e h1 spec1 st"
    and as: "\<And>spans t st'. spec1 (tracer_of st) = (Returned, spans, t) \<Longrightarrow> tracer_of st' = t \<Longrightarrow>
      ready e st' \<Longrightarrow> follows e h2 spec2 st'"
  shows "follows e
    (\<lambda>st. do { (out, st) \<leftarrow> h1 st;
       (case out of Bailed_out \<Rightarrow> Some (Bailed_out, st) | Returned \<Rightarrow> h2 st) })
    (\<lambda>t. case spec1 t of
        (Bailed_out, spans, t) \<Rightarrow> (Bailed_out, spans, t)
      | (Returned, spans, t) \<Rightarrow> (case spec2 t of (out, spans', t) \<Rightarrow> (out, spans @ spans', t))) st"
proof -
  obtain out spans t where spec: "spec1 (tracer_of st) = (out, spans, t)" by (cases "spec1 (tracer_of st)")
  note a = a [unfolded follows_def spec prod.case]
  show ?thesis
  proof (cases "ring_offers (te_capacity e) (map span_image spans) (ring_of st)")
    case None
    with a spec show ?thesis
      by (cases out) (simp_all add: follows_def ring_offers_append split: prod.splits)
  next
    case (Some rb)
    with a obtain st1 where st1: "h1 st = Some (out, st1)" "ready e st1" "ring_of st1 = rb" "tracer_of st1 = t"
      by auto
    show ?thesis
    proof (cases out)
      case Bailed_out
      with Some spec st1 show ?thesis by (simp add: follows_def)
    next
      case Returned
      with as [OF _ st1(4,2)] spec have "follows e h2 spec2 st1" by simp
      with Returned Some spec st1 show ?thesis
        by (auto simp: follows_def ring_offers_append split: prod.splits option.splits)
    qed
  qed
qed

text \<open>A whole tree of calls, by induction over the tree.\<close>

lemma run_follows:
  assumes z: "hooks_installed z"
  shows "activity_ok a \<Longrightarrow> ready e st \<Longrightarrow> follows e (run_activity z a) (trace_activity e a) st"
    and "list_all activity_ok as \<Longrightarrow> ready e st \<Longrightarrow> follows e (run_activities z as) (trace_activities e as) st"
proof (induction e a "tracer_of st" and e as "tracer_of st" arbitrary: st and st
    rule: trace_activity_trace_activities.induct)
  case (5 e ed body)
  have ok: "frame_ok ed" "length (te_trace_id e) = 16" "list_all activity_ok body"
    using "5.prems" by (simp_all add: ready_def Let_def)
  have "follows e (through_internal z ed (run_activities z body))
      (traced_call e (span_of_internal e ed (tracer_of st)) (trace_activities e body)) st"
    using "5.hyps" ok span_of_internal_ok [OF _ ok(1,2)] through_internal_cases [OF "5.prems"(2) z ok(1)]
    by (intro call_follows [OF "5.prems"(2) dispatch_follows]) auto
  then show ?case by (simp only: follows_def run_activity.simps trace_activity.simps
      run_activities.simps trace_activities.simps)
next
  case (6 e ed body)
  have ok: "frame_ok ed" "length (te_trace_id e) = 16" "list_all activity_ok body"
    using "6.prems" by (simp_all add: ready_def Let_def)
  have "follows e (through_ex z ed (run_activities z body))
      (traced_call e (span_of_user e ed (tracer_of st)) (trace_activities e body)) st"
    using "6.hyps" ok span_of_user_ok [OF _ ok(1,2)] through_ex_cases [OF "6.prems"(2) z ok(1)]
    by (intro call_follows [OF "6.prems"(2) dispatch_follows]) auto
  then show ?case by (simp only: follows_def run_activity.simps trace_activity.simps
      run_activities.simps trace_activities.simps)
next
  case (9 e a as)
  have "follows e (run_activity z a) (trace_activity e a) st" using "9.hyps"(1) "9.prems" by simp
  then have "follows e
    (\<lambda>st. do { (out, st) \<leftarrow> run_activity z a st;
       (case out of Bailed_out \<Rightarrow> Some (Bailed_out, st) | Returned \<Rightarrow> run_activities z as st) })
    (\<lambda>t. case trace_activity e a t of
        (Bailed_out, spans, t) \<Rightarrow> (Bailed_out, spans, t)
      | (Returned, spans, t) \<Rightarrow>
          (case trace_activities e as t of (out, spans', t) \<Rightarrow> (out, spans @ spans', t))) st"
    by (rule seq_follows) (use "9.hyps"(2) "9.prems" in auto)
  then show ?case by (simp only: follows_def run_activity.simps trace_activity.simps
      run_activities.simps trace_activities.simps)
qed (auto simp: follows_def ready_def ring_of_def tracer_of_def set_globals_def Let_def)

end
