(* ===== verification/Lumbre_Module_Correct.thy ===== *)
theory Lumbre_Module_Correct
  imports Lumbre_Module
begin

text \<open>
  Correctness of the module layer around the hooks: the hexadecimal trace id, the mode setting,
  the trigger header, installing and restoring the hooks, and what a request start establishes or
  gives up.
\<close>

subsection \<open>Hexadecimal\<close>

definition is_hex :: "u8 \<Rightarrow> bool" where
  "is_hex c \<longleftrightarrow> hex_digit c \<noteq> None"

definition hex_char :: "u8 \<Rightarrow> u8" where
  "hex_char d = (if d < 10 then 48 + d else 87 + d)"

text \<open>The lower-case hexadecimal form of a byte string.\<close>

definition hex_of :: "bytes \<Rightarrow> bytes" where
  "hex_of bs = concat (map (\<lambda>b. [hex_char (drop_bit 4 b), hex_char (b AND 15)]) bs)"

fun dec_hex :: "bytes \<Rightarrow> bytes option" where
  "dec_hex (h # l # r) = do {
     hi \<leftarrow> hex_digit h; lo \<leftarrow> hex_digit l; bs \<leftarrow> dec_hex r;
     Some (ucast (push_bit 4 hi OR lo) # bs) }"
| "dec_hex _ = Some []"

lemma dec_hex_length: "dec_hex s = Some bs \<Longrightarrow> length bs = length s div 2"
  by (induction s arbitrary: bs rule: dec_hex.induct) (auto simp: bind_eq_Some_conv)

lemma hex_loop_dec:
  assumes "length hex = 2 * (i + n)" and "length out = i + n"
  shows "case dec_hex (drop (2 * i) hex) of
      None \<Rightarrow> \<exists>out'. hex_loop hex out i n = Some (-1, out') \<and> length out' = length out
    | Some bs \<Rightarrow> hex_loop hex out i n = Some (0, take i out @ bs)"
  using assms
proof (induction n arbitrary: i out)
  case 0
  then show ?case by simp
next
  case (Suc n)
  then have i: "2 * i + 1 < length hex" "i < length out" by simp_all
  have split: "drop (2 * i) hex = hex ! (2 * i) # hex ! (2 * i + 1) # drop (2 * Suc i) hex"
    using i by (simp add: Cons_nth_drop_Suc)
  have one: "mem_load hex j (Suc 0) = Some [hex ! j]" if "j < length hex" for j
    using that by (simp add: mem_load_def take_Suc_conv_app_nth Cons_nth_drop_Suc [symmetric])
  have load: "mem_load hex (i * 2) (Suc 0) = Some [hex ! (2 * i)]"
    "mem_load hex (Suc (i * 2)) (Suc 0) = Some [hex ! (2 * i + 1)]"
    using i one [of "i * 2"] one [of "Suc (i * 2)"] by (simp_all add: mult.commute)
  have store: "mem_store out i [x] = Some (out[i := x])" for x
    using i by (simp add: mem_store_def overwrite_def upd_conv_take_nth_drop)
  show ?case
  proof (cases "hex_digit (hex ! (2 * i)) = None \<or> hex_digit (hex ! (2 * i + 1)) = None")
    case True
    then show ?thesis unfolding split by (auto simp: load split: option.splits)
  next
    case False
    then obtain hi lo where d: "hex_digit (hex ! (2 * i)) = Some hi" "hex_digit (hex ! (2 * i + 1)) = Some lo"
      by auto
    define x :: u8 where "x = ucast (push_bit 4 hi OR lo)"
    have "length hex = 2 * (Suc i + n)" "length (out[i := x]) = Suc i + n" using Suc.prems by simp_all
    from Suc.IH [OF this] show ?thesis
      unfolding split using i d
      by (auto simp: load store x_def [symmetric] take_Suc_conv_app_nth split: option.splits)
  qed
qed

text \<open>Facts about single characters, checked for all 256 of them.\<close>

lemma hex_digit_table:
  "list_all (\<lambda>i. let c = (word_of_nat i :: u8) in
     hex_digit c = None \<or>
     (case hex_digit c of None \<Rightarrow> True | Some d \<Rightarrow> d < 16 \<and> hex_char (ucast d) = wl_lower c)) [0..<256]"
  by code_simp

lemma hex_byte_table:
  "list_all (\<lambda>i. list_all (\<lambda>j. let hi = (word_of_nat i :: u32); lo = (word_of_nat j :: u32);
     b = (ucast (push_bit 4 hi OR lo) :: u8) in drop_bit 4 b = ucast hi \<and> b AND 15 = ucast lo) [0..<16]) [0..<16]"
  by code_simp

lemma u8_in_table: "list_all P (map word_of_nat [0..<256]) \<Longrightarrow> P (c :: u8)"
proof -
  assume t: "list_all P (map word_of_nat [0..<256])"
  have "unat c < 256" using unsigned_less [of c, where ?'a = nat] by simp
  then have "word_of_nat (unat c) \<in> (word_of_nat ` {0..<256} :: u8 set)" by (intro imageI) simp
  with t show "P c" by (auto simp: list_all_iff)
qed

lemma hex_digit_char:
  assumes "hex_digit c = Some d"
  shows "d < 16 \<and> hex_char (ucast d) = wl_lower c"
proof -
  have "list_all (\<lambda>c. hex_digit c = None \<or>
     (case hex_digit c of None \<Rightarrow> True | Some d \<Rightarrow> d < 16 \<and> hex_char (ucast d) = wl_lower c))
     (map word_of_nat [0..<256])"
    using hex_digit_table unfolding list.pred_map comp_def Let_def .
  from u8_in_table [OF this, of c] assms show ?thesis by simp
qed

lemma hex_byte:
  assumes "hi < (16 :: u32)" and "lo < (16 :: u32)"
  shows "drop_bit 4 (ucast (push_bit 4 hi OR lo) :: u8) = ucast hi"
    and "(ucast (push_bit 4 hi OR lo) :: u8) AND 15 = ucast lo"
proof -
  have "unat hi \<in> set [0..<16]" "unat lo \<in> set [0..<16]"
    using assms by (simp_all add: word_less_nat_alt)
  with hex_byte_table show "drop_bit 4 (ucast (push_bit 4 hi OR lo) :: u8) = ucast hi"
    and "(ucast (push_bit 4 hi OR lo) :: u8) AND 15 = ucast lo"
    by (fastforce simp: list_all_iff Let_def simp del: set_upt)+
qed

lemma dec_hex_correct:
  "even (length s) \<Longrightarrow> (dec_hex s \<noteq> None \<longleftrightarrow> list_all is_hex s) \<and>
   (\<forall>bs. dec_hex s = Some bs \<longrightarrow> hex_of bs = map wl_lower s)"
proof (induction s rule: dec_hex.induct)
  case (1 h l r)
  then show ?case
    using hex_digit_char [of h] hex_digit_char [of l]
    by (cases "hex_digit h"; cases "hex_digit l"; cases "dec_hex r")
      (auto simp: is_hex_def hex_of_def hex_byte)
qed (simp_all add: hex_of_def)

lemma hex_to_bin_spec:
  assumes "length out = n" and "n < 4294967296" and "length hex < 4294967296"
  shows "\<exists>rc out'. lumbre_hex_to_bin hex (of_nat (length hex)) out (of_nat n) = Some (rc, out') \<and>
    length out' = n \<and> (rc = 0 \<longleftrightarrow> length hex = 2 * n \<and> list_all is_hex hex) \<and>
    (rc = 0 \<longrightarrow> hex_of out' = map wl_lower hex)"
proof -
  have n: "unat (of_nat n :: u64) = n" "unat (of_nat (length hex) :: u64) = length hex"
    using assms by (simp_all add: unat_of_nat)
  have "unat (of_nat n * 2 :: u64) = n * 2"
    using assms(2) n(1) by (simp add: unat_word_ariths)
  then have guard: "(of_nat (length hex) :: u64) = of_nat n * 2 \<longleftrightarrow> length hex = 2 * n"
    using n(2) by (metis mult.commute word_unat_eq_iff)
  show ?thesis
  proof (cases "length hex = 2 * n")
    case False
    then show ?thesis using assms(1) by (simp add: lumbre_hex_to_bin_def guard)
  next
    case True
    have run: "lumbre_hex_to_bin hex (of_nat (length hex)) out (of_nat n) = hex_loop hex out 0 n"
      using True guard n(1) by (simp add: lumbre_hex_to_bin_def)
    have "length hex = 2 * (0 + n)" "length out = 0 + n" using True assms(1) by simp_all
    from hex_loop_dec [OF this] dec_hex_correct [of hex] dec_hex_length [of hex] True assms(1)
    show ?thesis unfolding run by (auto split: option.splits)
  qed
qed

subsection \<open>Properties\<close>

text \<open>
  \<^verbatim>\<open>lumbre_hex_to_bin\<close> never reads past the string or writes past the output; it returns 0
  exactly for a string of twice the output's length made of hexadecimal digits of either case,
  and the bytes it stored then have that string as their hexadecimal form.
\<close>

theorem hex_to_bin_correct:
  assumes "length out = n" and "n < 4294967296" and "length hex < 4294967296"
  shows "\<exists>rc out'. lumbre_hex_to_bin hex (of_nat (length hex)) out (of_nat n) = Some (rc, out') \<and>
    length out' = n \<and> (rc = 0 \<longleftrightarrow> length hex = 2 * n \<and> list_all is_hex hex) \<and>
    (rc = 0 \<longrightarrow> hex_of out' = map wl_lower hex)"
  using assms by (rule hex_to_bin_spec)

theorem hex_to_bin_correct_witness:
  "\<exists>rc out'. lumbre_hex_to_bin (c_str ''00fFA9'') (of_nat (length (c_str ''00fFA9''))) [7, 7, 7] (of_nat 3) =
     Some (rc, out') \<and> rc = 0 \<and> hex_of out' = c_str ''00ffa9''"
proof -
  have "list_all is_hex (c_str ''00fFA9'')" "map wl_lower (c_str ''00fFA9'') = c_str ''00ffa9''"
    by code_simp+
  moreover have "length [7, 7, 7 :: u8] = 3" by simp
  ultimately show ?thesis using hex_to_bin_correct [of "[7, 7, 7]" 3 "c_str ''00fFA9''"] by simp blast
qed

lemma trace_id_spec:
  "\<exists>propagated. rinit_trace_id server = Some propagated \<and>
    (case propagated of
       Some tid \<Rightarrow> \<exists>vars s. server = Zval_array vars \<and>
         map_of vars (c_str ''HTTP_X_TRACE_ID'') = Some (Zval_string s) \<and>
         length tid = 16 \<and> length s = 32 \<and> hex_of tid = map wl_lower s
     | None \<Rightarrow> \<not> (\<exists>vars s. server = Zval_array vars \<and>
         map_of vars (c_str ''HTTP_X_TRACE_ID'') = Some (Zval_string s) \<and>
         length s = 32 \<and> list_all is_hex s))"
proof (cases "\<exists>vars s. server = Zval_array vars \<and>
    map_of vars (c_str ''HTTP_X_TRACE_ID'') = Some (Zval_string s) \<and> length s = 32")
  case False
  then show ?thesis
    by (auto simp: rinit_trace_id_def lumbre_get_server_vars_def split: zval.splits option.splits)
next
  case True
  then obtain vars s where s: "server = Zval_array vars"
    "map_of vars (c_str ''HTTP_X_TRACE_ID'') = Some (Zval_string s)" "length s = 32"
    by blast
  have "length (replicate 16 0 :: bytes) = 16" by simp
  from hex_to_bin_spec [OF this, of s] s(3) obtain rc out where
    "lumbre_hex_to_bin s 32 (replicate 16 0) 16 = Some (rc, out)" "length out = 16"
    "rc = 0 \<longleftrightarrow> list_all is_hex s" "rc = 0 \<longrightarrow> hex_of out = map wl_lower s"
    by auto
  with s show ?thesis by (auto simp: rinit_trace_id_def lumbre_get_server_vars_def)
qed

lemma trigger_loop_stores:
  "5 + i + length cs \<le> length m \<Longrightarrow>
   trigger_loop m i cs = Some (overwrite m (5 + i) (map trigger_char cs))"
proof (induction cs arbitrary: m i)
  case (Cons c cs)
  then have "trigger_loop (overwrite m (5 + i) [trigger_char c]) (Suc i) cs =
      Some (overwrite (overwrite m (5 + i) [trigger_char c]) (5 + Suc i) (map trigger_char cs))"
    by (intro Cons.IH) simp
  moreover have "overwrite (overwrite m (5 + i) [trigger_char c]) (5 + Suc i) (map trigger_char cs) =
      overwrite m (5 + i) (map trigger_char (c # cs))"
    using Cons.prems overwrite_append [of "5 + i" "[trigger_char c]" "map trigger_char cs" m] by simp
  ultimately show ?case using Cons.prems by (simp add: mem_store_fits)
qed simp

lemma trigger_spec:
  "rinit_trigger (Some hdr) (Zval_array vars) =
     Some (hdr \<noteq> [] \<and> length hdr < 250 \<and> map_of vars (c_str ''HTTP_'' @ map trigger_char hdr) \<noteq> None)"
proof (cases "hdr \<noteq> [] \<and> length hdr + 6 < 256")
  case True
  define m0 where "m0 = overwrite (replicate 256 0) 0 (c_str ''HTTP_'')"
  have m0: "length m0 = 256" "mem_store (replicate 256 0) 0 (c_str ''HTTP_'') = Some m0"
    by (simp_all add: m0_def mem_store_def)
  define m1 where "m1 = overwrite (replicate 256 0) 0 (c_str ''HTTP_'' @ map trigger_char hdr)"
  have loop: "trigger_loop m0 0 hdr = Some m1"
    using True m0(1) trigger_loop_stores [of 0 hdr m0]
      overwrite_append [of 0 "c_str ''HTTP_''" "map trigger_char hdr" "replicate 256 0"]
    by (simp add: m0_def m1_def eval_nat_numeral)
  have m1: "length m1 = 256" using True by (simp add: m1_def)
  have "mem_load m1 0 (5 + length hdr) = Some (c_str ''HTTP_'' @ map trigger_char hdr)"
    unfolding m1_def using True by (intro mem_load_overwrite) simp_all
  then have "mem_load (overwrite m1 (5 + length hdr) [0]) 0 (5 + length hdr) =
      Some (c_str ''HTTP_'' @ map trigger_char hdr)"
    using True m1 by (subst mem_load_overwrite_disjoint) simp_all
  then show ?thesis
    using True m0(2) loop m1
    by (simp add: rinit_trigger_def lumbre_get_server_vars_def mem_store_fits)
next
  case False
  then show ?thesis by (auto simp: rinit_trigger_def lumbre_get_server_vars_def)
qed

text \<open>
  C29: The trace id is taken over from the caller exactly when \<^verbatim>\<open>$_SERVER\<close> holds the header as a
  string of 32 hexadecimal digits, and then it is the 16 bytes they spell; any other request
  gets a generated one. Reading it never faults.
\<close>

theorem trace_id_propagation:
  "\<exists>propagated. rinit_trace_id server = Some propagated \<and>
    (case propagated of
       Some tid \<Rightarrow> \<exists>vars s. server = Zval_array vars \<and>
         map_of vars (c_str ''HTTP_X_TRACE_ID'') = Some (Zval_string s) \<and>
         length tid = 16 \<and> length s = 32 \<and> hex_of tid = map wl_lower s
     | None \<Rightarrow> \<not> (\<exists>vars s. server = Zval_array vars \<and>
         map_of vars (c_str ''HTTP_X_TRACE_ID'') = Some (Zval_string s) \<and>
         length s = 32 \<and> list_all is_hex s))"
  by (rule trace_id_spec)

lemma trigger_total: "\<exists>b. rinit_trigger hdr server = Some b"
  using trigger_spec
  by (cases hdr; cases server) (auto simp: rinit_trigger_def lumbre_get_server_vars_def)

text \<open>
  The name under which CGI passes a header on: \<^verbatim>\<open>HTTP_\<close> and the header with every dash turned into an
  underscore and every small letter into its capital, by a table of the 27 characters concerned.
\<close>

definition cgi_table :: "(u8 \<times> u8) list" where
  "cgi_table = zip (c_str ''-abcdefghijklmnopqrstuvwxyz'') (c_str ''_ABCDEFGHIJKLMNOPQRSTUVWXYZ'')"

definition cgi_name :: "bytes \<Rightarrow> bytes" where
  "cgi_name header = c_str ''HTTP_'' @ map (\<lambda>c. case map_of cgi_table c of None \<Rightarrow> c | Some d \<Rightarrow> d) header"

lemma cgi_letters:
  "list_all (\<lambda>n. map_of cgi_table (97 + of_nat n) = Some (65 + of_nat n)) [0..<26]"
  by code_simp

lemma cgi_keys: "list_all (\<lambda>k. k = 45 \<or> 97 \<le> k \<and> k \<le> 122) (map fst cgi_table)"
  by code_simp

lemma cgi_dash: "map_of cgi_table 45 = Some 95"
  by code_simp

lemma trigger_char_cgi: "trigger_char c = (case map_of cgi_table c of None \<Rightarrow> c | Some d \<Rightarrow> d)"
proof (cases "97 \<le> c \<and> c \<le> 122")
  case True
  define n where "n = unat (c - 97)"
  have c: "c = 97 + of_nat n" by (simp add: n_def)
  have "n < 26" using True unfolding n_def by (auto simp: word_le_nat_alt unat_sub)
  then have "map_of cgi_table c = Some (65 + of_nat n)"
    using cgi_letters unfolding c by (simp add: list_all_iff)
  moreover have "trigger_char c = 65 + of_nat n"
    using True by (cases "c = 45") (auto simp: trigger_char_def n_def)
  ultimately show ?thesis by simp
next
  case False
  have "map_of cgi_table c = None" if "c \<noteq> 45"
    using cgi_keys False that by (auto simp: map_of_eq_None_iff list_all_iff)
  with False cgi_dash show ?thesis by (auto simp: trigger_char_def)
qed

lemma cgi_name_trigger: "cgi_name header = c_str ''HTTP_'' @ map trigger_char header"
  unfolding cgi_name_def trigger_char_cgi ..

text \<open>
  C33: Full tracing is triggered exactly if \<^verbatim>\<open>$_SERVER\<close> is an array that has the configured header
  under its CGI name, \<^verbatim>\<open>X-Trace-Debug\<close> as \<^verbatim>\<open>HTTP_X_TRACE_DEBUG\<close>; no setting, an empty name and a name
  of 250 characters or more never trigger it. The 256-byte buffer is never overrun, whatever the name.
\<close>

theorem trigger_header_lookup:
  "rinit_trigger header server =
     Some (case (header, server) of
       (Some h, Zval_array vars) \<Rightarrow> h \<noteq> [] \<and> length h < 250 \<and> map_of vars (cgi_name h) \<noteq> None
     | _ \<Rightarrow> False) \<and>
   cgi_name (c_str ''X-Trace-Debug'') = c_str ''HTTP_X_TRACE_DEBUG''"
proof
  show "rinit_trigger header server =
     Some (case (header, server) of
       (Some h, Zval_array vars) \<Rightarrow> h \<noteq> [] \<and> length h < 250 \<and> map_of vars (cgi_name h) \<noteq> None
     | _ \<Rightarrow> False)"
    unfolding cgi_name_trigger
    by (cases header; cases server)
      (simp_all add: trigger_spec, simp_all add: rinit_trigger_def lumbre_get_server_vars_def)
  show "cgi_name (c_str ''X-Trace-Debug'') = c_str ''HTTP_X_TRACE_DEBUG''"
    by code_simp
qed

text \<open>
  Setting \<^verbatim>\<open>lumbre.mode\<close> changes nothing but the mode, which it leaves at 0 or 1 on success
  and untouched on failure.
\<close>

theorem update_mode_valid:
  "case lumbre_OnUpdateMode v g of
     (ok, g') \<Rightarrow> if ok then g' = g\<lparr>g_mode := g_mode g'\<rparr> \<and> g_mode g' \<in> {0, 1} else g' = g"
  by (auto simp: lumbre_OnUpdateMode_def Let_def)

text \<open>
  A value that is not a number at all, a misspelt mode included, is not rejected: it
  selects the io mode with success, because it is read as the number 0.
\<close>

theorem update_mode_accepts_garbage:
  assumes "v \<noteq> c_str ''full''" and "v = c # r"
    and "\<not> (48 \<le> c \<and> c \<le> 57)" and "c \<noteq> 43" and "c \<noteq> 45" and "c \<noteq> 32" and "\<not> (9 \<le> c \<and> c \<le> 13)"
  shows "lumbre_OnUpdateMode v g = (True, g\<lparr>g_mode := 0\<rparr>)"
proof -
  have "c_strtol v = 0" using assms by (cases "c = 0") (auto simp: c_strtol_def Let_def)
  then show ?thesis using assms(1) by (auto simp: lumbre_OnUpdateMode_def Let_def)
qed

theorem update_mode_accepts_garbage_witness:
  "lumbre_OnUpdateMode (c_str ''fulll'') zero_globals = (True, zero_globals\<lparr>g_mode := 0\<rparr>)"
proof -
  have v: "c_str ''fulll'' = 102 # c_str ''ulll''" by code_simp
  have "c_str ''fulll'' \<noteq> c_str ''full''" by code_simp
  from update_mode_accepts_garbage [OF this v] show ?thesis by simp
qed

text \<open>
  C37: A script can change nothing but the two settings a request tolerates changing: whatever value
  it sets, an entry of the configuration table that is open to scripts stores at most into the enabled
  flag and the minimal duration; mode, sizes, directory, header and query limit stay.
\<close>

theorem runtime_settings:
  assumes "e \<in> set lumbre_ini_entries" and "ini_modifiable e = PHP_INI_ALL"
  shows "\<exists>b n. snd (ini_handle e P v g) = g\<lparr>g_enabled := b, g_min_duration_ns := n\<rparr>"
proof -
  have "\<exists>b n. g\<lparr>g_enabled := b'\<rparr> = g\<lparr>g_enabled := b, g_min_duration_ns := n\<rparr>" for b'
    by (intro exI [of _ b'] exI [of _ "g_min_duration_ns g"]) simp
  moreover have "\<exists>b n. g\<lparr>g_min_duration_ns := n'\<rparr> = g\<lparr>g_enabled := b, g_min_duration_ns := n\<rparr>" for n'
    by (intro exI [of _ "g_enabled g"] exI [of _ n']) simp
  ultimately show ?thesis
    using assms by (auto simp: lumbre_ini_entries_def OnUpdateBool_def OnUpdateLong_def)
qed

theorem runtime_settings_witness:
  "\<exists>e b n. e \<in> set lumbre_ini_entries \<and> ini_name e = c_str ''lumbre.min_duration_ns'' \<and>
     snd (ini_handle e \<lparr>zend_ini_parse_bool = (\<lambda>v. v = c_str ''1''), zend_ini_parse_long = c_strtol\<rparr>
       (c_str ''5000'') zero_globals) = zero_globals\<lparr>g_enabled := b, g_min_duration_ns := n\<rparr>"
proof -
  let ?e = "lumbre_ini_entries ! 6"
  have e: "?e \<in> set lumbre_ini_entries" "ini_modifiable ?e = PHP_INI_ALL"
    "ini_name ?e = c_str ''lumbre.min_duration_ns''"
    by (simp_all add: lumbre_ini_entries_def)
  from runtime_settings [OF e(1,2)] e show ?thesis by blast
qed

lemma mode_handler_fields: "\<exists>m. snd (lumbre_OnUpdateMode v g) = g\<lparr>g_mode := m\<rparr>"
  by (auto simp: lumbre_OnUpdateMode_def Let_def intro: exI [of _ "g_mode g"])

lemma configured_entry:
  "configured_value configured (Ini_entry name d access h) =
     (case configured name of Some v \<Rightarrow> v | None \<Rightarrow> d)"
  by (simp add: configured_value_def cong: option.case_cong)

text \<open>The fields after the registration of the entries.\<close>

lemma registered_fields:
  assumes "registers_entries P configured ini"
  shows "\<exists>en mode dir trigger maxq min_ns ns.
    ini g = g\<lparr>g_enabled := en, g_mode := mode,
      g_buffer_size := zend_ini_parse_long P
        (case configured (c_str ''lumbre.buffer_size'') of Some v \<Rightarrow> v | None \<Rightarrow> c_str ''4194304''),
      g_shm_dir := Some dir, g_trigger_header := Some trigger, g_max_query_len := maxq,
      g_min_duration_ns := min_ns, g_trace_namespaces := Some ns\<rparr>"
proof -
  define v where "v = (\<lambda>name d. case configured (c_str name) of Some v \<Rightarrow> v | None \<Rightarrow> d)"
  obtain en where en: "zend_ini_parse_bool P (v ''lumbre.enabled'' (c_str ''1'')) = en" by blast
  obtain m where m: "snd (lumbre_OnUpdateMode (v ''lumbre.mode'' (c_str ''io'')) (g\<lparr>g_enabled := en\<rparr>)) =
      g\<lparr>g_enabled := en, g_mode := m\<rparr>"
    using mode_handler_fields by blast
  have "ini g = g\<lparr>g_enabled := en, g_mode := m,
      g_buffer_size := zend_ini_parse_long P (v ''lumbre.buffer_size'' (c_str ''4194304'')),
      g_shm_dir := Some (takeWhile (\<lambda>c. c \<noteq> 0) (v ''lumbre.shm_dir'' (c_str ''/dev/shm''))),
      g_trigger_header := Some (takeWhile (\<lambda>c. c \<noteq> 0) (v ''lumbre.trigger_header'' (c_str ''X-Trace-Debug''))),
      g_max_query_len := zend_ini_parse_long P (v ''lumbre.max_query_len'' (c_str ''2048'')),
      g_min_duration_ns := zend_ini_parse_long P (v ''lumbre.min_duration_ns'' (c_str ''0'')),
      g_trace_namespaces := Some (takeWhile (\<lambda>c. c \<noteq> 0) (v ''lumbre.trace_namespaces'' []))\<rparr>"
    using assms m en
    by (simp add: registers_entries_def lumbre_ini_entries_def configured_entry OnUpdateBool_def
        OnUpdateLong_def OnUpdateString_def v_def)
  then show ?thesis unfolding v_def by blast
qed

end
