(* ===== verification/Lumbre_Ringbuf_Any.thy ===== *)
theory Lumbre_Ringbuf_Any
  imports Lumbre_Fifo Lumbre_Ringbuf_Lifecycle
begin

text \<open>
  Rings of any requested size. A size that rounds to less than 4 bytes, or past 32 bits to 0, is not
  rejected: the ring is mapped and every message of it is refused. Such a ring is a queue that stays
  empty, so what holds of the queue of messages holds whatever size is configured.
\<close>

definition ring_dead :: "lumbre_ringbuf_t \<Rightarrow> bool" where
  "ring_dead rb \<longleftrightarrow> rb_header rb \<noteq> None \<and> rb_capacity rb < 4 \<and>
     rb_local_write_pos rb = rb_read_pos rb \<and> rb_write_pos rb = rb_read_pos rb"

definition ring_model :: "lumbre_ringbuf_t \<Rightarrow> bytes list \<Rightarrow> bool" where
  "ring_model rb ms \<longleftrightarrow> ring_holds rb ms \<or> ring_dead rb \<and> ms = []"

text \<open>Payloads whose record length is a 32-bit number.\<close>

definition record_fits :: "bytes \<Rightarrow> bool" where
  "record_fits p \<longleftrightarrow> length p < 4294967292"

lemma ring_dead_refuses:
  assumes dead: "ring_dead rb" and len: "record_fits p"
  shows "\<exists>rb'. ring_put rb p = Some (-1, rb') \<and> ring_dead rb' \<and> rb_dropped rb' = rb_dropped rb + 1"
    and "\<not> ring_accepts rb p" and "\<not> marker_overruns rb p"
proof -
  have size: "rb_size rb < 4" using dead by (simp add: ring_dead_def rb_size_def word_less_nat_alt)
  then show "\<not> ring_accepts rb p" by (simp add: ring_accepts_def ring_cost_def)
  show "\<not> marker_overruns rb p" using size by (simp add: marker_overruns_def)
  obtain h where h: "rb_header rb = Some h" using dead by (auto simp: ring_dead_def)
  have n: "unat (of_nat (length p) :: u32) = length p" using len by (simp add: record_fits_def unat_of_nat)
  then have "unat (4 + of_nat (length p) :: u32) = 4 + length p" using len by (simp add: record_fits_def unat_plus)
  then have "unat (ucast (4 + of_nat (length p) :: u32) :: u64) = 4 + length p" by (simp add: unat_ucast_up)
  moreover have "unat (ucast (rb_capacity rb) :: u64) < 4" using size by (simp add: unat_ucast_up rb_size_def)
  ultimately have "(ucast (rb_capacity rb) :: u64) < ucast (4 + of_nat (length p) :: u32)"
    by (simp add: word_less_nat_alt)
  moreover have "rb_local_write_pos rb - hdr_read_pos h = 0"
    using dead by (simp add: ring_dead_def header_views [OF h])
  ultimately have "lumbre_ringbuf_write rb p (of_nat (length p)) = ringbuf_drop rb h"
    by (simp add: lumbre_ringbuf_write_def h Let_def)
  then show "\<exists>rb'. ring_put rb p = Some (-1, rb') \<and> ring_dead rb' \<and> rb_dropped rb' = rb_dropped rb + 1"
    using dead by (simp add: ring_put_def ringbuf_drop_def ring_dead_def header_views [OF h])
qed

lemma ring_put_model:
  assumes "ring_model rb ms" and "record_fits p"
  shows "case ring_put rb p of
      None \<Rightarrow> ring_accepts rb p \<and> marker_overruns rb p
    | Some (rc, rb') \<Rightarrow>
        if ring_accepts rb p then rc = 0 \<and> ring_model rb' (ms @ [p]) \<and> rb_dropped rb' = rb_dropped rb
        else rc = -1 \<and> ring_model rb' ms \<and> rb_dropped rb' = rb_dropped rb + 1"
proof (cases "ring_holds rb ms")
  case True
  have "ring_payload p" using assms(2) by (simp add: record_fits_def ring_payload_def)
  from ring_put_refines [OF True this] show ?thesis by (auto simp: ring_model_def split: option.splits if_splits)
next
  case False
  then have "ring_dead rb" "ms = []" using assms(1) by (simp_all add: ring_model_def)
  with ring_dead_refuses [OF _ assms(2)] show ?thesis by (fastforce simp: ring_model_def)
qed

lemma unread_message_model:
  assumes "ring_model rb ms" and "rb_read_pos rb \<noteq> rb_write_pos rb"
  shows "ring_holds rb ms"
  using assms by (auto simp: ring_model_def ring_dead_def)

lemma ring_model_empty:
  assumes "ring_model rb ms" and "rb_read_pos rb = rb_write_pos rb"
  shows "ms = []"
  using assms ring_holds_empty [of rb ms] by (auto simp: ring_model_def)

lemma ring_model_take:
  assumes "ring_model rb (m # ms)"
  shows "\<exists>rb'. ringbuf_take rb = Some (m, rb') \<and> ring_model rb' ms \<and> rb_dropped rb' = rb_dropped rb"
  using assms ringbuf_take_spec [of rb m ms] by (auto simp: ring_model_def)

interpretation any_ring: lossy_fifo ring_model ring_put ringbuf_take record_fits
proof
  fix rb ms p rb'
  assume "ring_model rb ms" "record_fits p" "ring_put rb p = Some (0, rb')"
  with ring_put_model [of rb ms p] show "ring_model rb' (ms @ [p])"
    by (auto split: if_splits)
next
  fix rb ms p rc rb'
  assume "ring_model rb ms" "record_fits p" "ring_put rb p = Some (rc, rb')" "rc \<noteq> 0"
  with ring_put_model [of rb ms p] show "ring_model rb' ms"
    by (auto split: if_splits)
qed (use ring_model_take in blast)

subsection \<open>What initialisation gives, for any size\<close>

lemma rounded_size:
  "lumbre_next_power_of_2 cap < 4 \<or> LUMBRE_IS_POWER_OF_TWO (lumbre_next_power_of_2 cap) \<and> 4 \<le> lumbre_next_power_of_2 cap"
proof (cases "cap = 0")
  case True
  then show ?thesis by (simp add: lumbre_next_power_of_2_def)
next
  case False
  from next_power_of_2_eq [OF this] obtain k where k: "k \<le> 32" "lumbre_next_power_of_2 cap = 2 ^ k" by blast
  show ?thesis
  proof (cases "k = 32")
    case True
    then show ?thesis using k by simp
  next
    case False
    with k have "k < 32 \<and> lumbre_next_power_of_2 cap = 2 ^ k" by simp
    then have "LUMBRE_IS_POWER_OF_TWO (lumbre_next_power_of_2 cap)" unfolding is_power_of_two_iff by blast
    then show ?thesis by (auto simp: not_less)
  qed
qed

lemma init_ring_model:
  assumes "lumbre_ringbuf_init os rb dir pid wid cap = (0, rb', log)"
  shows "ring_model rb' []"
proof -
  have w: "rb_header rb' \<noteq> None" "rb_local_write_pos rb' = 0" "rb_write_pos rb' = 0" "rb_read_pos rb' = 0"
    "rb_capacity rb' = lumbre_next_power_of_2 cap" "rb_mask rb' = rb_capacity rb' - 1"
    "length (rb_data rb') = unat (rb_capacity rb')"
    using assms by (auto simp: init_defs rb_write_pos_def rb_read_pos_def fresh_header_def split: if_splits)
  from rounded_size [of cap] show ?thesis
  proof
    assume "lumbre_next_power_of_2 cap < 4"
    then show ?thesis using w by (simp add: ring_model_def ring_dead_def)
  next
    assume "LUMBRE_IS_POWER_OF_TWO (lumbre_next_power_of_2 cap) \<and> 4 \<le> lumbre_next_power_of_2 cap"
    then have "rb_wf rb'" using w by (simp add: rb_wf_def)
    from fresh_ring_empty [OF this w(2-4)] show ?thesis by (simp add: ring_model_def aligned_holds_def)
  qed
qed

lemma unusable_size:
  assumes "cap < 3 \<or> 2147483648 < cap"
  shows "lumbre_next_power_of_2 cap < 4"
proof -
  have small: "lumbre_next_power_of_2 0 < 4" "lumbre_next_power_of_2 1 < 4" "lumbre_next_power_of_2 2 < 4"
    by (simp_all add: lumbre_next_power_of_2_def LUMBRE_IS_POWER_OF_TWO_def)
  show ?thesis
  proof (cases "2147483648 < cap")
    case True
    then have "cap \<noteq> 0" by auto
    from next_power_of_2_eq [OF this] obtain k where k: "k \<le> 32" "lumbre_next_power_of_2 cap = 2 ^ k" "unat cap \<le> 2 ^ k"
      by blast
    have "2147483648 < unat cap" using True by (simp add: word_less_nat_alt)
    then have "(2::nat) ^ 31 < 2 ^ k" using k(3) by simp
    then have "31 < k" by (rule pow2_less_cancel)
    then have "k = 32" using k(1) by simp
    then show ?thesis using k(2) by simp
  next
    case False
    then have "unat cap < 3" using assms by (simp add: word_less_nat_alt)
    then have "unat cap = 0 \<or> unat cap = 1 \<or> unat cap = 2" by arith
    then have "cap = 0 \<or> cap = 1 \<or> cap = 2" by (simp add: word_unat_eq_iff)
    then show ?thesis using small by blast
  qed
qed

lemma ring_dead_exchange:
  assumes "ring_dead rb" and "list_all record_fits ps"
  shows "\<exists>rb'. exchange ring_put ringbuf_take (map Put ps) rb 0 = Some ([], [], rb') \<and> ring_dead rb' \<and>
    rb_dropped rb' = rb_dropped rb + of_nat (length ps)"
  using assms
proof (induction ps arbitrary: rb)
  case (Cons p ps)
  then obtain rb1 where "ring_put rb p = Some (-1, rb1)" "ring_dead rb1" "rb_dropped rb1 = rb_dropped rb + 1"
    using ring_dead_refuses(1) [of rb p] by auto
  with Cons.IH [of rb1] Cons.prems(2) show ?case by (auto simp: add.assoc)
qed simp

text \<open>
  C15: A ring whose configured size is below 3 bytes or above 2 GiB is created all the same, with
  success, but refuses every message of less than 2^32 - 4 bytes: any series of writes runs to its
  end without a fault, nothing is accepted, and every write is counted as a drop.
\<close>

theorem unusable_ring_refuses:
  assumes "lumbre_ringbuf_init os rb0 dir pid wid cap = (0, rb, log)" and "cap < 3 \<or> 2147483648 < cap"
    and "list_all record_fits ps"
  shows "\<exists>rb'. exchange ring_put ringbuf_take (map Put ps) rb 0 = Some ([], [], rb') \<and>
    rb_dropped rb' = of_nat (length ps)"
proof -
  have "rb_header rb = Some (fresh_header (rb_capacity rb) pid wid)" "rb_local_write_pos rb = 0"
    "rb_capacity rb = lumbre_next_power_of_2 cap"
    using assms(1) by (auto simp: init_defs split: if_splits)
  then have "ring_dead rb" "rb_dropped rb = 0"
    using unusable_size [OF assms(2)]
    by (simp_all add: ring_dead_def rb_write_pos_def rb_read_pos_def rb_dropped_def fresh_header_def)
  with ring_dead_exchange [OF _ assms(3)] show ?thesis by fastforce
qed

theorem unusable_ring_refuses_witness:
  "\<exists>rb log rb'. lumbre_ringbuf_init (sample_os True) null_ring (c_str ''/tmp'') 42 0 4294967295 = (0, rb, log) \<and>
     exchange ring_put ringbuf_take (map Put [[1], [2, 3]]) rb 0 = Some ([], [], rb') \<and> rb_dropped rb' = 2"
proof -
  obtain rb log where i:
    "lumbre_ringbuf_init (sample_os True) null_ring (c_str ''/tmp'') 42 0 4294967295 = (0, rb, log)"
    by (simp add: init_defs sample_os_def sample_path)
  have "(2147483648 :: u32) < 4294967295" by simp
  from unusable_ring_refuses [OF i disjI2 [OF this], of "[[1], [2, 3]]"] i
  show ?thesis by (auto simp: record_fits_def)
qed

end
