(* ===== verification/Lumbre_Request.thy ===== *)
theory Lumbre_Request
  imports Lumbre_Trace_Correct Lumbre_Module_Correct Lumbre_Transparency Lumbre_Ringbuf_Any "HOL-Library.Sublist"
begin

text \<open>
  Whole requests: the invariant the module keeps between requests, what \<^verbatim>\<open>RINIT\<close> establishes, and
  the end-to-end statement that after a request the ring holds, in order, the images of the spans
  the abstract tracing describes, less those the ring or the serialisation buffer had no room for.
\<close>

subsection \<open>What the ring keeps of the messages offered\<close>

lemma ring_offers_kept:
  assumes "ring_model rb ms" and "ring_offers cap msgs rb = Some rb'" and "cap < 4294967292"
  defines "fitting \<equiv> filter (\<lambda>m. length m \<le> cap) msgs"
  shows "\<exists>kept. subseq kept fitting \<and> ring_model rb' (ms @ kept) \<and>
    rb_dropped rb' = rb_dropped rb + of_nat (length fitting - length kept)"
  using assms(1,2) unfolding fitting_def
proof (induction msgs arbitrary: rb ms)
  case Nil
  then show ?case by auto
next
  case (Cons m msgs)
  show ?case
  proof (cases "cap < length m")
    case True
    with Cons show ?thesis by simp
  next
    case False
    with Cons.prems obtain rc rb1 where put: "ring_put rb m = Some (rc, rb1)"
      "ring_offers cap msgs rb1 = Some rb'"
      by (auto simp: bind_eq_Some_conv)
    have "record_fits m" using False assms(3) by (simp add: record_fits_def)
    note spec = ring_put_model [OF Cons.prems(1) this, unfolded put(1) option.case prod.case]
    show ?thesis
    proof (cases "ring_accepts rb m")
      case True
      with spec have *: "ring_model rb1 (ms @ [m])" "rb_dropped rb1 = rb_dropped rb" by simp_all
      from Cons.IH [OF this(1) put(2)] obtain kept where "subseq kept (filter (\<lambda>m. length m \<le> cap) msgs)"
        "ring_model rb' ((ms @ [m]) @ kept)"
        "rb_dropped rb' = rb_dropped rb + of_nat (length (filter (\<lambda>m. length m \<le> cap) msgs) - length kept)"
        unfolding *(2) by blast
      with False show ?thesis by (intro exI [of _ "m # kept"]) (simp add: not_less)
    next
      case no: False
      with spec have *: "ring_model rb1 ms" "rb_dropped rb1 = rb_dropped rb + 1" by simp_all
      from Cons.IH [OF this(1) put(2)] obtain kept where kept: "subseq kept (filter (\<lambda>m. length m \<le> cap) msgs)"
        "ring_model rb' (ms @ kept)"
        "rb_dropped rb' = rb_dropped rb + 1 + of_nat (length (filter (\<lambda>m. length m \<le> cap) msgs) - length kept)"
        unfolding *(2) by blast
      have "length kept \<le> length (filter (\<lambda>m. length m \<le> cap) msgs)"
        using kept(1) by (rule list_emb_length)
      with False kept show ?thesis
        by (intro exI [of _ kept]) (auto simp: not_less Suc_diff_le add_ac)
    qed
  qed
qed

text \<open>Offering messages faults only where the ring does: at a padding marker.\<close>

lemma ring_offers_fault:
  assumes "ring_model rb ms" and "ring_offers cap msgs rb = None" and "cap < 4294967292"
  shows "\<exists>pre m post rb'. msgs = pre @ m # post \<and> length m \<le> cap \<and>
    ring_offers cap pre rb = Some rb' \<and> ring_accepts rb' m \<and> marker_overruns rb' m"
  using assms(1,2)
proof (induction msgs arbitrary: rb ms)
  case Nil
  then show ?case by simp
next
  case (Cons m msgs)
  show ?case
  proof (cases "cap < length m")
    case True
    with Cons obtain pre m' post rb' where "msgs = pre @ m' # post" "length m' \<le> cap"
      "ring_offers cap pre rb = Some rb'" "ring_accepts rb' m'" "marker_overruns rb' m'"
      by (metis ring_offers.simps(2))
    with True show ?thesis by (intro exI [of _ "m # pre"]) auto
  next
    case False
    then have "record_fits m" using assms(3) by (simp add: record_fits_def)
    note spec = ring_put_model [OF Cons.prems(1) this]
    show ?thesis
    proof (cases "ring_put rb m")
      case None
      with spec False have "m # msgs = [] @ m # msgs \<and> length m \<le> cap \<and>
          ring_offers cap [] rb = Some rb \<and> ring_accepts rb m \<and> marker_overruns rb m"
        by simp
      then show ?thesis by blast
    next
      case (Some r)
      then obtain rc rb1 where put: "ring_put rb m = Some (rc, rb1)" by (cases r) auto
      with spec obtain ms1 where "ring_model rb1 ms1" by (auto split: if_splits)
      moreover have "ring_offers cap msgs rb1 = None" using Cons.prems(2) False put by simp
      ultimately obtain pre m' post rb' where "msgs = pre @ m' # post" "length m' \<le> cap"
        "ring_offers cap pre rb1 = Some rb'" "ring_accepts rb' m'" "marker_overruns rb' m'"
        using Cons.IH by blast
      with False put show ?thesis by (intro exI [of _ "m # pre"]) auto
    qed
  qed
qed

subsection \<open>Between requests\<close>

definition storage_ok :: "bytes \<Rightarrow> bool" where
  "storage_ok s \<longleftrightarrow> 16384 \<le> length s"

text \<open>
  The invariant: the whitelist is the one \<^verbatim>\<open>GINIT\<close> built, the persistent buffer is as large as
  its constant says, and once the ring is initialised it is a queue of messages, of whatever size.
\<close>

definition module_ok :: "php_state \<Rightarrow> bool" where
  "module_ok st \<longleftrightarrow> (let g = ps_lumbre st in
     lumbre_whitelist_init = Some (g_whitelist g) \<and> length (cx_trace_id (g_ctx g)) = 16 \<and>
     g_shm_dir g \<noteq> None \<and>
     (g_mp_storage g \<longrightarrow> storage_ok (mb_buf (g_mp_buf g))) \<and>
     (g_ringbuf_initialized g \<noteq> 0 \<longrightarrow> g_mp_storage g \<and>
        mb_capacity (g_mp_buf g) = 16384 \<and> unat (mb_pos (g_mp_buf g)) \<le> 16384 \<and>
        (\<exists>ms. ring_model (g_ringbuf g) ms)))"

text \<open>What the environment owes a request.\<close>

definition request_ok :: "php_request \<Rightarrow> bool" where
  "request_ok rq \<longleftrightarrow>
     (\<forall>s. rq_storage rq = Some s \<longrightarrow> length s = 16384) \<and>
     (\<forall>buf. length buf = 16 \<longrightarrow> length (snd (rq_random rq buf)) = 16) \<and>
     string_ok (rq_path_translated rq) \<and> string_ok (rq_request_uri rq) \<and> string_ok (rq_request_method rq)"

definition env_of :: "php_state \<Rightarrow> trace_env" where
  "env_of st = (let g = ps_lumbre st in
     \<lparr>te_trace_id = cx_trace_id (g_ctx g), te_full = (g_mode g = 1 \<or> cx_full_trace (g_ctx g) \<noteq> 0),
      te_max_query_len = ucast (g_max_query_len g), te_capacity = unat (mb_capacity (g_mp_buf g))\<rparr>)"

lemma rinit_ringbuf_spec:
  assumes "module_ok st" and "request_ok rq"
  shows "\<exists>ok st'. rinit_ringbuf rq st = Some (ok, st') \<and> module_ok st' \<and> ps_now st' = ps_now st \<and>
    g_ctx (ps_lumbre st') = g_ctx (ps_lumbre st) \<and>
    (if ok then g_ringbuf_initialized (ps_lumbre st') \<noteq> 0 \<and> g_enabled (ps_lumbre st') = g_enabled (ps_lumbre st)
     else \<not> g_enabled (ps_lumbre st'))"
proof (cases "g_ringbuf_initialized (ps_lumbre st) \<noteq> 0")
  case True
  then show ?thesis using assms by (intro exI [of _ True]) (simp add: rinit_ringbuf_def Let_def)
next
  case False
  define g where "g = ps_lumbre st"
  obtain dir where dir: "g_shm_dir g = Some dir"
    using assms(1) by (auto simp: module_ok_def g_def Let_def)
  obtain wid counter where wid: "lumbre_worker_id (rq_zts rq) (ps_worker_counter st) = (wid, counter)"
    by (cases "lumbre_worker_id (rq_zts rq) (ps_worker_counter st)")
  obtain rc rb log where init: "lumbre_ringbuf_init (rq_os rq) (g_ringbuf g) dir (rq_pid rq) wid
      (ucast (g_buffer_size g)) = (rc, rb, log)"
    by (metis prod_cases3)
  have ok: "lumbre_whitelist_init = Some (g_whitelist g)" "length (cx_trace_id (g_ctx g)) = 16"
    "g_mp_storage g \<Longrightarrow> storage_ok (mb_buf (g_mp_buf g))"
    using assms(1) by (simp_all add: module_ok_def Let_def g_def)
  define st1 where "st1 = st\<lparr>ps_worker_counter := counter\<rparr>"
  show ?thesis
  proof (cases "\<not> g_mp_storage g \<and> rq_storage rq = None")
    case True
    then have "rinit_ringbuf rq st = Some (False, st1\<lparr>ps_lumbre := g\<lparr>g_worker_id := wid, g_enabled := False\<rparr>\<rparr>)"
      using False wid by (simp add: rinit_ringbuf_def g_def st1_def)
    then show ?thesis
      using ok dir True False by (intro exI [of _ False]) (simp add: module_ok_def Let_def st1_def g_def)
  next
    case has: False
    define s where "s = (if g_mp_storage g then mb_buf (g_mp_buf g) else the (rq_storage rq))"
    have s: "storage_ok s"
      using has ok(3) assms(2) by (auto simp: s_def request_ok_def storage_ok_def)
    define g1 where "g1 = g\<lparr>g_worker_id := wid, g_mp_storage := True,
      g_mp_buf := \<lparr>mb_buf = s, mb_capacity = 16384, mb_pos = 0\<rparr>, g_ringbuf := rb\<rparr>"
    have run: "rinit_ringbuf rq st =
        (if rc \<noteq> 0 then Some (False, st1\<lparr>ps_calls := ps_calls st @ log, ps_lumbre := g1\<lparr>g_enabled := False\<rparr>,
           ps_warnings := ps_warnings st + 1\<rparr>)
         else Some (True, st1\<lparr>ps_calls := ps_calls st @ log, ps_lumbre := g1\<lparr>g_ringbuf_initialized := 1\<rparr>\<rparr>))"
      using False wid dir init
      by (simp add: rinit_ringbuf_def g_def [symmetric] s_def st1_def g1_def LUMBRE_MSGPACK_BUF_SIZE_def
          if_not_P [OF has] Let_def split del: if_split cong: if_cong)
    have dir1: "g_shm_dir g1 \<noteq> None" and enabled1: "g_enabled g1 = g_enabled g"
      and ctx1: "g_ctx g1 = g_ctx g" and init1: "g_ringbuf_initialized g1 = 0"
      using dir False by (simp_all add: g1_def g_def)
    have ok1: "module_ok (st1\<lparr>ps_calls := c, ps_lumbre := g1\<lparr>g_enabled := False\<rparr>, ps_warnings := w\<rparr>)" for c w
      using ok(1,2) s dir1 init1 by (simp add: module_ok_def Let_def g1_def)
    show ?thesis
    proof (cases "rc = 0")
      case True
      then have "ring_model rb []" using init_ring_model init by blast
      then have "\<exists>ms. ring_model rb ms" by blast
      then have "module_ok (st1\<lparr>ps_calls := ps_calls st @ log, ps_lumbre := g1\<lparr>g_ringbuf_initialized := 1\<rparr>\<rparr>)"
        using ok(1,2) s dir1 by (simp add: module_ok_def Let_def g1_def)
      then show ?thesis
        unfolding run g_def [symmetric] using True enabled1 ctx1 by (intro exI [of _ True]) (simp add: st1_def)
    next
      case failed: False
      then show ?thesis
        unfolding run g_def [symmetric] using ok1 ctx1 by (intro exI [of _ False]) (simp add: st1_def)
    qed
  qed
qed

text \<open>The span of the request itself, as it is started.\<close>

definition root_ok :: "php_state \<Rightarrow> bool" where
  "root_ok st \<longleftrightarrow> (let g = ps_lumbre st; root = g_root_span g in
     span_ok root \<and> sp_type root = LUMBRE_SPAN_HTTP_IN \<and> sp_span_id root = 1 \<and> sp_parent_id root = 0 \<and>
     sp_trace_id root = cx_trace_id (g_ctx g) \<and> sp_start_ns root = lumbre_clock_ns (ps_now st))"

lemma c_string_text_ok:
  assumes "string_ok s"
  shows "text_ok (Some (c_string_or_empty s)) (of_nat (length (c_string_or_empty s)))"
proof -
  have "str_ok (c_string_or_empty s)"
    using assms by (cases s) (simp_all add: c_string_or_empty_def string_ok_def str_ok_def)
  then show ?thesis by (simp add: text_ok_def readable_def str_ok_def unat_of_nat)
qed

lemma trace_id_length:
  assumes "rinit_trace_id server = Some propagated" and "request_ok rq" and "length (cx_trace_id ctx) = 16"
  shows "length (cx_trace_id (lumbre_context_init ctx propagated (Some (lumbre_php_random_bytes (rq_random rq))))) = 16"
proof (cases propagated)
  case None
  have "length (snd (rq_random rq (cx_trace_id ctx))) = 16"
    using assms(2,3) by (simp add: request_ok_def)
  with None show ?thesis
    by (auto simp: lumbre_context_init_def lumbre_php_random_bytes_def split: prod.splits)
next
  case (Some tid)
  then have "length tid = 16" using trace_id_spec [of server] assms(1) by auto
  with Some show ?thesis by (simp add: lumbre_context_init_def)
qed

lemma rinit_root_span_spec:
  fixes st :: php_state and rq :: php_request
  defines "g \<equiv> ps_lumbre st"
  assumes "request_ok rq" and "length (cx_trace_id (g_ctx g)) = 16" and "cx_span_counter (g_ctx g) = 1"
    and "cx_current_parent_id (g_ctx g) = 0" and "cx_active (g_ctx g) = 1"
  shows "\<exists>root ctx. rinit_root_span rq st = st\<lparr>ps_lumbre := g\<lparr>g_root_span := root, g_ctx := ctx\<rparr>\<rparr> \<and>
    root_ok (rinit_root_span rq st) \<and> cx_trace_id ctx = cx_trace_id (g_ctx g) \<and> cx_span_counter ctx = 2 \<and>
    cx_current_parent_id ctx = 1 \<and> cx_root_span_id ctx = 1 \<and> cx_active ctx = 1 \<and>
    cx_full_trace ctx = cx_full_trace (g_ctx g)"
proof -
  obtain span ctx where start: "lumbre_span_start LUMBRE_SPAN_HTTP_IN (g_ctx g) (ps_now st) = (span, ctx)"
    by (cases "lumbre_span_start LUMBRE_SPAN_HTTP_IN (g_ctx g) (ps_now st)")
  have span: "span_ok span" "sp_type span = LUMBRE_SPAN_HTTP_IN" "sp_span_id span = 1" "sp_parent_id span = 0"
    "sp_trace_id span = cx_trace_id (g_ctx g)" "sp_start_ns span = lumbre_clock_ns (ps_now st)"
    and ctx: "cx_trace_id ctx = cx_trace_id (g_ctx g)" "cx_span_counter ctx = 2"
    "cx_current_parent_id ctx = 1" "cx_active ctx = 1" "cx_full_trace ctx = cx_full_trace (g_ctx g)"
    using start assms(3-6)
    by (auto simp: lumbre_span_start_def Let_def span_ok_def zero_span_def text_ok_def readable_def)
  define cli where "cli \<longleftrightarrow> rq_sapi_name rq = Some (c_str ''cli'')"
  define uri where "uri = c_string_or_empty (if cli then rq_path_translated rq else rq_request_uri rq)"
  define req_method where "req_method = (if cli then c_str ''CLI'' else c_string_or_empty (rq_request_method rq))"
  have "text_ok (Some uri) (of_nat (length uri))"
    unfolding uri_def using assms(2) by (intro c_string_text_ok) (simp add: request_ok_def)
  moreover have "text_ok (Some (c_str ''CLI'')) (of_nat (length (c_str ''CLI'')))"
    by (simp add: text_ok_def readable_def)
  then have "text_ok (Some req_method) (of_nat (length req_method))"
    unfolding req_method_def using assms(2) c_string_text_ok [of "rq_request_method rq"]
    by (cases cli) (simp_all only: if_True if_False request_ok_def)
  moreover have "rinit_root_span rq st = st\<lparr>ps_lumbre :=
      g\<lparr>g_root_span := lumbre_span_set_http_in span (Some uri) (of_nat (length uri))
           (Some req_method) (of_nat (length req_method)),
        g_ctx := ctx\<lparr>cx_root_span_id := sp_span_id (lumbre_span_set_http_in span (Some uri)
           (of_nat (length uri)) (Some req_method) (of_nat (length req_method)))\<rparr>\<rparr>\<rparr>"
    unfolding rinit_root_span_def g_def [symmetric] start Let_def prod.case cli_def [symmetric]
      uri_def [symmetric] req_method_def [symmetric] ..
  ultimately obtain p n q m where args: "text_ok p n" "text_ok q m"
    and root: "rinit_root_span rq st = st\<lparr>ps_lumbre :=
      g\<lparr>g_root_span := lumbre_span_set_http_in span p n q m,
        g_ctx := ctx\<lparr>cx_root_span_id := sp_span_id (lumbre_span_set_http_in span p n q m)\<rparr>\<rparr>\<rparr>"
    by blast
  define r where "r = lumbre_span_set_http_in span p n q m"
  have r: "span_ok r" "sp_type r = LUMBRE_SPAN_HTTP_IN" "sp_span_id r = 1" "sp_parent_id r = 0"
    "sp_trace_id r = cx_trace_id (g_ctx g)" "sp_start_ns r = lumbre_clock_ns (ps_now st)"
    using span setters_ok(4) [OF span(1) args] by (simp_all add: r_def) (simp_all add: lumbre_span_set_http_in_def)
  show ?thesis
    unfolding root r_def [symmetric] using ctx r
    by (intro exI [of _ r] exI [of _ "ctx\<lparr>cx_root_span_id := 1\<rparr>"]) (simp add: root_ok_def Let_def)
qed

text \<open>
  The start of a request: either the module is disabled, with the context untouched, or the
  request is traced, from the root span on.
\<close>

definition request_started :: "php_state \<Rightarrow> bool" where
  "request_started st \<longleftrightarrow> (let g = ps_lumbre st; ctx = g_ctx g in
     ready (env_of st) st \<and> root_ok st \<and> g_ringbuf_initialized g \<noteq> 0 \<and>
     cx_span_counter ctx = 2 \<and> cx_current_parent_id ctx = 1 \<and> cx_root_span_id ctx = 1)"

lemma module_mp_ready:
  assumes "module_ok st" and "g_ringbuf_initialized (ps_lumbre st) \<noteq> 0"
  shows "mp_ready (g_mp_buf (ps_lumbre st)) \<and> mb_capacity (g_mp_buf (ps_lumbre st)) = 16384"
  using assms by (simp add: module_ok_def Let_def mp_ready_def mb_wf_def storage_ok_def)

lemma rinit_spec:
  assumes "module_ok st" and "request_ok rq" and "g_enabled (ps_lumbre st)"
  shows "\<exists>st'. lumbre_rinit rq st = Some st' \<and> module_ok st' \<and>
    (if g_enabled (ps_lumbre st') then request_started st'
     else g_ctx (ps_lumbre st') = g_ctx (ps_lumbre st))"
proof -
  obtain ok st1 where st1: "rinit_ringbuf rq st = Some (ok, st1)" "module_ok st1"
    "g_ctx (ps_lumbre st1) = g_ctx (ps_lumbre st)"
    "if ok then g_ringbuf_initialized (ps_lumbre st1) \<noteq> 0 \<and> g_enabled (ps_lumbre st1) = g_enabled (ps_lumbre st)
     else \<not> g_enabled (ps_lumbre st1)"
    using rinit_ringbuf_spec [OF assms(1,2)] by blast
  show ?thesis
  proof (cases ok)
    case False
    then show ?thesis using assms(3) st1 by (simp add: lumbre_rinit_def)
  next
    case True
    define g where "g = ps_lumbre st1"
    obtain propagated where tid: "rinit_trace_id (rq_server rq) = Some propagated"
      using trace_id_spec [of "rq_server rq"] by blast
    obtain full where full: "rinit_trigger (g_trigger_header g) (rq_server rq) = Some full"
      using trigger_total by blast
    define ctx where "ctx = (let ctx = lumbre_context_init (g_ctx g) propagated
        (Some (lumbre_php_random_bytes (rq_random rq))) in if full then ctx\<lparr>cx_full_trace := 1\<rparr> else ctx)"
    define st2 where "st2 = st1\<lparr>ps_lumbre := g\<lparr>g_ctx := ctx\<rparr>\<rparr>"
    have rinit: "lumbre_rinit rq st = Some (rinit_root_span rq st2)"
      using assms(3) st1(1) True tid full by (simp add: lumbre_rinit_def g_def ctx_def st2_def Let_def split del: if_split)
    have "length (cx_trace_id (g_ctx g)) = 16" using st1(2) by (simp add: module_ok_def g_def Let_def)
    then have len: "length (cx_trace_id ctx) = 16"
      using trace_id_length [OF tid assms(2), of "g_ctx g"] by (simp add: ctx_def Let_def)
    have ctx: "cx_span_counter ctx = 1" "cx_current_parent_id ctx = 0" "cx_active ctx = 1"
      by (simp_all add: ctx_def lumbre_context_init_def Let_def)
    have st2: "ps_lumbre st2 = g\<lparr>g_ctx := ctx\<rparr>" by (simp add: st2_def)
    obtain root ctx' where root: "rinit_root_span rq st2 = st2\<lparr>ps_lumbre :=
        (ps_lumbre st2)\<lparr>g_root_span := root, g_ctx := ctx'\<rparr>\<rparr>" "root_ok (rinit_root_span rq st2)"
      "cx_trace_id ctx' = cx_trace_id ctx" "cx_span_counter ctx' = 2" "cx_current_parent_id ctx' = 1"
      "cx_root_span_id ctx' = 1" "cx_active ctx' = 1"
      using rinit_root_span_spec [OF assms(2), of st2] len ctx by (auto simp: st2)
    define st' where "st' = rinit_root_span rq st2"
    have g': "ps_lumbre st' = g\<lparr>g_ctx := ctx', g_root_span := root\<rparr>"
      unfolding st'_def root(1) by (simp add: st2)
    have m: "module_ok st'"
      using st1(2) len root(3) by (simp add: module_ok_def g' g_def Let_def)
    moreover have "g_ringbuf_initialized (ps_lumbre st') \<noteq> 0" using True st1(4) by (simp add: g' g_def)
    ultimately have "request_started st'"
      using module_mp_ready [OF m] root(2-7) len unfolding st'_def [symmetric]
      by (simp add: request_started_def ready_def env_of_def Let_def g')
        (use m in \<open>simp add: module_ok_def g' Let_def\<close>)
    with m show ?thesis
      using rinit True st1(4) assms(3) by (simp add: st'_def [symmetric] g') (simp add: g_def)
  qed
qed

subsection \<open>The calls and the end of a request\<close>

lemma fixed_settings_fields:
  assumes "fixed_settings g' = fixed_settings g"
  shows "g_shm_dir g' = g_shm_dir g" "g_buffer_size g' = g_buffer_size g" "g_mp_storage g' = g_mp_storage g"
    "g_ringbuf_initialized g' = g_ringbuf_initialized g" "g_root_span g' = g_root_span g"
    "g_whitelist g' = g_whitelist g" "g_max_query_len g' = g_max_query_len g"
proof -
  have "f (fixed_settings g') = f (fixed_settings g)" for f :: "lumbre_globals \<Rightarrow> 'a"
    using assms by simp
  from this [of g_shm_dir] this [of g_buffer_size] this [of g_mp_storage] this [of g_ringbuf_initialized]
    this [of g_root_span] this [of g_whitelist] this [of g_max_query_len]
  show "g_shm_dir g' = g_shm_dir g" "g_buffer_size g' = g_buffer_size g" "g_mp_storage g' = g_mp_storage g"
    "g_ringbuf_initialized g' = g_ringbuf_initialized g" "g_root_span g' = g_root_span g"
    "g_whitelist g' = g_whitelist g" "g_max_query_len g' = g_max_query_len g"
    by (simp_all add: fixed_settings_def settings_def)
qed

lemma module_ok_kept:
  assumes "module_ok st" and "fixed_settings (ps_lumbre st') = fixed_settings (ps_lumbre st)"
    and "g_ringbuf_initialized (ps_lumbre st) \<noteq> 0"
    and "length (cx_trace_id (g_ctx (ps_lumbre st'))) = 16" and "mp_ready (g_mp_buf (ps_lumbre st'))"
    and "mb_capacity (g_mp_buf (ps_lumbre st')) = 16384" and "ring_model (ring_of st') ms"
  shows "module_ok st'"
proof -
  have "storage_ok (mb_buf (g_mp_buf (ps_lumbre st')))" "unat (mb_pos (g_mp_buf (ps_lumbre st'))) \<le> 16384"
    using assms(5,6) by (simp_all add: mp_ready_def mb_wf_def storage_ok_def)
  moreover have "\<exists>ms. ring_model (g_ringbuf (ps_lumbre st')) ms" using assms(7) by (auto simp: ring_of_def)
  ultimately show ?thesis
    using assms(1,3,4,6) fixed_settings_fields [OF assms(2)] by (simp add: module_ok_def Let_def)
qed

lemma rshutdown_spec:
  assumes r: "ready e st" and s: "span_ok (g_root_span (ps_lumbre st))"
    and root: "sp_type (g_root_span (ps_lumbre st)) = LUMBRE_SPAN_HTTP_IN"
  defines "img \<equiv> span_image (span_final (g_root_span (ps_lumbre st)) (ps_now st) (te_max_query_len e))"
  shows "case ring_offers (te_capacity e) [img] (ring_of st) of
      None \<Rightarrow> lumbre_rshutdown st = None
    | Some rb \<Rightarrow> \<exists>st'. lumbre_rshutdown st = Some st' \<and> ring_of st' = rb \<and>
        cx_active (g_ctx (ps_lumbre st')) = 0 \<and> length (cx_trace_id (g_ctx (ps_lumbre st'))) = 16 \<and>
        mp_ready (g_mp_buf (ps_lumbre st')) \<and>
        mb_capacity (g_mp_buf (ps_lumbre st')) = mb_capacity (g_mp_buf (ps_lumbre st)) \<and>
        (\<exists>span. fixed_settings (ps_lumbre st') =
           (fixed_settings (ps_lumbre st))\<lparr>g_root_span := span\<rparr>) \<and>
        ps_now st' = ps_now st \<and> ps_output st' = ps_output st"
proof -
  define g where "g = ps_lumbre st"
  define sf where "sf = span_final (g_root_span g) (ps_now st) (te_max_query_len e)"
  have ready: "mp_ready (g_mp_buf g)" "unat (mb_capacity (g_mp_buf g)) = te_capacity e"
    "te_max_query_len e = ucast (g_max_query_len g)" "cx_active (g_ctx g) \<noteq> 0"
    using r by (simp_all add: ready_def g_def Let_def)
  have "\<not> span_filtered (g_root_span g) (ps_now st) 0" by (simp add: span_filtered_def)
  with span_finish_cases [OF s [folded g_def] ready(1), of "ps_now st" 0 "g_ringbuf g" "g_ctx g" "te_max_query_len e"]
  obtain mp' where mp': "mp_ready mp'" "mb_capacity mp' = mb_capacity (g_mp_buf g)"
    and finish: "lumbre_span_finish (g_root_span g) (g_ringbuf g) (g_mp_buf g) (g_ctx g) 0
        (te_max_query_len e) (ps_now st) =
      (let ctx = (g_ctx g)\<lparr>cx_current_parent_id := sp_parent_id (g_root_span g)\<rparr> in
       if te_capacity e < length (span_image sf) then Some (-1, sf, g_ringbuf g, mp', ctx)
       else do { (rc, rb) \<leftarrow> ring_put (g_ringbuf g) (span_image sf); Some (rc, sf, rb, mp', ctx) })"
    unfolding sf_def ready(2) Let_def by auto
  let ?fin = "\<lambda>rb. st\<lparr>ps_lumbre := g\<lparr>g_root_span := sf, g_ringbuf := rb, g_mp_buf := mp',
      g_ctx := lumbre_context_reset ((g_ctx g)\<lparr>cx_current_parent_id := sp_parent_id (g_root_span g)\<rparr>)\<rparr>\<rparr>"
  have run: "lumbre_rshutdown st =
      (if te_capacity e < length (span_image sf) then Some (?fin (g_ringbuf g))
       else do { (rc, rb) \<leftarrow> ring_put (g_ringbuf g) (span_image sf); Some (?fin rb) })"
    using ready(4) finish unfolding lumbre_rshutdown_def g_def [symmetric] Let_def ready(3) [symmetric]
    by (cases "ring_put (g_ringbuf g) (span_image sf)") (auto simp: Let_def)
  have result: "ring_of (?fin rb) = rb \<and> cx_active (g_ctx (ps_lumbre (?fin rb))) = 0 \<and>
      length (cx_trace_id (g_ctx (ps_lumbre (?fin rb)))) = 16 \<and> mp_ready (g_mp_buf (ps_lumbre (?fin rb))) \<and>
      mb_capacity (g_mp_buf (ps_lumbre (?fin rb))) = mb_capacity (g_mp_buf g) \<and>
      (\<exists>span. fixed_settings (ps_lumbre (?fin rb)) = (fixed_settings g)\<lparr>g_root_span := span\<rparr>) \<and>
      ps_now (?fin rb) = ps_now st \<and> ps_output (?fin rb) = ps_output st" for rb
    using mp' by (auto simp: ring_of_def lumbre_context_reset_def fixed_settings_def settings_def
        intro!: exI [of _ sf])
  have offers: "ring_offers (te_capacity e) [img] (ring_of st) =
      (if te_capacity e < length (span_image sf) then Some (g_ringbuf g)
       else map_option snd (ring_put (g_ringbuf g) (span_image sf)))"
    by (cases "ring_put (g_ringbuf g) (span_image sf)")
      (auto simp: img_def sf_def g_def ring_of_def)
  show ?thesis
    unfolding offers run g_def [symmetric] using result [of "g_ringbuf g"] result
    by (cases "ring_put (g_ringbuf g) (span_image sf)") auto
qed

subsection \<open>A whole request\<close>

definition offered :: "trace_env \<Rightarrow> lumbre_span_t list \<Rightarrow> bytes list" where
  "offered e spans = filter (\<lambda>m. length m \<le> te_capacity e) (map span_image spans)"

definition root_final :: "php_state \<Rightarrow> tracer \<Rightarrow> lumbre_span_t" where
  "root_final st t = span_final (g_root_span (ps_lumbre st)) (tr_now t) (te_max_query_len (env_of st))"

lemma started_capacity:
  assumes "module_ok st" and "request_ok rq" and "g_enabled (ps_lumbre st)"
    and "lumbre_rinit rq st = Some st1" and "g_enabled (ps_lumbre st1)"
  shows "te_capacity (env_of st1) = 16384"
proof -
  have "module_ok st1" "g_ringbuf_initialized (ps_lumbre st1) \<noteq> 0"
    using rinit_spec [OF assms(1-3)] assms(4,5) by (auto simp: request_started_def Let_def)
  from module_mp_ready [OF this] show ?thesis by (simp add: env_of_def Let_def)
qed

text \<open>
  From the state that \<^verbatim>\<open>RINIT\<close> leaves, whatever the ring is: the request returns exactly if the ring
  takes all its messages one after the other, and then the ring is what they made of it.
\<close>

lemma started_request:
  assumes z: "hooks_installed z" and calls: "list_all activity_ok calls"
    and rinit: "lumbre_rinit rq st = Some st1" and started: "request_started st1"
    and trace: "trace_activities (env_of st1) calls (tracer_of st1) = (out, spans, t)"
  shows "case ring_offers (te_capacity (env_of st1)) (map span_image (spans @ [root_final st1 t])) (ring_of st1) of
      None \<Rightarrow> run_request z rq calls st = None
    | Some rb \<Rightarrow> \<exists>st'. run_request z rq calls st = Some st' \<and> ring_of st' = rb \<and>
        cx_active (g_ctx (ps_lumbre st')) = 0 \<and> length (cx_trace_id (g_ctx (ps_lumbre st'))) = 16 \<and>
        mp_ready (g_mp_buf (ps_lumbre st')) \<and>
        unat (mb_capacity (g_mp_buf (ps_lumbre st'))) = te_capacity (env_of st1) \<and>
        (\<exists>span. fixed_settings (ps_lumbre st') = fixed_settings ((ps_lumbre st1)\<lparr>g_root_span := span\<rparr>))"
proof -
  define e where "e = env_of st1"
  have ready: "ready e st1" and root: "root_ok st1"
    using started by (simp_all add: request_started_def e_def Let_def)
  note f = run_follows(2) [OF z calls ready, unfolded follows_def trace [folded e_def] prod.case]
  show ?thesis
  proof (cases "ring_offers (te_capacity e) (map span_image spans) (ring_of st1)")
    case None
    with f rinit show ?thesis by (simp add: run_request_def ring_offers_append e_def)
  next
    case (Some rb)
    with f obtain st2 where st2: "run_activities z calls st1 = Some (out, st2)" "ready e st2" "ring_of st2 = rb"
      "tracer_of st2 = t"
      by auto
    note same = run_fixed [OF st2(1)]
    have root2: "g_root_span (ps_lumbre st2) = g_root_span (ps_lumbre st1)"
      by (rule fixed_settings_fields(5) [OF same])
    have "span_ok (g_root_span (ps_lumbre st2))" "sp_type (g_root_span (ps_lumbre st2)) = LUMBRE_SPAN_HTTP_IN"
      using root by (simp_all add: root2 root_ok_def Let_def)
    note down = rshutdown_spec [OF st2(2) this, unfolded st2(3)]
    have img: "span_final (g_root_span (ps_lumbre st2)) (ps_now st2) (te_max_query_len e) = root_final st1 t"
      using st2(4) by (auto simp: root_final_def root2 e_def)
    have run: "run_request z rq calls st = lumbre_rshutdown st2" using rinit st2(1) by (simp add: run_request_def)
    have offers: "ring_offers (te_capacity e) (map span_image (spans @ [root_final st1 t])) (ring_of st1) =
        ring_offers (te_capacity e) [span_image (root_final st1 t)] rb"
      using Some by (simp add: ring_offers_append)
    have kept: "unat (mb_capacity (g_mp_buf (ps_lumbre st2))) = te_capacity e"
      using st2(2) by (simp add: ready_def Let_def)
    have fixed: "\<exists>span. fixed_settings g = fixed_settings ((ps_lumbre st1)\<lparr>g_root_span := span\<rparr>)"
      if "fixed_settings g = (fixed_settings (ps_lumbre st2))\<lparr>g_root_span := span\<rparr>" for g span
      using that same by (intro exI [of _ span]) (simp add: fixed_settings_def settings_def)
    show ?thesis
      unfolding e_def [symmetric] offers run
      using down [unfolded img] kept
      by (cases "ring_offers (te_capacity e) [span_image (root_final st1 t)] rb") (auto simp del: ring_offers.simps dest: fixed)
  qed
qed

text \<open>A request that returns has offered its messages to the ring one after the other.\<close>

lemma request_run:
  assumes m: "module_ok st" and rq: "request_ok rq" and en: "g_enabled (ps_lumbre st)"
    and z: "hooks_installed z" and calls: "list_all activity_ok calls"
    and rinit: "lumbre_rinit rq st = Some st1" and started: "g_enabled (ps_lumbre st1)"
    and trace: "trace_activities (env_of st1) calls (tracer_of st1) = (out, spans, t)"
    and run: "run_request z rq calls st = Some st'"
  shows "ring_offers 16384 (map span_image (spans @ [root_final st1 t])) (ring_of st1) = Some (ring_of st') \<and>
    te_capacity (env_of st1) = 16384 \<and> cx_active (g_ctx (ps_lumbre st')) = 0 \<and>
    length (cx_trace_id (g_ctx (ps_lumbre st'))) = 16 \<and> mp_ready (g_mp_buf (ps_lumbre st')) \<and>
    mb_capacity (g_mp_buf (ps_lumbre st')) = 16384 \<and>
    (\<exists>span. fixed_settings (ps_lumbre st') = fixed_settings ((ps_lumbre st1)\<lparr>g_root_span := span\<rparr>))"
proof -
  have "request_started st1" using rinit_spec [OF m rq en] rinit started by auto
  note spec = started_request [OF z calls rinit this trace] and cap = started_capacity [OF m rq en rinit started]
  obtain rb where "ring_offers 16384 (map span_image (spans @ [root_final st1 t])) (ring_of st1) = Some rb"
    using spec cap run by (cases "ring_offers 16384 (map span_image (spans @ [root_final st1 t])) (ring_of st1)") auto
  with spec cap run show ?thesis by (auto simp: word_unat_eq_iff)
qed

lemma request_spec:
  assumes m: "module_ok st" and rq: "request_ok rq" and en: "g_enabled (ps_lumbre st)"
    and z: "hooks_installed z" and calls: "list_all activity_ok calls"
    and rinit: "lumbre_rinit rq st = Some st1" and started: "g_enabled (ps_lumbre st1)"
    and holds: "ring_model (ring_of st1) ms"
    and trace: "trace_activities (env_of st1) calls (tracer_of st1) = (out, spans, t)"
    and run: "run_request z rq calls st = Some st'"
  defines "msgs \<equiv> offered (env_of st1) (spans @ [root_final st1 t])"
  shows "\<exists>kept. subseq kept msgs \<and> ring_model (ring_of st') (ms @ kept) \<and>
    rb_dropped (ring_of st') = rb_dropped (ring_of st1) + of_nat (length msgs - length kept) \<and>
    module_ok st' \<and> cx_active (g_ctx (ps_lumbre st')) = 0"
proof -
  obtain span where r: "ring_offers 16384 (map span_image (spans @ [root_final st1 t])) (ring_of st1) = Some (ring_of st')"
    "te_capacity (env_of st1) = 16384" "cx_active (g_ctx (ps_lumbre st')) = 0"
    "length (cx_trace_id (g_ctx (ps_lumbre st'))) = 16" "mp_ready (g_mp_buf (ps_lumbre st'))"
    "mb_capacity (g_mp_buf (ps_lumbre st')) = 16384"
    "fixed_settings (ps_lumbre st') = fixed_settings ((ps_lumbre st1)\<lparr>g_root_span := span\<rparr>)"
    using request_run [OF m rq en z calls rinit started trace run] by blast
  from ring_offers_kept [OF holds r(1)] obtain kept where kept: "subseq kept msgs"
    "ring_model (ring_of st') (ms @ kept)"
    "rb_dropped (ring_of st') = rb_dropped (ring_of st1) + of_nat (length msgs - length kept)"
    by (auto simp: msgs_def offered_def r(2))
  have st1: "module_ok st1" "request_started st1"
    using rinit_spec [OF m rq en] rinit started by auto
  then have init: "g_ringbuf_initialized (ps_lumbre st1) \<noteq> 0" by (simp add: request_started_def Let_def)
  have "module_ok (st1\<lparr>ps_lumbre := (ps_lumbre st1)\<lparr>g_root_span := span\<rparr>\<rparr>)"
    using st1(1) by (simp add: module_ok_def Let_def)
  then have "module_ok st'"
    using module_ok_kept [of "st1\<lparr>ps_lumbre := (ps_lumbre st1)\<lparr>g_root_span := span\<rparr>\<rparr>" st' "ms @ kept"]
      r(4-7) init kept(2) by simp
  with kept r(3) show ?thesis by auto
qed

lemma request_fault_offers:
  assumes m: "module_ok st" and rq: "request_ok rq" and en: "g_enabled (ps_lumbre st)"
    and z: "hooks_installed z" and calls: "list_all activity_ok calls"
    and rinit: "lumbre_rinit rq st = Some st1" and started: "g_enabled (ps_lumbre st1)"
    and trace: "trace_activities (env_of st1) calls (tracer_of st1) = (out, spans, t)"
    and run: "run_request z rq calls st = None"
  shows "ring_offers 16384 (map span_image (spans @ [root_final st1 t])) (ring_of st1) = None"
proof -
  have "request_started st1" using rinit_spec [OF m rq en] rinit started by auto
  from started_request [OF z calls rinit this trace] show ?thesis
    using started_capacity [OF m rq en rinit started] run by (auto split: option.splits)
qed

lemma request_fault:
  assumes "module_ok st" and "request_ok rq" and "g_enabled (ps_lumbre st)"
    and "hooks_installed z" and "list_all activity_ok calls"
    and "lumbre_rinit rq st = Some st1" and "g_enabled (ps_lumbre st1)"
    and holds: "ring_model (ring_of st1) ms"
    and "trace_activities (env_of st1) calls (tracer_of st1) = (out, spans, t)"
    and "run_request z rq calls st = None"
  shows "\<exists>pre m post rb. map span_image (spans @ [root_final st1 t]) = pre @ m # post \<and>
    ring_offers 16384 pre (ring_of st1) = Some rb \<and> ring_accepts rb m \<and> marker_overruns rb m"
  using ring_offers_fault [OF holds request_fault_offers [OF assms(1-7,9,10)]] by auto

text \<open>The same for its calls alone, from the state of a started request.\<close>

lemma calls_fault:
  assumes z: "hooks_installed z" and calls: "list_all activity_ok calls" and m: "module_ok st"
    and started: "request_started st" and fault: "run_activities z calls st = None"
  shows "\<exists>pre m post rb. map span_image (fst (snd (trace_activities (env_of st) calls (tracer_of st)))) = pre @ m # post \<and>
    ring_offers 16384 pre (ring_of st) = Some rb \<and> ring_accepts rb m \<and> marker_overruns rb m"
proof -
  have ready: "ready (env_of st) st" and init: "g_ringbuf_initialized (ps_lumbre st) \<noteq> 0"
    using started by (simp_all add: request_started_def Let_def)
  have cap: "te_capacity (env_of st) = 16384" using module_mp_ready [OF m init] by (simp add: env_of_def Let_def)
  obtain ms where ring: "ring_model (ring_of st) ms"
    using m init by (auto simp: module_ok_def ring_of_def Let_def)
  obtain out spans t where trace: "trace_activities (env_of st) calls (tracer_of st) = (out, spans, t)"
    by (metis prod_cases3)
  have "ring_offers 16384 (map span_image spans) (ring_of st) = None"
    using run_follows(2) [OF z calls ready] fault cap by (auto simp: follows_def trace split: option.splits)
  from ring_offers_fault [OF ring this] trace show ?thesis by auto
qed

text \<open>A request on a ring that is already there starts with that ring.\<close>

lemma rinit_initialized:
  assumes "lumbre_rinit rq st = Some st1" and "g_ringbuf_initialized (ps_lumbre st) \<noteq> 0"
  shows "g_enabled (ps_lumbre st1) = g_enabled (ps_lumbre st)" and "ring_of st1 = ring_of st"
  using assms
  by (auto simp: lumbre_rinit_def rinit_ringbuf_def rinit_root_span_def ring_of_def bind_eq_Some_conv Let_def
      split_beta split: if_splits)

subsection \<open>Identifiers of the spans of a trace\<close>

fun call_count :: "activity \<Rightarrow> nat" where
  "call_count (Call_internal ed body) = Suc (sum_list (map call_count body))"
| "call_count (Call_user ed body) = Suc (sum_list (map call_count body))"
| "call_count _ = 0"

lemma span_of_internal_ids:
  "span_of_internal e ed t = Some s \<Longrightarrow> sp_span_id s = tr_counter t \<and> sp_parent_id s = tr_parent t"
  by (auto simp: span_of_internal_code bind_eq_Some_conv split: if_splits)

lemma span_of_user_ids:
  assumes "span_of_user e ed t = Some s"
  shows "sp_span_id s = tr_counter t \<and> sp_parent_id s = tr_parent t"
proof -
  obtain f func where "s = (case user_location ed f of (file, file_len, line) \<Rightarrow>
      lumbre_span_set_func (new_span e LUMBRE_SPAN_FUNC t)
        (zf_scope_name f) (ucast (zstr_len (zf_scope_name f))) (Some func) (ucast (zstr_len (Some func)))
        (if file \<noteq> None then file else Some []) file_len line)"
    using assms by (auto simp: span_of_user_code bind_eq_Some_conv split: if_splits)
  then show ?thesis by (simp add: lumbre_span_set_func_def split: prod.splits)
qed

lemma recorded_ids: "s' \<in> set (recorded e s t) \<Longrightarrow> sp_span_id s' = sp_span_id s \<and> sp_parent_id s' = sp_parent_id s"
  by (auto simp: recorded_def span_final_def span_truncated_def span_timed_def split: if_splits)

text \<open>Identifiers drawn between two counter values, each once, with parents outside or drawn before.\<close>

definition ids_between :: "nat \<Rightarrow> nat \<Rightarrow> u64 \<Rightarrow> lumbre_span_t list \<Rightarrow> bool" where
  "ids_between lo hi parent spans \<longleftrightarrow> distinct (map sp_span_id spans) \<and>
     (\<forall>s \<in> set spans. lo \<le> unat (sp_span_id s) \<and> unat (sp_span_id s) < hi \<and>
       (sp_parent_id s = parent \<or> lo \<le> unat (sp_parent_id s) \<and> unat (sp_parent_id s) < unat (sp_span_id s)))"

lemma ids_between_append:
  assumes "ids_between lo mid p xs" and "ids_between mid hi p ys" and "lo \<le> mid" and "mid \<le> hi"
  shows "ids_between lo hi p (xs @ ys)"
proof -
  have "sp_span_id x \<noteq> sp_span_id y" if "x \<in> set xs" "y \<in> set ys" for x y
  proof -
    have "unat (sp_span_id x) < mid" "mid \<le> unat (sp_span_id y)"
      using assms(1,2) that by (auto simp: ids_between_def)
    then show ?thesis by auto
  qed
  then have "set (map sp_span_id xs) \<inter> set (map sp_span_id ys) = {}" by auto
  then show ?thesis using assms by (fastforce simp: ids_between_def)
qed

lemma ids_between_call:
  assumes "ids_between (Suc (unat c)) hi c xs" and "Suc (unat c) \<le> hi"
    and "sp_span_id s = c" and "sp_parent_id s = p" and "out = Returned \<or> ys = []"
    and "ys = [] \<or> ys = recorded e s t"
  shows "ids_between (unat c) hi p (xs @ ys)"
proof -
  have ys: "sp_span_id y = c \<and> sp_parent_id y = p" if "y \<in> set ys" for y
    using that assms(3,4,6) recorded_ids [of y e s t] by auto
  have "length ys \<le> 1" using assms(6) by (auto simp: recorded_def)
  then have "distinct (map sp_span_id ys)" by (cases ys) auto
  moreover have "sp_span_id x \<noteq> c" if "x \<in> set xs" for x
    using assms(1) that by (fastforce simp: ids_between_def)
  then have "set (map sp_span_id xs) \<inter> set (map sp_span_id ys) = {}" using ys by auto
  ultimately show ?thesis
    using assms(1,2) ys by (fastforce simp: ids_between_def)
qed

definition ids_ok :: "tracing \<Rightarrow> nat \<Rightarrow> tracer \<Rightarrow> bool" where
  "ids_ok spec n t \<longleftrightarrow> unat (tr_counter t) + n < 18446744073709551616 \<longrightarrow>
     (case spec t of (out, spans, t') \<Rightarrow>
        unat (tr_counter t) \<le> unat (tr_counter t') \<and> unat (tr_counter t') \<le> unat (tr_counter t) + n \<and>
        ids_between (unat (tr_counter t)) (unat (tr_counter t')) (tr_parent t) spans \<and>
        (out = Returned \<longrightarrow> tr_parent t' = tr_parent t))"

lemma traced_call_ids:
  assumes body: "\<And>t. ids_ok spec n t"
    and span: "\<And>s. span = Some s \<Longrightarrow> sp_span_id s = tr_counter t \<and> sp_parent_id s = tr_parent t"
  shows "ids_ok (traced_call e span spec) (Suc n) t"
proof (cases span)
  case None
  then show ?thesis using body [of t] by (auto simp: ids_ok_def split: prod.splits)
next
  case (Some s)
  define t1 where "t1 = t\<lparr>tr_counter := tr_counter t + 1, tr_parent := sp_span_id s\<rparr>"
  obtain out spans t' where spec: "spec t1 = (out, spans, t')" by (cases "spec t1")
  have eq: "traced_call e span spec t =
      (out, spans @ (if out = Returned then recorded e s t' else []),
       if out = Returned then t'\<lparr>tr_parent := sp_parent_id s\<rparr> else t')"
    using spec Some unfolding t1_def by (cases out) simp_all
  show ?thesis
    unfolding ids_ok_def
  proof
    assume room: "unat (tr_counter t) + Suc n < 18446744073709551616"
    then have "unat (tr_counter t1) = Suc (unat (tr_counter t))"
      by (simp add: t1_def unat_plus)
    then have b: "Suc (unat (tr_counter t)) \<le> unat (tr_counter t')"
      "unat (tr_counter t') \<le> Suc (unat (tr_counter t)) + n"
      "ids_between (Suc (unat (tr_counter t))) (unat (tr_counter t')) (tr_counter t) spans"
      using body [of t1] spec room span Some by (simp_all add: ids_ok_def) (simp add: t1_def)
    have ids: "sp_span_id s = tr_counter t" "sp_parent_id s = tr_parent t" using span Some by auto
    note call = ids_between_call [OF b(3,1) ids, of out _ e t']
    show "case traced_call e span spec t of (out, spans, t') \<Rightarrow>
        unat (tr_counter t) \<le> unat (tr_counter t') \<and> unat (tr_counter t') \<le> unat (tr_counter t) + Suc n \<and>
        ids_between (unat (tr_counter t)) (unat (tr_counter t')) (tr_parent t) spans \<and>
        (out = Returned \<longrightarrow> tr_parent t' = tr_parent t)"
      unfolding eq using b(1,2) ids call [of "[]"] call [of "recorded e s t'"] by (cases out) auto
  qed
qed

lemma activities_ids:
  assumes "\<forall>a \<in> set as. \<forall>t. ids_ok (trace_activity e a) (call_count a) t"
  shows "ids_ok (trace_activities e as) (sum_list (map call_count as)) t"
  using assms
proof (induction as arbitrary: t)
  case Nil
  then show ?case by (simp add: ids_ok_def ids_between_def)
next
  case (Cons a as t)
  obtain o1 xs t1 where 1: "trace_activity e a t = (o1, xs, t1)" by (cases "trace_activity e a t")
  obtain o2 ys t2 where 2: "trace_activities e as t1 = (o2, ys, t2)" by (cases "trace_activities e as t1")
  have a: "ids_ok (trace_activity e a) (call_count a) t" using Cons.prems by simp
  have as: "ids_ok (trace_activities e as) (sum_list (map call_count as)) t1" using Cons by simp
  have "case trace_activities e (a # as) t of (out, spans, t') \<Rightarrow>
      unat (tr_counter t) \<le> unat (tr_counter t') \<and>
      unat (tr_counter t') \<le> unat (tr_counter t) + sum_list (map call_count (a # as)) \<and>
      ids_between (unat (tr_counter t)) (unat (tr_counter t')) (tr_parent t) spans \<and>
      (out = Returned \<longrightarrow> tr_parent t' = tr_parent t)"
    if room: "unat (tr_counter t) + sum_list (map call_count (a # as)) < 18446744073709551616"
  proof -
    from room have A: "unat (tr_counter t) \<le> unat (tr_counter t1)"
      "unat (tr_counter t1) \<le> unat (tr_counter t) + call_count a"
      "ids_between (unat (tr_counter t)) (unat (tr_counter t1)) (tr_parent t) xs"
      "o1 = Returned \<longrightarrow> tr_parent t1 = tr_parent t"
      using a 1 by (simp_all add: ids_ok_def)
    then have B: "unat (tr_counter t1) \<le> unat (tr_counter t2)"
      "unat (tr_counter t2) \<le> unat (tr_counter t1) + sum_list (map call_count as)"
      "ids_between (unat (tr_counter t1)) (unat (tr_counter t2)) (tr_parent t1) ys"
      "o2 = Returned \<longrightarrow> tr_parent t2 = tr_parent t1"
      using as 2 room by (simp_all add: ids_ok_def)
    show ?thesis
    proof (cases o1)
      case Returned
      with A(4) B(3) have "ids_between (unat (tr_counter t1)) (unat (tr_counter t2)) (tr_parent t) ys" by simp
      from ids_between_append [OF A(3) this A(1) B(1)] show ?thesis
        using A B 1 2 Returned by simp
    next
      case Bailed_out
      then show ?thesis using A 1 by simp
    qed
  qed
  then show ?case unfolding ids_ok_def by (rule impI)
qed

lemma activity_ids: "ids_ok (trace_activity e a) (call_count a) t"
proof (induction a arbitrary: t)
  case (Call_internal ed body)
  then have "ids_ok (trace_activities e body) (sum_list (map call_count body)) t" for t
    by (intro activities_ids) blast
  from traced_call_ids [OF this, of "span_of_internal e ed t" t e] span_of_internal_ids [of e ed t]
  show ?case by (simp add: ids_ok_def)
next
  case (Call_user ed body)
  then have "ids_ok (trace_activities e body) (sum_list (map call_count body)) t" for t
    by (intro activities_ids) blast
  from traced_call_ids [OF this, of "span_of_user e ed t" t e] span_of_user_ids [of e ed t]
  show ?case by (simp add: ids_ok_def)
qed (simp_all add: ids_ok_def ids_between_def)

text \<open>The recorded spans can all be encoded and read back.\<close>

lemma recorded_ok: "span_ok s \<Longrightarrow> \<forall>s' \<in> set (recorded e s t). span_ok s'"
  by (simp add: recorded_def span_final_ok)

lemma traced_call_spans:
  assumes "\<And>t out spans t'. spec t = (out, spans, t') \<Longrightarrow> \<forall>s \<in> set spans. span_ok s"
    and "\<And>s. span = Some s \<Longrightarrow> span_ok s" and "traced_call e span spec t = (out, spans, t')"
  shows "\<forall>s \<in> set spans. span_ok s"
proof (cases span)
  case (Some s)
  obtain o1 spans1 t1 where 1: "spec (t\<lparr>tr_counter := tr_counter t + 1, tr_parent := sp_span_id s\<rparr>) = (o1, spans1, t1)"
    by (metis prod_cases3)
  have "set spans \<subseteq> set spans1 \<union> set (recorded e s t1)" using assms(3) 1 Some by (cases o1) auto
  then show ?thesis using assms(1) [OF 1] recorded_ok [OF assms(2) [OF Some], of e t1] by blast
qed (use assms in auto)

lemma trace_spans_ok:
  assumes e: "length (te_trace_id e) = 16"
  shows "activity_ok a \<Longrightarrow> trace_activity e a t = (out, spans, t') \<Longrightarrow> \<forall>s \<in> set spans. span_ok s"
    and "list_all activity_ok as \<Longrightarrow> trace_activities e as t = (out, spans, t') \<Longrightarrow> \<forall>s \<in> set spans. span_ok s"
  using e
proof (induction e a t and e as t arbitrary: out spans t' and out spans t'
    rule: trace_activity_trace_activities.induct)
  case (5 e ed body t)
  then show ?case
    using traced_call_spans [of "trace_activities e body" "span_of_internal e ed t" e t out spans t']
      span_of_internal_ok(1) by simp
next
  case (6 e ed body t)
  then show ?case
    using traced_call_spans [of "trace_activities e body" "span_of_user e ed t" e t out spans t']
      span_of_user_ok(1) by simp
next
  case (9 e a as t)
  obtain o1 xs t1 where 1: "trace_activity e a t = (o1, xs, t1)" by (metis prod_cases3)
  obtain o2 ys t2 where 2: "trace_activities e as t1 = (o2, ys, t2)" by (metis prod_cases3)
  have xs: "\<forall>s \<in> set xs. span_ok s" using "9.IH"(1) [OF _ 1] "9.prems" by simp
  show ?case
  proof (cases o1)
    case Returned
    then have "\<forall>s \<in> set ys. span_ok s" using "9.IH"(2) [OF 1 [symmetric] _ refl _ 2] "9.prems" by simp
    with xs Returned 1 2 "9.prems"(2) show ?thesis by auto
  next
    case Bailed_out
    with xs 1 "9.prems"(2) show ?thesis by simp
  qed
qed simp_all

lemma subseq_sets: "subseq xs ys \<Longrightarrow> set xs \<subseteq> set ys"
  by (induction rule: list_emb.induct) auto

lemma subseq_distinct: "subseq xs ys \<Longrightarrow> distinct (map f ys) \<Longrightarrow> distinct (map f xs)"
  by (induction rule: list_emb.induct) (auto dest: subseq_sets)

text \<open>What the messages of a traced request say of their identifiers.\<close>

lemma request_ids:
  assumes started: "request_started st1" and calls: "list_all activity_ok calls"
    and room: "2 + sum_list (map call_count calls) < 18446744073709551616"
    and trace: "trace_activities (env_of st1) calls (tracer_of st1) = (out, spans, t)"
    and m: "msgs = offered (env_of st1) (spans @ [root_final st1 t])"
  shows "distinct (map (message_uint ''sid'') msgs)"
    and "x \<in> set msgs \<Longrightarrow> \<exists>sid pid. message_uint ''sid'' x = Some sid \<and> message_uint ''pid'' x = Some pid \<and>
      (sid = 1 \<and> pid = 0 \<or> 1 < sid \<and> 1 \<le> pid \<and> pid < sid)"
    and "out = Returned \<Longrightarrow> tr_parent t = 1"
proof -
  let ?root = "root_final st1 t" and ?fits = "\<lambda>s. length (span_image s) \<le> te_capacity (env_of st1)"
  have t1: "tr_counter (tracer_of st1) = 2" "tr_parent (tracer_of st1) = 1"
    using started by (simp_all add: request_started_def tracer_of_def Let_def)
  have root: "span_ok ?root" "sp_span_id ?root = 1" "sp_parent_id ?root = 0"
    using started
    by (simp_all add: request_started_def root_ok_def root_final_def span_final_ok Let_def)
      (simp_all add: span_final_def span_truncated_def span_timed_def)
  have "ids_ok (trace_activities (env_of st1) calls) (sum_list (map call_count calls)) (tracer_of st1)"
    by (rule activities_ids) (simp add: activity_ids)
  then have ids: "ids_between 2 (unat (tr_counter t)) 1 spans" and "out = Returned \<longrightarrow> tr_parent t = 1"
    using room trace t1 by (simp_all add: ids_ok_def)
  then show "out = Returned \<Longrightarrow> tr_parent t = 1" by simp
  have e: "length (te_trace_id (env_of st1)) = 16" using started by (simp add: request_started_def ready_def Let_def)
  have ok: "\<forall>s \<in> set (spans @ [?root]). span_ok s" using trace_spans_ok(2) [OF e calls trace] root(1) by simp
  have msgs: "msgs = map span_image (filter ?fits (spans @ [?root]))"
    unfolding m offered_def filter_map comp_def ..
  have "map (message_uint ''sid'') msgs = map Some (map sp_span_id (filter ?fits (spans @ [?root])))"
    unfolding msgs using ok message_ids(1) by auto
  moreover have "distinct (map sp_span_id (spans @ [?root]))"
    using ids root(2) by (fastforce simp: ids_between_def)
  then have "distinct (map sp_span_id (filter ?fits (spans @ [?root])))" by (rule distinct_map_filter)
  ultimately show "distinct (map (message_uint ''sid'') msgs)" by (simp only: distinct_map inj_Some)
  assume "x \<in> set msgs"
  then obtain s where s: "x = span_image s" "s \<in> set (spans @ [?root])"
    unfolding msgs set_map set_filter by blast
  have "sp_span_id s = 1 \<and> sp_parent_id s = 0 \<or>
      1 < sp_span_id s \<and> 1 \<le> sp_parent_id s \<and> sp_parent_id s < sp_span_id s"
    using s(2) ids root(2,3) by (auto simp: ids_between_def word_le_nat_alt word_less_nat_alt)
  with s message_ids [of s] ok show "\<exists>sid pid. message_uint ''sid'' x = Some sid \<and> message_uint ''pid'' x = Some pid \<and>
      (sid = 1 \<and> pid = 0 \<or> 1 < sid \<and> 1 \<le> pid \<and> pid < sid)"
    by auto
qed

end
