(* ===== verification/Lumbre_Worker.thy ===== *)
theory Lumbre_Worker
  imports Lumbre_Request
begin

text \<open>
  The life of a worker process: its requests one after the other, the runtime settings that PHP
  restores between them, and the consumer taking messages out of the shared ring. The worker is a
  step relation that records what its requests offered to the ring and what the consumer took.
  The invariant accounts for every message: taken, still in the ring, or counted as dropped.
\<close>

subsection \<open>Calls outside a traced request\<close>

text \<open>With no active context the hooks do nothing, whatever the script sets at run time.\<close>

lemma through_inactive:
  assumes "cx_active (g_ctx (ps_lumbre st)) = 0" and "hooks_installed z"
  shows "through_internal z ed h st = dispatch h (target_internal z) ed st"
    and "through_ex z ed h st = dispatch h (the (target_ex z)) ed st"
  using assms call_originals [OF assms(2), of h ed]
  by (auto simp: through_internal_def through_ex_def lumbre_execute_internal_def lumbre_execute_ex_def
      hooks_installed_def)

definition tracer_state :: "php_state \<Rightarrow> lumbre_context_t \<times> lumbre_msgpack_buf \<times> lumbre_ringbuf_t" where
  "tracer_state st = (g_ctx (ps_lumbre st), g_mp_buf (ps_lumbre st), g_ringbuf (ps_lumbre st))"

lemma inactive_run:
  shows "hooks_installed z \<Longrightarrow> cx_active (g_ctx (ps_lumbre st)) = 0 \<Longrightarrow>
      \<exists>out st'. run_activity z a st = Some (out, st') \<and> tracer_state st' = tracer_state st"
    and "hooks_installed z \<Longrightarrow> cx_active (g_ctx (ps_lumbre st)) = 0 \<Longrightarrow>
      \<exists>out st'. run_activities z as st = Some (out, st') \<and> tracer_state st' = tracer_state st"
proof (induction z a st and z as st rule: run_activity_run_activities.induct)
  case (5 z ed body st)
  let ?st = "st\<lparr>ps_reached := ps_reached st @ [(target_internal z, ed)]\<rparr>"
  have "run_activity z (Call_internal ed body) st = run_activities z body ?st"
    using 5(2,3) by (simp add: through_inactive dispatch_def)
  with 5(1) [of ?st] 5(2,3) show ?case by (simp add: tracer_state_def)
next
  case (6 z ed body st)
  let ?st = "st\<lparr>ps_reached := ps_reached st @ [(the (target_ex z), ed)]\<rparr>"
  have "run_activity z (Call_user ed body) st = run_activities z body ?st"
    using 6(2,3) by (simp add: through_inactive dispatch_def)
  with 6(1) [of ?st] 6(2,3) show ?case by (simp add: tracer_state_def)
next
  case (9 z a as st)
  then obtain o1 st1 where 1: "run_activity z a st = Some (o1, st1)" "tracer_state st1 = tracer_state st"
    by blast
  then have "cx_active (g_ctx (ps_lumbre st1)) = 0" using 9(4) by (simp add: tracer_state_def)
  with 1 9(2,3) show ?case by (cases o1) auto
qed (auto simp: tracer_state_def set_globals_def)

lemma module_ok_same:
  assumes "fixed_settings (ps_lumbre st') = fixed_settings (ps_lumbre st)"
    and "tracer_state st' = tracer_state st"
  shows "module_ok st' \<longleftrightarrow> module_ok st"
  using fixed_settings_fields [OF assms(1)] assms(2) by (simp add: module_ok_def tracer_state_def Let_def)

subsection \<open>One request in the life of a worker\<close>

text \<open>The messages and the drop count of the ring, none and 0 as long as there is no ring.\<close>

definition ring_state :: "php_state \<Rightarrow> bytes list \<Rightarrow> u64 \<Rightarrow> bool" where
  "ring_state st ms d \<longleftrightarrow>
     (if g_ringbuf_initialized (ps_lumbre st) = 0 then ms = [] \<and> d = 0
      else ring_model (ring_of st) ms \<and> rb_dropped (ring_of st) = d)"

lemma ring_state_same:
  assumes "fixed_settings (ps_lumbre st') = fixed_settings (ps_lumbre st)"
    and "tracer_state st' = tracer_state st"
  shows "ring_state st' ms d \<longleftrightarrow> ring_state st ms d"
  using fixed_settings_fields [OF assms(1)] assms(2)
  by (simp add: ring_state_def tracer_state_def ring_of_def)

text \<open>What a request offers to the ring: nothing, unless it is traced.\<close>

definition request_messages :: "php_request \<Rightarrow> activity list \<Rightarrow> php_state \<Rightarrow> bytes list" where
  "request_messages rq calls st =
     (case lumbre_rinit rq st of
        None \<Rightarrow> []
      | Some st1 \<Rightarrow>
          if cx_active (g_ctx (ps_lumbre st1)) = 0 then []
          else (case trace_activities (env_of st1) calls (tracer_of st1) of
             (out, spans, t) \<Rightarrow> offered (env_of st1) (spans @ [root_final st1 t])))"

lemma init_fresh_dropped:
  assumes "lumbre_ringbuf_init os rb dir pid wid cap = (0, rb', log)"
  shows "rb_dropped rb' = 0"
  using assms by (auto simp: init_defs rb_dropped_def fresh_header_def split: if_splits)

lemma rinit_ringbuf_fresh:
  assumes "rinit_ringbuf rq st = Some (ok, st1)" and "g_ringbuf_initialized (ps_lumbre st) = 0"
    and "g_ringbuf_initialized (ps_lumbre st1) \<noteq> 0"
  obtains os rb dir pid wid log where
    "lumbre_ringbuf_init os rb dir pid wid (ucast (g_buffer_size (ps_lumbre st))) = (0, ring_of st1, log)"
proof -
  obtain wid counter where wid: "lumbre_worker_id (rq_zts rq) (ps_worker_counter st) = (wid, counter)"
    by (cases "lumbre_worker_id (rq_zts rq) (ps_worker_counter st)")
  obtain dir where dir: "g_shm_dir (ps_lumbre st) = Some dir" and storage: "g_mp_storage (ps_lumbre st) \<or> rq_storage rq \<noteq> None"
    using assms wid by (auto simp: rinit_ringbuf_def Let_def bind_eq_Some_conv split: if_splits)
  obtain rc rb log where init: "lumbre_ringbuf_init (rq_os rq) (g_ringbuf (ps_lumbre st)) dir (rq_pid rq) wid
      (ucast (g_buffer_size (ps_lumbre st))) = (rc, rb, log)"
    by (metis prod_cases3)
  have "rc = 0 \<and> ring_of st1 = rb"
    using assms wid dir storage init by (auto simp: rinit_ringbuf_def ring_of_def Let_def split: if_splits)
  with init show thesis using that by blast
qed

lemma rinit_after_ringbuf:
  assumes "lumbre_rinit rq st = Some st1"
  obtains "st1 = st"
  | ok st0 where "rinit_ringbuf rq st = Some (ok, st0)" "ring_of st1 = ring_of st0"
    "g_ringbuf_initialized (ps_lumbre st1) = g_ringbuf_initialized (ps_lumbre st0)"
proof (cases "g_enabled (ps_lumbre st)")
  case False
  then show thesis using assms that(1) by (simp add: lumbre_rinit_def)
next
  case True
  then obtain ok st0 where st0: "rinit_ringbuf rq st = Some (ok, st0)"
    using assms by (auto simp: lumbre_rinit_def bind_eq_Some_conv)
  have "ring_of (rinit_root_span rq st) = ring_of st"
    "g_ringbuf_initialized (ps_lumbre (rinit_root_span rq st)) = g_ringbuf_initialized (ps_lumbre st)" for st
    by (simp_all add: rinit_root_span_def ring_of_def Let_def split: prod.splits)
  with st0 show thesis
    using assms True that(2) [OF st0]
    by (auto simp: lumbre_rinit_def bind_eq_Some_conv ring_of_def Let_def split: if_splits)
qed

lemma rinit_ring_state:
  assumes "module_ok st" and "lumbre_rinit rq st = Some st1" and "ring_state st ms d"
  shows "ring_state st1 ms d"
proof (cases "g_ringbuf_initialized (ps_lumbre st) = 0")
  case True
  have "ring_model (ring_of st1) [] \<and> rb_dropped (ring_of st1) = 0"
    if init: "g_ringbuf_initialized (ps_lumbre st1) \<noteq> 0"
  proof -
    obtain ok st0 where st0: "rinit_ringbuf rq st = Some (ok, st0)" "ring_of st1 = ring_of st0"
      "g_ringbuf_initialized (ps_lumbre st0) \<noteq> 0"
      using rinit_after_ringbuf [OF assms(2)] init True by metis
    obtain os rb dir pid wid log where "lumbre_ringbuf_init os rb dir pid wid
        (ucast (g_buffer_size (ps_lumbre st))) = (0, ring_of st1, log)"
      using rinit_ringbuf_fresh [OF st0(1) True st0(3)] st0(2) by metis
    then show ?thesis using init_ring_model init_fresh_dropped by blast
  qed
  with True assms(3) show ?thesis by (simp add: ring_state_def)
next
  case False
  have "g_ringbuf_initialized (ps_lumbre st1) \<noteq> 0"
    using assms(2) False by (elim rinit_after_ringbuf) (auto simp: rinit_ringbuf_def Let_def)
  with rinit_initialized(2) [OF assms(2) False] assms(3) False show ?thesis by (simp add: ring_state_def)
qed

text \<open>A request that is not traced leaves ring and context as \<^verbatim>\<open>RINIT\<close> left them.\<close>

lemma untraced_request:
  assumes z: "hooks_installed z" and inactive: "cx_active (g_ctx (ps_lumbre st1)) = 0"
    and rinit: "lumbre_rinit rq st = Some st1" and run: "run_request z rq calls st = Some st'"
  shows "fixed_settings (ps_lumbre st') = fixed_settings (ps_lumbre st1)" and "tracer_state st' = tracer_state st1"
proof -
  obtain out st2 where st2: "run_activities z calls st1 = Some (out, st2)" "tracer_state st2 = tracer_state st1"
    using inactive_run(2) [OF z inactive] by blast
  then have "cx_active (g_ctx (ps_lumbre st2)) = 0" using inactive by (simp add: tracer_state_def)
  then have "st' = st2" using run rinit st2(1) by (simp add: run_request_def lumbre_rshutdown_def Let_def)
  with st2 run_fixed [OF st2(1)]
  show "fixed_settings (ps_lumbre st') = fixed_settings (ps_lumbre st1)" "tracer_state st' = tracer_state st1"
    by simp_all
qed

definition worker_ok :: "php_state \<Rightarrow> bool" where
  "worker_ok st \<longleftrightarrow> module_ok st \<and> cx_active (g_ctx (ps_lumbre st)) = 0"

lemma rshutdown_initialized:
  "lumbre_rshutdown st = Some st' \<Longrightarrow>
    g_ringbuf_initialized (ps_lumbre st') = g_ringbuf_initialized (ps_lumbre st)"
  by (auto simp: lumbre_rshutdown_def Let_def bind_eq_Some_conv split: if_splits)

lemma run_request_initialized:
  assumes "run_request z rq calls st = Some st'" and "lumbre_rinit rq st = Some st1"
  shows "g_ringbuf_initialized (ps_lumbre st') = g_ringbuf_initialized (ps_lumbre st1)"
  using assms rshutdown_initialized fixed_settings_fields(4) [OF run_fixed]
  by (fastforce simp: run_request_def bind_eq_Some_conv)

lemma request_step:
  assumes ok: "worker_ok st" and rq: "request_ok rq" and z: "hooks_installed z"
    and calls: "list_all activity_ok calls" and run: "run_request z rq calls st = Some st'"
    and state: "ring_state st ms d"
  defines "msgs \<equiv> request_messages rq calls st"
  shows "worker_ok st' \<and> (\<exists>kept. subseq kept msgs \<and>
    ring_state st' (ms @ kept) (d + of_nat (length msgs - length kept)))"
proof -
  have m: "module_ok st" and inactive: "cx_active (g_ctx (ps_lumbre st)) = 0"
    using ok by (simp_all add: worker_ok_def)
  obtain st1 where st1: "lumbre_rinit rq st = Some st1"
    using run by (auto simp: run_request_def bind_eq_Some_conv)
  have state1: "ring_state st1 ms d" by (rule rinit_ring_state [OF m st1 state])
  have cases: "module_ok st1 \<and> (cx_active (g_ctx (ps_lumbre st1)) = 0 \<or>
      g_enabled (ps_lumbre st) \<and> g_enabled (ps_lumbre st1) \<and> request_started st1)"
  proof (cases "g_enabled (ps_lumbre st)")
    case False
    then show ?thesis using st1 m inactive by (simp add: lumbre_rinit_def)
  next
    case True
    with rinit_spec [OF m rq True] st1 inactive show ?thesis by (auto split: if_splits)
  qed
  show ?thesis
  proof (cases "cx_active (g_ctx (ps_lumbre st1)) = 0")
    case True
    note same = untraced_request [OF z True st1 run]
    have "msgs = []" using True st1 by (simp add: msgs_def request_messages_def)
    moreover have "worker_ok st'"
      using cases True same(2) module_ok_same [OF same] by (simp add: worker_ok_def tracer_state_def)
    ultimately show ?thesis using state1 ring_state_same [OF same] by (auto intro!: exI [of _ "[]"])
  next
    case False
    with cases have en: "g_enabled (ps_lumbre st)" "g_enabled (ps_lumbre st1)" and started: "request_started st1"
      by simp_all
    have init: "g_ringbuf_initialized (ps_lumbre st1) \<noteq> 0" using started by (simp add: request_started_def Let_def)
    with state1 have holds: "ring_model (ring_of st1) ms" "rb_dropped (ring_of st1) = d"
      by (simp_all add: ring_state_def)
    obtain out spans t where trace: "trace_activities (env_of st1) calls (tracer_of st1) = (out, spans, t)"
      by (cases "trace_activities (env_of st1) calls (tracer_of st1)")
    have msgs: "msgs = offered (env_of st1) (spans @ [root_final st1 t])"
      using False st1 trace by (simp add: msgs_def request_messages_def)
    from request_spec [OF m rq en(1) z calls st1 en(2) holds(1) trace run] holds(2) init
    show ?thesis
      using run_request_initialized [OF run st1] by (auto simp: msgs worker_ok_def ring_state_def)
  qed
qed

subsection \<open>The worker and its consumer\<close>

text \<open>
  From the state \<open>st0\<close>: requests, changes of the runtime settings and of the time between
  requests, and reads of the consumer whenever the positions say that there is something to read.
  The two lists are what the requests offered to the ring and what the consumer took out of it.
\<close>

inductive worker :: "zend_hooks \<Rightarrow> php_state \<Rightarrow> php_state \<Rightarrow> bytes list \<Rightarrow> bytes list \<Rightarrow> bool"
  for z st0 where
  worker_start: "worker z st0 st0 [] []"
| worker_request: "worker z st0 st sent got \<Longrightarrow> request_ok rq \<Longrightarrow> list_all activity_ok calls \<Longrightarrow>
    run_request z rq calls st = Some st' \<Longrightarrow> worker z st0 st' (sent @ request_messages rq calls st) got"
| worker_idle: "worker z st0 st sent got \<Longrightarrow>
    worker z st0 (set_globals ((ps_lumbre st)\<lparr>g_enabled := b, g_min_duration_ns := n\<rparr>) (st\<lparr>ps_now := now\<rparr>)) sent got"
| worker_consume: "worker z st0 st sent got \<Longrightarrow> g_ringbuf_initialized (ps_lumbre st) \<noteq> 0 \<Longrightarrow>
    rb_read_pos (ring_of st) \<noteq> rb_write_pos (ring_of st) \<Longrightarrow> ringbuf_take (ring_of st) = Some (m, rb) \<Longrightarrow>
    worker z st0 (set_globals ((ps_lumbre st)\<lparr>g_ringbuf := rb\<rparr>) st) sent (got @ [m])"

lemma worker_accounts:
  assumes "worker z st0 st sent got" and "worker_ok st0" and "g_ringbuf_initialized (ps_lumbre st0) = 0"
    and "hooks_installed z"
  shows "worker_ok st \<and> (\<exists>rest. subseq (got @ rest) sent \<and>
    ring_state st rest (of_nat (length sent - length (got @ rest))))"
  using assms
proof (induction rule: worker.induct)
  case worker_start
  then show ?case by (simp add: ring_state_def)
next
  case (worker_request st sent got rq calls st')
  then obtain rest where ok: "worker_ok st" and rest: "subseq (got @ rest) sent"
    "ring_state st rest (of_nat (length sent - length (got @ rest)))"
    by blast
  from request_step [OF ok worker_request.hyps(2) worker_request.prems(3) worker_request.hyps(3,4) rest(2)]
  obtain kept where *: "worker_ok st'" "subseq kept (request_messages rq calls st)"
    "ring_state st' (rest @ kept) (of_nat (length sent - length (got @ rest)) +
       of_nat (length (request_messages rq calls st) - length kept))"
    by blast
  have "length (got @ rest) \<le> length sent" "length kept \<le> length (request_messages rq calls st)"
    using list_emb_length [OF rest(1)] list_emb_length [OF *(2)] .
  then have "length sent - length (got @ rest) + (length (request_messages rq calls st) - length kept) =
      length (sent @ request_messages rq calls st) - length (got @ rest @ kept)"
    by simp
  then have "ring_state st' (rest @ kept)
      (of_nat (length (sent @ request_messages rq calls st) - length (got @ rest @ kept)))"
    using *(3) by (metis of_nat_add)
  moreover have "subseq (got @ rest @ kept) (sent @ request_messages rq calls st)"
    using list_emb_append_mono [OF rest(1) *(2)] by simp
  ultimately show ?case using *(1) by blast
next
  case (worker_idle st sent got n b now)
  let ?st = "set_globals ((ps_lumbre st)\<lparr>g_enabled := b, g_min_duration_ns := n\<rparr>) (st\<lparr>ps_now := now\<rparr>)"
  have "worker_ok ?st \<longleftrightarrow> worker_ok st" by (simp add: worker_ok_def module_ok_def set_globals_def Let_def)
  moreover have "ring_state ?st ms d \<longleftrightarrow> ring_state st ms d" for ms d
    by (simp add: ring_state_def ring_of_def set_globals_def)
  ultimately show ?case using worker_idle by simp
next
  case (worker_consume st sent got m rb)
  then obtain rest where ok: "worker_ok st" and rest: "subseq (got @ rest) sent"
    "ring_state st rest (of_nat (length sent - length (got @ rest)))"
    by blast
  then have "ring_model (ring_of st) rest" using worker_consume.hyps(2) by (simp add: ring_state_def)
  from unread_message_model [OF this worker_consume.hyps(3)] have holds: "ring_holds (ring_of st) rest" .
  obtain m' ms where rest': "rest = m' # ms" using unread_message [OF holds worker_consume.hyps(3)] .
  from ringbuf_take_spec [OF holds [unfolded rest']] worker_consume.hyps(4)
  have take: "m' = m" "ring_holds rb ms" "rb_dropped rb = rb_dropped (ring_of st)" by auto
  let ?st = "set_globals ((ps_lumbre st)\<lparr>g_ringbuf := rb\<rparr>) st"
  have "worker_ok ?st"
    using ok take(2) by (auto simp: worker_ok_def module_ok_def set_globals_def Let_def ring_model_def)
  moreover have "ring_state ?st ms (of_nat (length sent - length ((got @ [m]) @ ms)))"
    using rest(2) take worker_consume.hyps(2)
    by (simp add: ring_state_def ring_of_def set_globals_def ring_model_def rest')
  moreover have "subseq ((got @ [m]) @ ms) sent" using rest(1) take(1) by (simp add: rest')
  ultimately show ?case by blast
qed

end
