(* ===== verification/Lumbre_Scenario.thy ===== *)
theory Lumbre_Scenario
  imports Lumbre_Worker
begin

text \<open>
  A concrete worker to apply the general statements to: a module configured as in the tests, a
  request, and a workload with a traced call, on a fresh 4096-byte ring.
\<close>

definition sample_os_request :: php_request where
  "sample_os_request =
     \<lparr>rq_zts = False, rq_storage = Some (replicate 16384 0), rq_os = sample_os True, rq_pid = 42,
      rq_random = (\<lambda>buf. (True, map (\<lambda>_. 0x5a) buf)),
      rq_server = Zval_array [(c_str ''HTTP_X_LUMBRE_TRACE'', Zval_string (c_str ''1''))],
      rq_sapi_name = Some (c_str ''fpm-fcgi''), rq_path_translated = None,
      rq_request_uri = Some (c_str ''/index.php''), rq_request_method = Some (c_str ''GET'')\<rparr>"

definition sample_globals :: "lumbre_whitelist_t \<Rightarrow> lumbre_globals" where
  "sample_globals wl = zero_globals\<lparr>g_enabled := True, g_shm_dir := Some (c_str ''/tmp''),
     g_buffer_size := 4096, g_trigger_header := Some (c_str ''X-Lumbre-Trace''),
     g_max_query_len := 1024, g_whitelist := wl\<rparr>"

definition sample_module :: php_state where
  "sample_module =
     \<lparr>ps_lumbre = sample_globals (the lumbre_whitelist_init), ps_now = Timespec 10 5,
      ps_worker_counter = 0, ps_calls = [], ps_warnings = 0, ps_output = [], ps_reached = []\<rparr>"

definition sample_hooks :: zend_hooks where
  "sample_hooks = \<lparr>zend_execute_internal = Some Lumbre_execute_internal,
     zend_execute_ex = Some Lumbre_execute_ex, lumbre_original_execute_internal = None,
     lumbre_original_execute_ex = Some Zend_execute_ex\<rparr>"

text \<open>An engine in which another extension has a hook of its own.\<close>

definition other_hooks :: zend_hooks where
  "other_hooks = \<lparr>zend_execute_internal = Some (Other_extension 7), zend_execute_ex = Some Zend_execute_ex,
     lumbre_original_execute_internal = None, lumbre_original_execute_ex = None\<rparr>"

definition curl_frame :: zend_execute_data where
  "curl_frame = \<lparr>ed_func = Some \<lparr>zf_function_name = Some (c_str ''curl_exec''), zf_scope_name = None,
     zf_is_user = False, zf_filename = None\<rparr>, ed_args = [], ed_opline = None\<rparr>"

definition sample_calls :: "activity list" where
  "sample_calls = [Echo (c_str ''a''),
     Call_internal curl_frame [Clock (Timespec 10 905), Echo (c_str ''b'')]]"

lemma sample_hooks_installed: "hooks_installed sample_hooks"
  by (simp add: hooks_installed_def sample_hooks_def)

lemma sample_request_ok: "request_ok sample_os_request"
  by (simp add: request_ok_def sample_os_request_def string_ok_def str_ok_def)

lemma sample_calls_ok: "list_all activity_ok sample_calls"
  by (simp add: sample_calls_def curl_frame_def frame_ok_def string_ok_def str_ok_def
      lumbre_extract_first_str_arg_def)

lemma sample_module_ok:
  "worker_ok sample_module" "g_ringbuf_initialized (ps_lumbre sample_module) = 0"
  "g_enabled (ps_lumbre sample_module)"
proof -
  have "lumbre_whitelist_init = Some (the lumbre_whitelist_init)" using whitelist_table by (metis option.sel)
  then show "worker_ok sample_module" "g_ringbuf_initialized (ps_lumbre sample_module) = 0"
    "g_enabled (ps_lumbre sample_module)"
    by (simp_all add: worker_ok_def module_ok_def sample_module_def sample_globals_def zero_globals_def)
qed

lemma sample_ring_init:
  "\<exists>rb log. lumbre_ringbuf_init (sample_os True) null_ring (c_str ''/tmp'') 42 0 4096 = (0, rb, log)"
  by (simp add: init_defs sample_os_def sample_path)

lemma init_fresh_offset:
  assumes "lumbre_ringbuf_init os rb dir pid wid cap = (0, rb', log)"
  shows "rb_offset rb' = 0"
  using assms by (auto simp: init_defs rb_offset_def split: if_splits)

lemma rinit_enabled:
  assumes "lumbre_rinit rq st = Some st1" and "g_enabled (ps_lumbre st)" and "rinit_ringbuf rq st = Some (True, st0)"
  shows "g_enabled (ps_lumbre st1) = g_enabled (ps_lumbre st0)"
proof -
  obtain ctx where "st1 = rinit_root_span rq (st0\<lparr>ps_lumbre := (ps_lumbre st0)\<lparr>g_ctx := ctx\<rparr>\<rparr>)"
    using assms by (auto simp: lumbre_rinit_def bind_eq_Some_conv Let_def)
  then show ?thesis by (simp add: rinit_root_span_def Let_def split_beta)
qed

text \<open>The request is traced, on a fresh ring.\<close>

lemma sample_rinit:
  obtains st1 where "lumbre_rinit sample_os_request sample_module = Some st1" "g_enabled (ps_lumbre st1)"
    "request_started st1" "ring_model (ring_of st1) []" "rb_offset (ring_of st1) = 0" "module_ok st1"
proof -
  obtain rb log where init: "lumbre_ringbuf_init (sample_os True) null_ring (c_str ''/tmp'') 42 0 4096 = (0, rb, log)"
    using sample_ring_init by blast
  then have ring: "\<exists>st0. rinit_ringbuf sample_os_request sample_module = Some (True, st0) \<and>
      g_enabled (ps_lumbre st0)"
    by (simp add: rinit_ringbuf_def sample_module_def sample_globals_def zero_globals_def
        sample_os_request_def lumbre_worker_id_def Let_def)
  then obtain st0 where st0: "rinit_ringbuf sample_os_request sample_module = Some (True, st0)"
    "g_enabled (ps_lumbre st0)"
    by blast
  have m: "module_ok sample_module" using sample_module_ok(1) by (simp add: worker_ok_def)
  from rinit_spec [OF m sample_request_ok sample_module_ok(3)] obtain st1 where
    st1: "lumbre_rinit sample_os_request sample_module = Some st1"
    "g_enabled (ps_lumbre st1) \<Longrightarrow> request_started st1" "module_ok st1"
    by auto
  have en: "g_enabled (ps_lumbre st1)"
    using rinit_enabled [OF st1(1) sample_module_ok(3) st0(1)] st0(2) by simp
  have started: "request_started st1" by (rule st1(2) [OF en])
  then have init: "g_ringbuf_initialized (ps_lumbre st1) \<noteq> 0" by (simp add: request_started_def Let_def)
  have "ring_state sample_module [] 0" using sample_module_ok(2) by (simp add: ring_state_def)
  from rinit_ring_state [OF m st1(1) this] init have "ring_model (ring_of st1) []" by (simp add: ring_state_def)
  moreover have "rb_offset (ring_of st1) = 0"
  proof -
    obtain ok st where "rinit_ringbuf sample_os_request sample_module = Some (ok, st)" "ring_of st1 = ring_of st"
      "g_ringbuf_initialized (ps_lumbre st) \<noteq> 0"
      using rinit_after_ringbuf [OF st1(1)] init sample_module_ok(2) by metis
    with rinit_ringbuf_fresh sample_module_ok(2) init_fresh_offset show ?thesis by metis
  qed
  ultimately show thesis using that st1(1,3) en started by blast
qed

text \<open>On a ring whose write offset is 0 the next message does not overrun, whatever it is.\<close>

lemma no_overrun_at_0: "rb_offset rb = 0 \<Longrightarrow> \<not> marker_overruns rb p"
  by (auto simp: marker_overruns_def)

lemma one_message_offered:
  assumes "ring_model rb ms" and "rb_offset rb = 0" and "cap < 4294967292" and "length msgs \<le> 1"
  shows "ring_offers cap msgs rb \<noteq> None"
proof
  assume "ring_offers cap msgs rb = None"
  from ring_offers_fault [OF assms(1) this assms(3)] obtain pre m post rb' where
    *: "msgs = pre @ m # post" "ring_offers cap pre rb = Some rb'" "marker_overruns rb' m"
    by blast
  then have "pre = []" using assms(4) by simp
  with * have "marker_overruns rb m" by simp
  with no_overrun_at_0 [OF assms(2)] show False by simp
qed

text \<open>The calls run to their end.\<close>

lemma sample_spans:
  "trace_activities e sample_calls t = (out, spans, t') \<Longrightarrow> length spans \<le> 1"
  by (cases "span_of_internal e curl_frame t")
    (auto simp: sample_calls_def recorded_def split: if_splits)

lemma sample_calls_run:
  assumes z: "hooks_installed z" and "request_started st1" and "ring_model (ring_of st1) []"
    and "rb_offset (ring_of st1) = 0" and "module_ok st1"
  obtains out st2 where "run_activities z sample_calls st1 = Some (out, st2)"
proof -
  define e where "e = env_of st1"
  have ready: "ready e st1" and init: "g_ringbuf_initialized (ps_lumbre st1) \<noteq> 0"
    using assms(2) by (simp_all add: request_started_def e_def Let_def)
  have cap: "te_capacity e < 4294967292"
    using module_mp_ready [OF assms(5) init] by (simp add: e_def env_of_def Let_def)
  obtain out spans t where trace: "trace_activities e sample_calls (tracer_of st1) = (out, spans, t)"
    by (cases "trace_activities e sample_calls (tracer_of st1)")
  have "length (map span_image spans) \<le> 1" using sample_spans [OF trace] by simp
  from one_message_offered [OF assms(3,4) cap this]
    run_follows(2) [OF z sample_calls_ok ready]
  show thesis using that by (auto simp: follows_def trace split: option.splits)
qed

text \<open>A request that makes no call runs to its end: its one message goes to offset 0.\<close>

lemma sample_request_run:
  obtains st where "run_request sample_hooks sample_os_request [Echo (c_str ''a'')] sample_module = Some st"
    "g_ringbuf_initialized (ps_lumbre st) \<noteq> 0"
proof -
  let ?calls = "[Echo (c_str ''a'')]"
  obtain st1 where st1: "lumbre_rinit sample_os_request sample_module = Some st1" "g_enabled (ps_lumbre st1)"
    "ring_model (ring_of st1) []" "request_started st1" "rb_offset (ring_of st1) = 0"
    using sample_rinit .
  have m: "module_ok sample_module" using sample_module_ok(1) by (simp add: worker_ok_def)
  have "list_all activity_ok ?calls" "trace_activities (env_of st1) ?calls (tracer_of st1) = (Returned, [], tracer_of st1)"
    by simp_all
  note fault = request_fault [OF m sample_request_ok sample_module_ok(3) sample_hooks_installed this(1)
      st1(1-3) this(2)]
  have "run_request sample_hooks sample_os_request ?calls sample_module \<noteq> None"
  proof
    assume "run_request sample_hooks sample_os_request ?calls sample_module = None"
    from fault [OF this] have "\<exists>m. marker_overruns (ring_of st1) m"
      by (auto simp: Cons_eq_append_conv)
    with no_overrun_at_0 [OF st1(5)] show False by simp
  qed
  then obtain st where run: "run_request sample_hooks sample_os_request ?calls sample_module = Some st" by auto
  have "g_ringbuf_initialized (ps_lumbre st) \<noteq> 0"
    using run_request_initialized [OF run st1(1)] st1(4) by (simp add: request_started_def Let_def)
  with run show thesis using that by blast
qed

end
