(* ===== verification/Lumbre_Printing.thy ===== *)
theory Lumbre_Printing
  imports Lumbre_Ringbuf_Lifecycle Lumbre_Module
begin

text \<open>
  The names of the ring files and the page of \<^verbatim>\<open>phpinfo\<close>, which print numbers: the decimal notation
  of C can be read back, so two workers never have the same file, and the page shows the size that is
  configured.
\<close>

subsection \<open>Decimal notation\<close>

definition decimal_val :: "bytes \<Rightarrow> nat" where
  "decimal_val ds = foldl (\<lambda>n d. 10 * n + (unat d - 48)) 0 ds"

lemma unat_digit: "k < 10 \<Longrightarrow> unat (48 + of_nat k :: u8) = 48 + k"
  by (simp add: unat_plus unat_of_nat)

lemma decimal_digits: "d \<in> set (c_decimal n) \<Longrightarrow> 48 \<le> unat d \<and> unat d \<le> 57"
proof (induction n rule: c_decimal.induct)
  case (1 n)
  then show ?case
    using unat_digit [of n] unat_digit [of "n mod 10"]
    by (subst (asm) (2) c_decimal.simps) (auto split: if_splits)
qed

lemma decimal_val_c_decimal [simp]: "decimal_val (c_decimal n) = n"
proof (induction n rule: c_decimal.induct)
  case (1 n)
  show ?case
  proof (cases "n < 10")
    case True
    then show ?thesis by (subst c_decimal.simps) (simp add: decimal_val_def unat_digit)
  next
    case False
    then have "decimal_val (c_decimal (n div 10)) = n div 10" by (rule 1)
    with False show ?thesis
      by (subst c_decimal.simps) (simp add: decimal_val_def unat_digit)
  qed
qed

lemma c_decimal_inject: "c_decimal m = c_decimal n \<longleftrightarrow> m = n"
  by (metis decimal_val_c_decimal)

lemma length_c_decimal: "n < 10 ^ k \<Longrightarrow> 0 < k \<Longrightarrow> length (c_decimal n) \<le> k"
proof (induction n arbitrary: k rule: c_decimal.induct)
  case (1 n)
  show ?case
  proof (cases "n < 10")
    case True
    then show ?thesis using 1 by (subst c_decimal.simps) simp
  next
    case False
    define j where "j = k - 1"
    have "k \<noteq> 1" using 1 False by auto
    then have k: "k = Suc j" "0 < j" using "1.prems" by (auto simp: j_def)
    then have "n div 10 < 10 ^ j" using "1.prems" by (simp add: less_mult_imp_div_less)
    from "1.IH" [OF False this k(2)] False show ?thesis
      by (subst c_decimal.simps) (simp add: k)
  qed
qed

subsection \<open>One ring file per worker\<close>

lemma last_split:
  assumes "x \<notin> set as" and "x \<notin> set bs"
  shows "us @ x # as = vs @ x # bs \<longleftrightarrow> us = vs \<and> as = bs"
  using assms by (auto simp: append_eq_append_conv2 append_eq_Cons_conv Cons_eq_append_conv)

lemma ringbuf_path_inject:
  "lumbre_ringbuf_path d p w = lumbre_ringbuf_path d' p' w' \<longleftrightarrow> d = d' \<and> p = p' \<and> w = w'"
proof -
  have no: "(95 :: u8) \<notin> set (c_decimal n)" for n using decimal_digits [of 95 n] by auto
  have path: "lumbre_ringbuf_path d p w =
      ((d @ c_str ''/lumbre'') @ 95 # c_decimal (unat p)) @ 95 # c_decimal (unat w)" for d p w
    by (simp add: lumbre_ringbuf_path_def c_str_def)
  show ?thesis
    unfolding path last_split [OF no no] c_decimal_inject by (auto simp: word_unat_eq_iff)
qed

text \<open>
  C17: Two rings never share a file: two successful initialisations, in whatever directories and with
  whatever sizes, have the same path exactly if they were made for the same directory, process id
  and worker id.
\<close>

theorem ring_files_distinct:
  assumes "lumbre_ringbuf_init os rb d pid wid cap = (0, rb1, log)"
    and "lumbre_ringbuf_init os' rb' d' pid' wid' cap' = (0, rb2, log')"
  shows "rb_path rb1 = rb_path rb2 \<longleftrightarrow> d = d' \<and> pid = pid' \<and> wid = wid'"
proof -
  have "rb_path rb1 = lumbre_ringbuf_path d pid wid" "rb_path rb2 = lumbre_ringbuf_path d' pid' wid'"
    using assms(1,2) by (auto simp: init_defs split: if_splits)
  then show ?thesis by (simp add: ringbuf_path_inject)
qed

theorem ring_files_distinct_witness:
  "\<exists>rb1 rb2 log log'. lumbre_ringbuf_init (sample_os True) null_ring (c_str ''/tmp'') 42 0 16 = (0, rb1, log) \<and>
     lumbre_ringbuf_init (sample_os True) null_ring (c_str ''/tmp'') 4 20 16 = (0, rb2, log') \<and>
     rb_path rb1 \<noteq> rb_path rb2"
proof -
  obtain rb1 log where i: "lumbre_ringbuf_init (sample_os True) null_ring (c_str ''/tmp'') 42 0 16 = (0, rb1, log)"
    using sample_init by blast
  have "length (lumbre_ringbuf_path (c_str ''/tmp'') 4 20) = 16"
    by (simp add: lumbre_ringbuf_path_def c_decimal.simps)
  then obtain rb2 log' where j: "lumbre_ringbuf_init (sample_os True) null_ring (c_str ''/tmp'') 4 20 16 = (0, rb2, log')"
    by (simp add: init_defs sample_os_def)
  from ring_files_distinct [OF i j] i j show ?thesis by auto
qed

text \<open>The identifiers that the threads of a process draw one after the other.\<close>

fun draw_worker_ids :: "bool \<Rightarrow> nat \<Rightarrow> u64 \<Rightarrow> u64 list" where
  "draw_worker_ids zts 0 counter = []"
| "draw_worker_ids zts (Suc n) counter =
     (let (wid, counter) = lumbre_worker_id zts counter in wid # draw_worker_ids zts n counter)"

lemma draw_worker_ids_eq: "draw_worker_ids True n c = map (\<lambda>i. c + of_nat i) [0..<n]"
proof (induction n arbitrary: c)
  case (Suc n)
  have "[0..<Suc n] = 0 # map Suc [0..<n]" by (simp add: upt_conv_Cons map_Suc_upt del: upt_Suc)
  then show ?case
    by (simp add: lumbre_worker_id_def Suc.IH comp_def algebra_simps del: upt_Suc)
qed simp

text \<open>
  The threads of one process have rings of their own: up to 2^64 threads of a ZTS build draw
  distinct identifiers, whatever the counter starts from, and their ring files are distinct; without
  threads the identifier is 0 and the counter is not touched.
\<close>

theorem thread_rings_distinct:
  assumes "n \<le> 18446744073709551616"
  shows "distinct (map (lumbre_ringbuf_path d pid) (draw_worker_ids True n counter)) \<and>
    lumbre_worker_id False counter = (0, counter)"
proof -
  have "inj_on (\<lambda>i. counter + of_nat i :: u64) {0..<n}"
  proof (rule inj_onI)
    fix i j assume "i \<in> {0..<n}" "j \<in> {0..<n}" "counter + of_nat i = counter + of_nat j"
    then have "unat (of_nat i :: u64) = unat (of_nat j :: u64)" "i < 18446744073709551616" "j < 18446744073709551616"
      using assms by simp_all
    then show "i = j" by (simp add: unat_of_nat)
  qed
  then have "distinct (draw_worker_ids True n counter)"
    by (simp add: draw_worker_ids_eq distinct_map)
  then show ?thesis
    by (simp add: distinct_map inj_on_def ringbuf_path_inject lumbre_worker_id_def)
qed

theorem thread_rings_distinct_witness:
  "distinct (map (lumbre_ringbuf_path (c_str ''/dev/shm'') 42) (draw_worker_ids True 3 18446744073709551615))"
  using thread_rings_distinct [of 3] by simp

subsection \<open>The page of \<^verbatim>\<open>phpinfo\<close>\<close>

text \<open>The calls of \<^verbatim>\<open>PHP_MINFO_FUNCTION\<close> to PHP's printing functions, in order.\<close>

datatype info =
    Info_table_start
  | Info_table_header "bytes list"
  | Info_table_row "bytes list"
  | Info_table_end
  | Display_ini_entries

definition PHP_LUMBRE_VERSION :: bytes where
  "PHP_LUMBRE_VERSION = c_str ''0.1.0''"

text \<open>The conversion \<^verbatim>\<open>%ld\<close>.\<close>

definition c_long :: "u64 \<Rightarrow> bytes" where
  "c_long n = (if 0 \<le> sint n then c_decimal (nat (sint n)) else c_str ''-'' @ c_decimal (nat (- sint n)))"

definition lumbre_minfo :: "lumbre_globals \<Rightarrow> info list" where
  "lumbre_minfo g =
     (let (n, buf) = c_snprintf 32 (c_long (g_buffer_size g))
      in [Info_table_start,
          Info_table_header [c_str ''lumbre support'', c_str ''enabled''],
          Info_table_row [c_str ''Version'', PHP_LUMBRE_VERSION],
          Info_table_row [c_str ''Mode'', if g_mode g = 1 then c_str ''full'' else c_str ''io''],
          Info_table_row [c_str ''Buffer size'', buf],
          Info_table_row [c_str ''SHM directory'', case g_shm_dir g of Some d \<Rightarrow> d | None \<Rightarrow> c_str ''(null)''],
          Info_table_end, Display_ini_entries])"

text \<open>A reader of the printed number.\<close>

definition long_val :: "bytes \<Rightarrow> int" where
  "long_val ds = (case ds of d # ds' \<Rightarrow> if d = 45 then - int (decimal_val ds') else int (decimal_val ds) | [] \<Rightarrow> 0)"

lemma c_decimal_nonempty: "c_decimal n \<noteq> []"
  by (subst c_decimal.simps) simp

lemma long_val_c_long [simp]: "long_val (c_long n) = sint n"
proof (cases "0 \<le> sint n")
  case True
  obtain d ds where ds: "c_decimal (nat (sint n)) = d # ds" using c_decimal_nonempty by (cases "c_decimal (nat (sint n))") auto
  then have "d \<noteq> 45" using decimal_digits [of d "nat (sint n)"] by auto
  then have "long_val (c_long n) = int (decimal_val (c_decimal (nat (sint n))))"
    using True ds by (simp add: c_long_def long_val_def)
  with True show ?thesis by simp
next
  case False
  then show ?thesis by (simp add: c_long_def long_val_def c_str_def)
qed

lemma length_c_long: "length (c_long n) \<le> 20"
proof -
  have "- (2 ^ 63) \<le> sint n" "sint n < 2 ^ 63"
    using sint_greater_eq [of n] sint_less [of n] by simp_all
  then have "nat (sint n) < 10 ^ 19" "nat (- sint n) < 10 ^ 19" by simp_all
  from this [THEN length_c_decimal] show ?thesis by (simp add: c_long_def)
qed

text \<open>
  The page of \<^verbatim>\<open>phpinfo\<close> shows the settings as they are, for every state of the globals: the
  32-byte buffer never cuts the number, which reads back as the configured size, sign included, and a
  directory that is not set is shown as such.
\<close>

theorem minfo_shows_settings:
  "\<exists>buf. lumbre_minfo g =
      [Info_table_start, Info_table_header [c_str ''lumbre support'', c_str ''enabled''],
       Info_table_row [c_str ''Version'', PHP_LUMBRE_VERSION],
       Info_table_row [c_str ''Mode'', if g_mode g = 1 then c_str ''full'' else c_str ''io''],
       Info_table_row [c_str ''Buffer size'', buf],
       Info_table_row [c_str ''SHM directory'', case g_shm_dir g of Some d \<Rightarrow> d | None \<Rightarrow> c_str ''(null)''],
       Info_table_end, Display_ini_entries] \<and>
     long_val buf = sint (g_buffer_size g) \<and> length buf < 32"
  using length_c_long [of "g_buffer_size g"]
  by (simp add: lumbre_minfo_def c_snprintf_def le_less_trans)

end
