(* ===== verification/Lumbre_Lifetime.thy ===== *)
theory Lumbre_Lifetime
  imports Lumbre_Scenario Lumbre_Printing
begin

text \<open>
  The module from load to unload: the entry that Zend calls it through, and the operating system's
  resources over its whole life. Only one system resource is ever held, the ring; nothing a request
  does touches it, a failed initialisation gives back what it took, and the shutdown gives back the rest.
  All this is about one set of globals, that of a process without threads: where every thread has its
  own, \<^verbatim>\<open>MSHUTDOWN\<close> reaches those of the thread that runs it only, and no \<^verbatim>\<open>GSHUTDOWN\<close> the others.
\<close>

subsection \<open>The module entry\<close>

text \<open>The fields of Zend's structure that the module fills; those it leaves NULL are left out.\<close>

record zend_module_entry =
  me_name :: bytes
  me_functions :: "bytes list"
  me_module_startup :: "(lumbre_globals \<Rightarrow> lumbre_globals) \<Rightarrow> lumbre_globals \<times> zend_hooks \<Rightarrow> lumbre_globals \<times> zend_hooks"
  me_module_shutdown :: "bytes option \<Rightarrow> php_state \<times> zend_hooks \<Rightarrow> php_state \<times> zend_hooks"
  me_request_startup :: "php_request \<Rightarrow> php_state \<Rightarrow> php_state option"
  me_request_shutdown :: "php_state \<Rightarrow> php_state option"
  me_info :: "lumbre_globals \<Rightarrow> info list"
  me_version :: bytes
  me_globals_ctor :: "lumbre_globals option"

definition lumbre_module_entry :: zend_module_entry where
  "lumbre_module_entry =
     \<lparr>me_name = c_str ''lumbre'', me_functions = [], me_module_startup = lumbre_minit,
      me_module_shutdown = lumbre_mshutdown, me_request_startup = lumbre_rinit,
      me_request_shutdown = lumbre_rshutdown, me_info = lumbre_minfo, me_version = PHP_LUMBRE_VERSION,
      me_globals_ctor = lumbre_ginit\<rparr>"

subsection \<open>What no call changes\<close>

definition ring_handle :: "lumbre_ringbuf_t \<Rightarrow> int \<times> u64 \<times> bytes \<times> bool" where
  "ring_handle rb = (rb_fd rb, rb_mmap_size rb, rb_path rb, rb_header rb = None)"

text \<open>Every result of a fallible function satisfies a predicate: one rule per construct.\<close>

lemma results_if: "pred_option P a \<Longrightarrow> pred_option P b \<Longrightarrow> pred_option P (if c then a else b)"
  by simp

lemma results_bind: "(\<And>x. m = Some x \<Longrightarrow> pred_option P (f x)) \<Longrightarrow> pred_option P (m \<bind> f)"
  by (cases m) simp_all

lemma results_option:
  "(x = None \<Longrightarrow> pred_option P a) \<Longrightarrow> (\<And>y. x = Some y \<Longrightarrow> pred_option P (f y)) \<Longrightarrow>
   pred_option P (case x of None \<Rightarrow> a | Some y \<Rightarrow> f y)"
  by (cases x) simp_all

lemma results_prod: "(\<And>a b. x = (a, b) \<Longrightarrow> pred_option P (f a b)) \<Longrightarrow> pred_option P (case x of (a, b) \<Rightarrow> f a b)"
  by (cases x) simp_all

lemmas results = results_bind results_if results_option results_prod

lemma write_handle:
  assumes "lumbre_ringbuf_write rb p n = Some (rc, rb')"
  shows "ring_handle rb' = ring_handle rb"
proof -
  let ?keeps = "pred_option (\<lambda>(rc, rb'). ring_handle rb' = ring_handle rb)"
  have drop: "rb_header rb = Some h \<Longrightarrow> ?keeps (ringbuf_drop rb h)" for h
    by (simp add: ringbuf_drop_def ring_handle_def)
  have commit: "rb_header rb = Some h \<Longrightarrow> ring_handle rb1 = ring_handle rb \<Longrightarrow>
      ?keeps (ringbuf_commit rb1 h off p n m)" for h rb1 off m
    unfolding ringbuf_commit_def Let_def by (intro results) (simp add: ring_handle_def)
  have "?keeps (lumbre_ringbuf_write rb p n)"
    unfolding lumbre_ringbuf_write_def Let_def
    by (intro results drop commit) (simp_all add: ring_handle_def)
  with assms show ?thesis by simp
qed

lemma take_handle: "ringbuf_take rb = Some (m, rb') \<Longrightarrow> ring_handle rb' = ring_handle rb"
  by (auto simp: ringbuf_take_def ringbuf_publish_read_def ring_handle_def bind_eq_Some_conv)

lemma finish_handle:
  "lumbre_span_finish s rb mp ctx min_ns maxq ts = Some (rc, s', rb', mp', ctx') \<Longrightarrow> ring_handle rb' = ring_handle rb"
  by (auto simp: lumbre_span_finish_def bind_eq_Some_conv Let_def dest: write_handle split: if_splits)

definition resources :: "php_state \<Rightarrow> os_call list \<times> int \<times> int \<times> u64 \<times> bytes \<times> bool" where
  "resources st = (ps_calls st, g_ringbuf_initialized (ps_lumbre st), ring_handle (ring_of st))"

lemma finish_call_resources: "finish_call s st = Some st' \<Longrightarrow> resources st' = resources st"
  by (auto simp: finish_call_def resources_def ring_of_def set_globals_def bind_eq_Some_conv Let_def dest: finish_handle)

interpretation resource: run_kept resources
  by unfold_locales (simp_all add: finish_call_resources, simp_all add: resources_def ring_of_def set_globals_def)

lemma rshutdown_resources: "lumbre_rshutdown st = Some st' \<Longrightarrow> resources st' = resources st"
  by (auto simp: lumbre_rshutdown_def resources_def ring_of_def bind_eq_Some_conv Let_def
      dest: finish_handle split: if_splits)

subsection \<open>What is held\<close>

definition owned :: "php_state \<Rightarrow> os_res \<Rightarrow> os_res" where
  "owned st r =
     (if g_ringbuf_initialized (ps_lumbre st) = 0 then r
      else r\<lparr>res_fds := rb_fd (ring_of st) # res_fds r, res_maps := rb_mmap_size (ring_of st) # res_maps r,
             res_files := insert (rb_path (ring_of st)) (res_files r)\<rparr>)"

text \<open>The files that are opened were not there before.\<close>

definition fresh_paths :: "os_res \<Rightarrow> os_call list \<Rightarrow> bool" where
  "fresh_paths r calls \<longleftrightarrow> (\<forall>p fd. Sys_open p fd \<in> set calls \<longrightarrow> p \<notin> res_files r)"

definition resources_ok :: "os_res \<Rightarrow> php_state \<Rightarrow> bool" where
  "resources_ok r st \<longleftrightarrow> (fresh_paths r (ps_calls st) \<longrightarrow> os_run (ps_calls st) r = owned st r) \<and>
     (g_ringbuf_initialized (ps_lumbre st) \<noteq> 0 \<longrightarrow> rb_header (ring_of st) \<noteq> None \<and>
        (\<exists>fd. Sys_open (rb_path (ring_of st)) fd \<in> set (ps_calls st)))"

lemma resources_ok_same: "resources st' = resources st \<Longrightarrow> resources_ok r st' = resources_ok r st"
  by (simp add: resources_ok_def owned_def resources_def ring_handle_def)

lemma os_run_append: "os_run (xs @ ys) r = os_run ys (os_run xs r)"
  by (simp add: os_run_def)

lemma fresh_paths_append [simp]: "fresh_paths r (xs @ ys) \<longleftrightarrow> fresh_paths r xs \<and> fresh_paths r ys"
  by (auto simp: fresh_paths_def)

lemma init_log:
  assumes "lumbre_ringbuf_init os rb dir pid wid cap = (rc, rb', log)" and "fresh_paths r log"
  shows "rc \<noteq> 0 \<Longrightarrow> os_run log r = r"
    and "rc = 0 \<Longrightarrow> os_run log r = r\<lparr>res_fds := rb_fd rb' # res_fds r, res_maps := rb_mmap_size rb' # res_maps r,
      res_files := insert (rb_path rb') (res_files r)\<rparr>"
  using assms by (auto simp: init_defs os_run_def fresh_paths_def split: if_splits)

lemma init_header: "lumbre_ringbuf_init os rb dir pid wid cap = (0, rb', log) \<Longrightarrow>
  rb_header rb' \<noteq> None \<and> (\<exists>fd. Sys_open (rb_path rb') fd \<in> set log)"
  by (auto simp: init_defs split: if_splits)

lemma rinit_ringbuf_resources:
  assumes ok: "resources_ok r st" and run: "rinit_ringbuf rq st = Some (c, st')"
  shows "resources_ok r st'"
proof (cases "g_ringbuf_initialized (ps_lumbre st) = 0")
  case False
  then have "st' = st" using run by (simp add: rinit_ringbuf_def Let_def)
  then show ?thesis using ok by simp
next
  case True
  obtain wid counter where wid: "lumbre_worker_id (rq_zts rq) (ps_worker_counter st) = (wid, counter)"
    by (cases "lumbre_worker_id (rq_zts rq) (ps_worker_counter st)")
  show ?thesis
  proof (cases "\<not> g_mp_storage (ps_lumbre st) \<and> rq_storage rq = None")
    case no_memory: True
    then have "resources st' = resources st"
      using run True wid by (auto simp: rinit_ringbuf_def resources_def ring_of_def)
    then show ?thesis using ok resources_ok_same by blast
  next
    case memory: False
    obtain dir where dir: "g_shm_dir (ps_lumbre st) = Some dir"
      using run True wid memory by (auto simp: rinit_ringbuf_def Let_def bind_eq_Some_conv split: if_splits)
    obtain rc rb log where init: "lumbre_ringbuf_init (rq_os rq) (g_ringbuf (ps_lumbre st)) dir (rq_pid rq) wid
        (ucast (g_buffer_size (ps_lumbre st))) = (rc, rb, log)"
      by (metis prod_cases3)
    have st': "ps_calls st' = ps_calls st @ log" "ring_of st' = rb"
      "g_ringbuf_initialized (ps_lumbre st') = (if rc = 0 then 1 else 0)"
      using run True wid memory dir init
      by (auto simp: rinit_ringbuf_def ring_of_def Let_def split: if_splits)
    have "os_run (ps_calls st') r = owned st' r" if fresh: "fresh_paths r (ps_calls st')"
    proof -
      have "os_run (ps_calls st) r = r" using ok fresh True by (simp add: st'(1) resources_ok_def owned_def)
      then show ?thesis
        using init_log [OF init] fresh by (cases "rc = 0") (simp_all add: st' os_run_append owned_def)
    qed
    moreover have "rc = 0 \<Longrightarrow> rb_header rb \<noteq> None \<and> (\<exists>fd. Sys_open (rb_path rb) fd \<in> set (ps_calls st @ log))"
      using init_header init by fastforce
    ultimately show ?thesis by (auto simp: resources_ok_def st')
  qed
qed

lemma rinit_resources:
  assumes ok: "resources_ok r st" and run: "lumbre_rinit rq st = Some st'"
  shows "resources_ok r st'"
proof (cases "g_enabled (ps_lumbre st)")
  case False
  then show ?thesis using assms by (simp add: lumbre_rinit_def)
next
  case True
  obtain c st0 where st0: "rinit_ringbuf rq st = Some (c, st0)"
    using run True by (auto simp: lumbre_rinit_def bind_eq_Some_conv)
  have "resources (rinit_root_span rq st) = resources st" for st
    by (simp add: rinit_root_span_def resources_def ring_of_def Let_def split: prod.splits)
  then have "resources st' = resources st0"
    using run True st0 by (auto simp: lumbre_rinit_def bind_eq_Some_conv resources_def ring_of_def Let_def split: if_splits)
  with rinit_ringbuf_resources [OF ok st0] resources_ok_same show ?thesis by blast
qed

lemma request_resources:
  assumes "resources_ok r st" and "run_request z rq calls st = Some st'"
  shows "resources_ok r st'"
proof -
  obtain st1 out st2 where *: "lumbre_rinit rq st = Some st1" "run_activities z calls st1 = Some (out, st2)"
    "lumbre_rshutdown st2 = Some st'"
    using assms(2) by (auto simp: run_request_def bind_eq_Some_conv)
  have "resources st' = resources st1"
    using rshutdown_resources [OF *(3)] resource.run_kept(2) [OF *(2)] by simp
  with rinit_resources [OF assms(1) *(1)] resources_ok_same show ?thesis by blast
qed

lemma worker_resources:
  assumes "worker z st0 st sent got" and "resources_ok r st0"
  shows "resources_ok r st"
  using assms
proof (induction rule: worker.induct)
  case worker_start
  then show ?case .
next
  case (worker_request st sent got rq calls st')
  then show ?case using request_resources by blast
next
  case (worker_idle st sent got n b now)
  let ?st = "set_globals ((ps_lumbre st)\<lparr>g_enabled := b, g_min_duration_ns := n\<rparr>) (st\<lparr>ps_now := now\<rparr>)"
  have "resources ?st = resources st" by (simp add: resources_def ring_of_def set_globals_def)
  then show ?case using worker_idle resources_ok_same by blast
next
  case (worker_consume st sent got m rb)
  have "resources (set_globals ((ps_lumbre st)\<lparr>g_ringbuf := rb\<rparr>) st) = resources st"
    using take_handle [OF worker_consume.hyps(4)] by (simp add: resources_def ring_of_def set_globals_def)
  then show ?case using worker_consume resources_ok_same by blast
qed

lemma mshutdown_resources:
  assumes ok: "resources_ok r st" and down: "lumbre_mshutdown sapi (st, z) = (st', z')"
    and fresh: "fresh_paths r (ps_calls st')"
  shows "os_run (ps_calls st') r =
    (if g_ringbuf_initialized (ps_lumbre st) \<noteq> 0 \<and> sapi = Some (c_str ''cli'')
     then r\<lparr>res_files := insert (rb_path (ring_of st)) (res_files r)\<rparr> else r)"
proof (cases "g_ringbuf_initialized (ps_lumbre st) = 0")
  case True
  then show ?thesis using assms by (auto simp: lumbre_mshutdown_def resources_ok_def owned_def Let_def)
next
  case False
  then obtain h where h: "rb_header (g_ringbuf (ps_lumbre st)) = Some h"
    using ok by (auto simp: resources_ok_def ring_of_def)
  have calls: "ps_calls st' = ps_calls st @ [Sys_munmap (rb_mmap_size (ring_of st)), Sys_close (rb_fd (ring_of st))] @
      (if sapi = Some (c_str ''cli'') then [] else [Sys_unlink (rb_path (ring_of st))])"
    using down False h by (auto simp: lumbre_mshutdown_def lumbre_ringbuf_destroy_def ring_of_def Let_def)
  then have "os_run (ps_calls st) r = owned st r" using ok fresh by (simp add: resources_ok_def)
  moreover have "rb_path (ring_of st) \<notin> res_files r"
    using ok False fresh by (auto simp: calls resources_ok_def fresh_paths_def)
  ultimately show ?thesis using False by (simp add: calls os_run_append owned_def) (simp add: os_run_def)
qed

subsection \<open>The start of the module\<close>

lemma startup_spec:
  assumes "registers_entries P configured ini"
    and "zend_execute_ex z \<noteq> None"
  shows "\<exists>g g' z'. lumbre_ginit = Some g \<and> lumbre_minit ini (g, z) = (g', z') \<and> hooks_installed z' \<and>
    g_buffer_size g' = zend_ini_parse_long P
      (case configured (c_str ''lumbre.buffer_size'') of Some v \<Rightarrow> v | None \<Rightarrow> c_str ''4194304'') \<and>
    g_ringbuf_initialized g' = 0 \<and>
    worker_ok \<lparr>ps_lumbre = g', ps_now = now, ps_worker_counter = wc, ps_calls = [], ps_warnings = 0,
      ps_output = [], ps_reached = []\<rparr>"
proof -
  obtain wl where wl: "lumbre_whitelist_init = Some wl" using whitelist_table by blast
  define g where "g = zero_globals\<lparr>g_whitelist := wl\<rparr>"
  have "lumbre_ginit = Some g" by (simp add: lumbre_ginit_def wl g_def)
  moreover have "hooks_installed (snd (lumbre_minit ini (g, z)))"
    using assms(2) by (simp add: lumbre_minit_def hooks_installed_def Let_def)
  moreover have "fst (lumbre_minit ini (g, z)) = ini g" by (simp add: lumbre_minit_def Let_def)
  moreover have "g_buffer_size (ini g) = zend_ini_parse_long P
      (case configured (c_str ''lumbre.buffer_size'') of Some v \<Rightarrow> v | None \<Rightarrow> c_str ''4194304'')"
    "g_ringbuf_initialized (ini g) = 0"
    "worker_ok \<lparr>ps_lumbre = ini g, ps_now = now, ps_worker_counter = wc, ps_calls = [], ps_warnings = 0,
       ps_output = [], ps_reached = []\<rparr>"
    using registered_fields [OF assms(1), of g] wl
    by (auto simp: g_def worker_ok_def module_ok_def zero_globals_def Let_def)
  ultimately show ?thesis by (metis prod.collapse)
qed

definition sample_parsers :: ini_parsers where
  "sample_parsers = \<lparr>zend_ini_parse_bool = (\<lambda>v. v = c_str ''1''), zend_ini_parse_long = c_strtol\<rparr>"

definition sample_register :: "lumbre_globals \<Rightarrow> lumbre_globals" where
  "sample_register = fold (\<lambda>e g. snd (ini_handle e sample_parsers (configured_value (\<lambda>_. None) e) g))
     lumbre_ini_entries"

text \<open>The first request of a worker meets an empty ring: without calls it runs to its end.\<close>

lemma first_request_runs:
  assumes ok: "worker_ok st" and init: "g_ringbuf_initialized (ps_lumbre st) = 0"
    and z: "hooks_installed z" and rq: "request_ok rq"
  shows "\<exists>st'. run_request z rq [Echo s] st = Some st'"
proof -
  have m: "module_ok st" and inactive: "cx_active (g_ctx (ps_lumbre st)) = 0"
    using ok by (simp_all add: worker_ok_def)
  have quiet: "\<exists>st'. run_request z rq [Echo s] st = Some st'"
    if "lumbre_rinit rq st = Some st1" "cx_active (g_ctx (ps_lumbre st1)) = 0" for st1
    using that by (simp add: run_request_def lumbre_rshutdown_def)
  show ?thesis
  proof (cases "g_enabled (ps_lumbre st)")
    case False
    then show ?thesis using quiet [of st] inactive by (simp add: lumbre_rinit_def)
  next
    case True
    obtain st1 where st1: "lumbre_rinit rq st = Some st1" "module_ok st1"
      "if g_enabled (ps_lumbre st1) then request_started st1 else g_ctx (ps_lumbre st1) = g_ctx (ps_lumbre st)"
      using rinit_spec [OF m rq True] by blast
    show ?thesis
    proof (cases "g_enabled (ps_lumbre st1)")
      case False
      then show ?thesis using quiet [OF st1(1)] st1(3) inactive by simp
    next
      case started: True
      then have init1: "g_ringbuf_initialized (ps_lumbre st1) \<noteq> 0" using st1(3) by (simp add: request_started_def Let_def)
      have "ring_state st [] 0" using init by (simp add: ring_state_def)
      from rinit_ring_state [OF m st1(1) this] init1 have holds: "ring_model (ring_of st1) []"
        by (simp add: ring_state_def)
      obtain c st0 where "rinit_ringbuf rq st = Some (c, st0)" "ring_of st1 = ring_of st0"
        "g_ringbuf_initialized (ps_lumbre st0) \<noteq> 0"
        using rinit_after_ringbuf [OF st1(1)] init init1 by metis
      then have offset: "rb_offset (ring_of st1) = 0" using rinit_ringbuf_fresh init init_fresh_offset by metis
      have trace: "trace_activities (env_of st1) [Echo s] (tracer_of st1) = (Returned, [], tracer_of st1)" by simp
      have calls: "list_all activity_ok [Echo s]" by simp
      show ?thesis
      proof (cases "run_request z rq [Echo s] st")
        case None
        from request_fault [OF m rq True z calls st1(1) started holds trace None]
        have "\<exists>m. marker_overruns (ring_of st1) m" by (auto simp: Cons_eq_append_conv)
        with no_overrun_at_0 [OF offset] show ?thesis by simp
      qed simp
    qed
  qed
qed

subsection \<open>Properties\<close>

text \<open>
  C7: The whole life of the module, from load to unload through its entry: whatever the configuration,
  the requests, the failures of the operating system and the consumer did in between, unloading puts
  both hook pointers back, frees the buffer, and leaves the descriptors, mappings and files of the
  process as they were before loading; only under the CLI the file of the ring, if there was one,
  remains for the daemon to drain. The statement is about a process with one set of globals.
\<close>

theorem module_lifetime:
  assumes "registers_entries P configured ini" and "zend_execute_ex z \<noteq> None"
    and "me_globals_ctor lumbre_module_entry = Some g"
    and "me_module_startup lumbre_module_entry ini (g, z) = (g', z')"
    and "worker z' \<lparr>ps_lumbre = g', ps_now = now, ps_worker_counter = wc, ps_calls = [], ps_warnings = 0,
      ps_output = [], ps_reached = []\<rparr> st sent got"
    and "me_module_shutdown lumbre_module_entry sapi (st, z') = (st', z'')"
    and "fresh_paths r (ps_calls st')"
  shows "zend_execute_internal z'' = zend_execute_internal z \<and> zend_execute_ex z'' = zend_execute_ex z \<and>
    \<not> g_mp_storage (ps_lumbre st') \<and>
    os_run (ps_calls st') r =
      (if g_ringbuf_initialized (ps_lumbre st) \<noteq> 0 \<and> sapi = Some (c_str ''cli'')
       then r\<lparr>res_files := insert (rb_path (ring_of st)) (res_files r)\<rparr> else r)"
proof -
  have m: "lumbre_minit ini (g, z) = (g', z')" and d: "lumbre_mshutdown sapi (st, z') = (st', z'')"
    and ginit: "lumbre_ginit = Some g"
    using assms(3,4,6) by (simp_all add: lumbre_module_entry_def)
  obtain g1 g1' z1' where start: "lumbre_ginit = Some g1" "lumbre_minit ini (g1, z) = (g1', z1')"
    "g_ringbuf_initialized g1' = 0"
    using startup_spec [OF assms(1,2)] by blast
  have "g1 = g" using trans [OF start(1) [symmetric] ginit] by simp
  then have "g_ringbuf_initialized g' = 0" using start(2,3) m by simp
  then have "resources_ok r \<lparr>ps_lumbre = g', ps_now = now, ps_worker_counter = wc, ps_calls = [], ps_warnings = 0,
      ps_output = [], ps_reached = []\<rparr>"
    by (simp add: resources_ok_def owned_def os_run_def)
  note * = mshutdown_resources [OF worker_resources [OF assms(5) this] d assms(7)]
  have "zend_execute_internal z'' = zend_execute_internal z" "zend_execute_ex z'' = zend_execute_ex z"
    "\<not> g_mp_storage (ps_lumbre st')"
    using m d by (auto simp: lumbre_minit_def lumbre_mshutdown_def Let_def split: prod.splits if_splits)
  with * show ?thesis by simp
qed

theorem module_lifetime_witness:
  "\<exists>g g' z' st sent st' z''.
     me_globals_ctor lumbre_module_entry = Some g \<and>
     me_module_startup lumbre_module_entry sample_register
       (g, \<lparr>zend_execute_internal = Some (Other_extension 7), zend_execute_ex = Some Zend_execute_ex,
            lumbre_original_execute_internal = None, lumbre_original_execute_ex = None\<rparr>) = (g', z') \<and>
     run_request z' sample_os_request [Echo (c_str ''a'')]
       \<lparr>ps_lumbre = g', ps_now = Timespec 0 0, ps_worker_counter = 0, ps_calls = [], ps_warnings = 0,
        ps_output = [], ps_reached = []\<rparr> = Some st \<and>
     me_module_shutdown lumbre_module_entry (Some (c_str ''fpm-fcgi'')) (st, z') = (st', z'') \<and>
     zend_execute_internal z'' = Some (Other_extension 7) \<and>
     os_run (ps_calls st') \<lparr>res_fds = [0], res_maps = [], res_files = {}\<rparr> =
       \<lparr>res_fds = [0], res_maps = [], res_files = {}\<rparr>"
proof -
  let ?z = "\<lparr>zend_execute_internal = Some (Other_extension 7), zend_execute_ex = Some Zend_execute_ex,
    lumbre_original_execute_internal = None, lumbre_original_execute_ex = None\<rparr>"
  let ?st = "\<lambda>g. \<lparr>ps_lumbre = g, ps_now = Timespec 0 0, ps_worker_counter = 0, ps_calls = [], ps_warnings = 0,
    ps_output = [], ps_reached = []\<rparr>"
  have reg: "registers_entries sample_parsers (\<lambda>_. None) sample_register"
    by (simp add: registers_entries_def sample_register_def)
  have z: "zend_execute_ex ?z \<noteq> None" by simp
  from startup_spec [OF reg z] obtain g g' z' where
    s: "lumbre_ginit = Some g" "lumbre_minit sample_register (g, ?z) = (g', z')" "hooks_installed z'"
      "g_ringbuf_initialized g' = 0" "worker_ok (?st g')"
    by blast
  have e: "me_globals_ctor lumbre_module_entry = Some g"
    "me_module_startup lumbre_module_entry sample_register (g, ?z) = (g', z')"
    using s by (simp_all add: lumbre_module_entry_def)
  obtain st where run: "run_request z' sample_os_request [Echo (c_str ''a'')] (?st g') = Some st"
    using first_request_runs [OF s(5) _ s(3) sample_request_ok] s(4) by auto
  have "list_all activity_ok [Echo (c_str ''a'')]" by simp
  note w = worker_request [OF worker_start sample_request_ok this run]
  obtain st' z'' where d: "me_module_shutdown lumbre_module_entry (Some (c_str ''fpm-fcgi'')) (st, z') = (st', z'')"
    by (cases "me_module_shutdown lumbre_module_entry (Some (c_str ''fpm-fcgi'')) (st, z')")
  have fresh: "fresh_paths \<lparr>res_fds = [0], res_maps = [], res_files = {}\<rparr> (ps_calls st')"
    by (simp add: fresh_paths_def)
  from module_lifetime [OF reg z e w d fresh] e run d show ?thesis by (auto simp: c_str_def)
qed

end
