(* ===== verification/Lumbre_Independence.thy ===== *)
theory Lumbre_Independence
  imports Lumbre_Scenario
begin

text \<open>
  The ring is an output only: what a request does, up to the ring itself, does not depend on the
  contents of the ring, on how far the consumer has read, or on whether a write was refused. Two
  states are compared up to the ring, every operation is shown to respect that comparison, and so a
  request offers the same messages whatever the consumer does meanwhile. With a ring that refuses
  everything a request always returns.
\<close>

subsection \<open>States that differ in the ring only\<close>

definition with_ring :: "lumbre_ringbuf_t \<Rightarrow> php_state \<Rightarrow> php_state" where
  "with_ring rb st = set_globals ((ps_lumbre st)\<lparr>g_ringbuf := rb\<rparr>) st"

definition ring_eq :: "php_state \<Rightarrow> php_state \<Rightarrow> bool" where
  "ring_eq st st' \<longleftrightarrow> (\<exists>rb. st' = with_ring rb st)"

lemma with_ring_same [simp]:
  "with_ring (g_ringbuf (ps_lumbre st)) st = st"
  "with_ring rb (with_ring rb' st) = with_ring rb st"
  by (simp_all add: with_ring_def set_globals_def)

lemma with_ring_fields [simp]:
  "ring_of (with_ring rb st) = rb" "ps_now (with_ring rb st) = ps_now st"
  "ps_calls (with_ring rb st) = ps_calls st" "ps_output (with_ring rb st) = ps_output st"
  "ps_warnings (with_ring rb st) = ps_warnings st" "ps_reached (with_ring rb st) = ps_reached st"
  "ps_worker_counter (with_ring rb st) = ps_worker_counter st"
  "ps_lumbre (with_ring rb st) = (ps_lumbre st)\<lparr>g_ringbuf := rb\<rparr>"
  by (simp_all add: with_ring_def set_globals_def ring_of_def)

lemma ring_eq_refl [simp, intro]: "ring_eq st st"
  unfolding ring_eq_def by (rule exI [of _ "ring_of st"]) (simp add: ring_of_def)

lemma ring_eq_with [simp, intro]: "ring_eq st (with_ring rb st)"
  by (auto simp: ring_eq_def)

lemma ring_eq_sym: "ring_eq st st' \<Longrightarrow> ring_eq st' st"
  by (auto simp: ring_eq_def) (metis with_ring_same)

lemma ring_eq_trans [trans]: "ring_eq st st' \<Longrightarrow> ring_eq st' st'' \<Longrightarrow> ring_eq st st''"
  by (auto simp: ring_eq_def)

text \<open>Updates of one part of the state, seen through the comparison.\<close>

lemma ring_eq_updates:
  assumes "ring_eq st st'"
  shows "ring_eq (st\<lparr>ps_now := t\<rparr>) (st'\<lparr>ps_now := t\<rparr>)"
    and "ring_eq (st\<lparr>ps_output := ps_output st @ s\<rparr>) (st'\<lparr>ps_output := ps_output st' @ s\<rparr>)"
    and "ring_eq (set_globals ((ps_lumbre st)\<lparr>g_enabled := b\<rparr>) st) (set_globals ((ps_lumbre st')\<lparr>g_enabled := b\<rparr>) st')"
    and "ring_eq (set_globals ((ps_lumbre st)\<lparr>g_min_duration_ns := n\<rparr>) st)
      (set_globals ((ps_lumbre st')\<lparr>g_min_duration_ns := n\<rparr>) st')"
    and "ring_eq (set_globals ((ps_lumbre st)\<lparr>g_ctx := c\<rparr>) st) (set_globals ((ps_lumbre st')\<lparr>g_ctx := c\<rparr>) st')"
    and "ring_eq (st\<lparr>ps_reached := ps_reached st @ r\<rparr>) (st'\<lparr>ps_reached := ps_reached st' @ r\<rparr>)"
proof -
  obtain rb where "st' = with_ring rb st" using assms by (auto simp: ring_eq_def)
  then show "ring_eq (st\<lparr>ps_now := t\<rparr>) (st'\<lparr>ps_now := t\<rparr>)"
    "ring_eq (st\<lparr>ps_output := ps_output st @ s\<rparr>) (st'\<lparr>ps_output := ps_output st' @ s\<rparr>)"
    "ring_eq (set_globals ((ps_lumbre st)\<lparr>g_enabled := b\<rparr>) st) (set_globals ((ps_lumbre st')\<lparr>g_enabled := b\<rparr>) st')"
    "ring_eq (set_globals ((ps_lumbre st)\<lparr>g_min_duration_ns := n\<rparr>) st)
      (set_globals ((ps_lumbre st')\<lparr>g_min_duration_ns := n\<rparr>) st')"
    "ring_eq (set_globals ((ps_lumbre st)\<lparr>g_ctx := c\<rparr>) st) (set_globals ((ps_lumbre st')\<lparr>g_ctx := c\<rparr>) st')"
    "ring_eq (st\<lparr>ps_reached := ps_reached st @ r\<rparr>) (st'\<lparr>ps_reached := ps_reached st' @ r\<rparr>)"
    unfolding ring_eq_def
    by (intro exI [of _ rb], cases st, cases "ps_lumbre st", simp add: with_ring_def set_globals_def)+
qed

subsection \<open>Handlers that are blind to the ring\<close>

definition ring_blind :: "handler \<Rightarrow> bool" where
  "ring_blind h \<longleftrightarrow> (\<forall>st st' out out' r r'. ring_eq st st' \<longrightarrow> h st = Some (out, r) \<longrightarrow>
     h st' = Some (out', r') \<longrightarrow> out' = out \<and> ring_eq r r')"

lemma ring_blindD:
  assumes "ring_blind h" and "ring_eq st st'" and "h st = Some (out, r)" and "h st' = Some (out', r')"
  shows "out' = out" and "ring_eq r r'"
  using assms unfolding ring_blind_def by blast+

lemma dispatch_blind: "ring_blind h \<Longrightarrow> ring_blind (dispatch h f ed)"
  using ring_eq_updates(6) unfolding ring_blind_def dispatch_def by blast

lemma span_finish_blind:
  assumes "lumbre_span_finish s rb mp ctx m q ts = Some (rc, s1, rb1, mp1, ctx1)"
    and "lumbre_span_finish s rb' mp ctx m q ts = Some (rc', s2, rb2, mp2, ctx2)"
  shows "s2 = s1 \<and> mp2 = mp1 \<and> ctx2 = ctx1"
  using assms by (auto simp: lumbre_span_finish_def Let_def bind_eq_Some_conv split: if_splits)

lemma finish_call_blind:
  assumes "ring_eq st st'" and "finish_call s st = Some r" and "finish_call s st' = Some r'"
  shows "ring_eq r r'"
proof -
  obtain rb where st': "st' = with_ring rb st" using assms(1) by (auto simp: ring_eq_def)
  let ?g = "ps_lumbre st"
  obtain rc s1 rb1 mp1 ctx1 where 1: "lumbre_span_finish s (g_ringbuf ?g) (g_mp_buf ?g) (g_ctx ?g)
      (g_min_duration_ns ?g) (ucast (g_max_query_len ?g)) (ps_now st) = Some (rc, s1, rb1, mp1, ctx1)"
    and r: "r = set_globals (?g\<lparr>g_ringbuf := rb1, g_mp_buf := mp1, g_ctx := ctx1\<rparr>) st"
    using assms(2) by (auto simp: finish_call_def Let_def bind_eq_Some_conv)
  obtain rc' s2 rb2 mp2 ctx2 where 2: "lumbre_span_finish s rb (g_mp_buf ?g) (g_ctx ?g)
      (g_min_duration_ns ?g) (ucast (g_max_query_len ?g)) (ps_now st) = Some (rc', s2, rb2, mp2, ctx2)"
    and r': "r' = set_globals (?g\<lparr>g_ringbuf := rb2, g_mp_buf := mp2, g_ctx := ctx2\<rparr>) st"
    using assms(3) by (auto simp: st' finish_call_def Let_def bind_eq_Some_conv with_ring_def set_globals_def)
  have "r' = with_ring rb2 r" using span_finish_blind [OF 1 2] by (simp add: r r' with_ring_def set_globals_def)
  then show ?thesis by simp
qed

lemma call_then_finish_blind:
  assumes "ring_blind h"
  shows "ring_blind (call_then_finish h s)"
  unfolding ring_blind_def
proof (intro allI impI)
  fix st st' out out' r r'
  assume eq: "ring_eq st st'" and "call_then_finish h s st = Some (out, r)"
    "call_then_finish h s st' = Some (out', r')"
  then obtain o1 t1 o2 t2 where 1: "h st = Some (o1, t1)" "h st' = Some (o2, t2)"
    "(case o1 of Bailed_out \<Rightarrow> Some (Bailed_out, t1)
      | Returned \<Rightarrow> do { st \<leftarrow> finish_call s t1; Some (Returned, st) }) = Some (out, r)"
    "(case o2 of Bailed_out \<Rightarrow> Some (Bailed_out, t2)
      | Returned \<Rightarrow> do { st \<leftarrow> finish_call s t2; Some (Returned, st) }) = Some (out', r')"
    by (auto simp: call_then_finish_def bind_eq_Some_conv)
  note same = ring_blindD [OF assms eq 1(1,2)]
  show "out' = out \<and> ring_eq r r'"
    using 1(3,4) same finish_call_blind [OF same(2)] by (cases o1) (auto simp: bind_eq_Some_conv)
qed

text \<open>
  Which way a hook goes, and with which span, is decided without the ring: for all states that differ
  in it, the hook faults, or calls through, or does so between a start and the finish of one span.
\<close>

definition decided :: "(php_state \<Rightarrow> (outcome \<times> php_state) option) \<Rightarrow> handler \<Rightarrow> php_state \<Rightarrow> bool" where
  "decided h' h st \<longleftrightarrow>
     (\<forall>rb. h' (with_ring rb st) = None) \<or> (\<forall>rb. h' (with_ring rb st) = h (with_ring rb st)) \<or>
     (\<exists>s ctx. \<forall>rb. h' (with_ring rb st) =
        call_then_finish h s (set_globals ((ps_lumbre (with_ring rb st))\<lparr>g_ctx := ctx\<rparr>) (with_ring rb st)))"

lemma decided_blind:
  assumes "ring_blind h" and "\<And>st. decided h' h st"
  shows "ring_blind h'"
  unfolding ring_blind_def
proof (intro allI impI)
  fix st st' out out' r r'
  assume eq: "ring_eq st st'" and runs: "h' st = Some (out, r)" "h' st' = Some (out', r')"
  obtain rb where st': "st' = with_ring rb st" using eq by (auto simp: ring_eq_def)
  have st: "with_ring (ring_of st) st = st" by (simp add: ring_of_def)
  from assms(2) [of st, unfolded decided_def]
  consider "h' st = None" | "h' st = h st" "h' st' = h st'"
    | s ctx where "h' st = call_then_finish h s (set_globals ((ps_lumbre st)\<lparr>g_ctx := ctx\<rparr>) st)"
      "h' st' = call_then_finish h s (set_globals ((ps_lumbre st')\<lparr>g_ctx := ctx\<rparr>) st')"
    unfolding st' by (metis st)
  then show "out' = out \<and> ring_eq r r'"
  proof cases
    case 2
    then have "h st = Some (out, r)" "h st' = Some (out', r')" using runs by simp_all
    then show ?thesis using ring_blindD [OF assms(1) eq] by blast
  next
    case 3
    with runs have "call_then_finish h s (set_globals ((ps_lumbre st)\<lparr>g_ctx := ctx\<rparr>) st) = Some (out, r)"
      "call_then_finish h s (set_globals ((ps_lumbre st')\<lparr>g_ctx := ctx\<rparr>) st') = Some (out', r')"
      by simp_all
    then show ?thesis
      using ring_blindD [OF call_then_finish_blind [OF assms(1)] ring_eq_updates(5) [OF eq]] by blast
  qed (use runs in simp)
qed

lemma decidedI:
  "(\<And>rb. h' (with_ring rb st) = None) \<Longrightarrow> decided h' h st"
  "(\<And>rb. h' (with_ring rb st) = h (with_ring rb st)) \<Longrightarrow> decided h' h st"
  "(\<And>rb. h' (with_ring rb st) = call_then_finish h s
     (set_globals ((ps_lumbre (with_ring rb st))\<lparr>g_ctx := ctx\<rparr>) (with_ring rb st))) \<Longrightarrow> decided h' h st"
  by (auto simp only: decided_def)

lemmas internal_hook = through_internal_def lumbre_execute_internal_def lumbre_extract_names_def Let_def
lemmas user_hook = through_ex_def lumbre_execute_ex_def Let_def

lemma through_internal_decided:
  "decided (through_internal z ed h) (dispatch h (target_internal z) ed) st"
proof (cases "zend_execute_internal z = Some Lumbre_execute_internal")
  case False
  then show ?thesis
    by (intro decidedI(2)) (auto simp: through_internal_def target_internal_def split: option.splits)
next
  case True
  let ?g = "ps_lumbre st"
  note orig = call_original_dispatch(1) [OF True, of h ed]
  show ?thesis
  proof (cases "g_enabled ?g \<and> cx_active (g_ctx ?g) \<noteq> 0")
    case False
    with True orig show ?thesis by (intro decidedI(2)) (auto simp: internal_hook)
  next
    case active: True
    note hook = True active orig
    show ?thesis
    proof (cases "ed_func ed")
      case None
      with hook show ?thesis by (intro decidedI(1)) (simp add: internal_hook)
    next
      case (Some f)
      let ?m = "lumbre_whitelist_match (g_whitelist ?g) (zf_scope_name f) (zstr_len (zf_scope_name f))
        (zf_function_name f) (zstr_len (zf_function_name f))"
      consider "zf_function_name f = None \<or> ?m = Some None" | "zf_function_name f \<noteq> None" "?m = None"
        | entry where "zf_function_name f \<noteq> None" "?m = Some (Some entry)"
        by (cases "zf_function_name f"; cases ?m; cases "the ?m") auto
      then show ?thesis
      proof cases
        case 1
        with hook Some show ?thesis by (intro decidedI(2)) (auto simp: internal_hook)
      next
        case 2
        with hook Some show ?thesis by (intro decidedI(1)) (auto simp: internal_hook)
      next
        case 3
        obtain span ctx where "lumbre_span_start (we_span_type entry) (g_ctx ?g) (ps_now st) = (span, ctx)"
          by fastforce
        with hook Some 3 show ?thesis by (intro decidedI(3)) (auto simp: internal_hook)
      qed
    qed
  qed
qed

lemma through_ex_decided:
  "decided (through_ex z ed h) (dispatch h (the (target_ex z)) ed) st"
proof (cases "zend_execute_ex z = Some Lumbre_execute_ex")
  case False
  then show ?thesis
    by (cases "zend_execute_ex z")
      (auto simp: through_ex_def target_ex_def intro: decidedI(1,2) split: zend_fn.split)
next
  case hooked: True
  note orig = call_original_dispatch(2) [OF hooked, of h ed]
  show ?thesis
  proof (cases "target_ex z")
    case None
    with hooked orig show ?thesis
      by (intro decidedI(1)) (simp add: user_hook call_then_finish_def split_beta split: option.split)
  next
    case (Some x)
    let ?g = "ps_lumbre st"
    note hook = hooked Some orig
    show ?thesis
    proof (cases "g_enabled ?g \<and> cx_active (g_ctx ?g) \<noteq> 0 \<and> (g_mode ?g = 1 \<or> cx_full_trace (g_ctx ?g) \<noteq> 0) \<and>
        (case ed_func ed of Some f \<Rightarrow> zf_function_name f \<noteq> None | None \<Rightarrow> False)")
      case False
      with hook show ?thesis by (intro decidedI(2)) (auto simp: user_hook split: option.splits)
    next
      case True
      then obtain f func where f: "ed_func ed = Some f" "zf_function_name f = Some func"
        by (auto split: option.splits)
      obtain span ctx where "lumbre_span_start LUMBRE_SPAN_FUNC (g_ctx ?g) (ps_now st) = (span, ctx)"
        by fastforce
      moreover obtain name name_len line where "user_location ed f = (name, name_len, line)"
        by (metis prod_cases3)
      ultimately show ?thesis using True f hook by (cases name; intro decidedI(3); auto simp: user_hook)
    qed
  qed
qed

text \<open>A tree of calls.\<close>

lemma activities_blind:
  assumes "\<And>a. a \<in> set as \<Longrightarrow> ring_blind (run_activity z a)"
  shows "ring_blind (run_activities z as)"
  using assms
proof (induction as)
  case Nil
  then show ?case by (simp add: ring_blind_def)
next
  case (Cons a as)
  then have a: "ring_blind (run_activity z a)" and as: "ring_blind (run_activities z as)" by simp_all
  show ?case
    unfolding ring_blind_def
  proof (intro allI impI)
    fix st st' out out' r r'
    assume eq: "ring_eq st st'" and "run_activities z (a # as) st = Some (out, r)"
      "run_activities z (a # as) st' = Some (out', r')"
    obtain o1 t1 where 1: "run_activity z a st = Some (o1, t1)"
      "(case o1 of Bailed_out \<Rightarrow> Some (Bailed_out, t1) | Returned \<Rightarrow> run_activities z as t1) = Some (out, r)"
      using \<open>run_activities z (a # as) st = Some (out, r)\<close> by (auto simp: bind_eq_Some_conv)
    obtain o2 t2 where 2: "run_activity z a st' = Some (o2, t2)"
      "(case o2 of Bailed_out \<Rightarrow> Some (Bailed_out, t2) | Returned \<Rightarrow> run_activities z as t2) = Some (out', r')"
      using \<open>run_activities z (a # as) st' = Some (out', r')\<close> by (auto simp: bind_eq_Some_conv)
    note same = ring_blindD [OF a eq 1(1) 2(1)]
    show "out' = out \<and> ring_eq r r'"
    proof (cases o1)
      case Returned
      with 1(2) 2(2) same(1) have "run_activities z as t1 = Some (out, r)" "run_activities z as t2 = Some (out', r')"
        by simp_all
      then show ?thesis using ring_blindD [OF as same(2)] by blast
    qed (use 1(2) 2(2) same in simp)
  qed
qed

lemma ring_blind_plain:
  assumes "\<And>st. h st = Some (out, f st)" and "\<And>st st'. ring_eq st st' \<Longrightarrow> ring_eq (f st) (f st')"
  shows "ring_blind h"
  unfolding ring_blind_def using assms by simp

lemma activity_blind: "ring_blind (run_activity z a)"
proof (induction a)
  case (Call_internal ed body)
  then have "ring_blind (run_activities z body)" by (rule activities_blind)
  from decided_blind [OF dispatch_blind [OF this] through_internal_decided]
  show ?case by (simp only: ring_blind_def run_activity.simps)
next
  case (Call_user ed body)
  then have "ring_blind (run_activities z body)" by (rule activities_blind)
  from decided_blind [OF dispatch_blind [OF this] through_ex_decided]
  show ?case by (simp only: ring_blind_def run_activity.simps)
qed (rule ring_blind_plain, rule run_activity.simps, (erule ring_eq_updates | assumption))+

lemma run_blind: "ring_blind (run_activities z as)"
  by (intro activities_blind activity_blind)

subsection \<open>Requests\<close>

lemma ringbuf_init_blind:
  obtains rc rb1 rb2 log where "lumbre_ringbuf_init os rb dir pid wid cap = (rc, rb1, log)"
    "lumbre_ringbuf_init os rb' dir pid wid cap = (rc, rb2, log)"
proof -
  obtain rc rb1 log where 1: "lumbre_ringbuf_init os rb dir pid wid cap = (rc, rb1, log)"
    by (metis prod_cases3)
  obtain rc' rb2 log' where 2: "lumbre_ringbuf_init os rb' dir pid wid cap = (rc', rb2, log')"
    by (metis prod_cases3)
  have "rc' = rc \<and> log' = log" using 1 2 by (auto simp: init_defs split: if_splits)
  with 1 2 show thesis using that by simp
qed

lemma rinit_ringbuf_blind:
  assumes "ring_eq st st'" and run: "rinit_ringbuf rq st = Some (ok, r)"
  shows "\<exists>r'. rinit_ringbuf rq st' = Some (ok, r') \<and> ring_eq r r'"
proof -
  obtain rb where st': "st' = with_ring rb st" using assms(1) by (auto simp: ring_eq_def)
  let ?g = "ps_lumbre st"
  obtain wid counter where wid: "lumbre_worker_id (rq_zts rq) (ps_worker_counter st) = (wid, counter)"
    by (cases "lumbre_worker_id (rq_zts rq) (ps_worker_counter st)")
  show ?thesis
  proof (cases "g_ringbuf_initialized ?g \<noteq> 0 \<or> \<not> g_mp_storage ?g \<and> rq_storage rq = None")
    case True
    then have "rinit_ringbuf rq st' = Some (ok, with_ring rb r)"
      using run wid
      by (cases st, cases ?g) (auto simp: st' rinit_ringbuf_def Let_def with_ring_def set_globals_def)
    then show ?thesis by auto
  next
    case False
    then obtain dir where dir: "g_shm_dir ?g = Some dir"
      using run wid by (auto simp: rinit_ringbuf_def Let_def bind_eq_Some_conv)
    obtain rc rb1 rb2 log where
      "lumbre_ringbuf_init (rq_os rq) (g_ringbuf ?g) dir (rq_pid rq) wid (ucast (g_buffer_size ?g)) = (rc, rb1, log)"
      "lumbre_ringbuf_init (rq_os rq) rb dir (rq_pid rq) wid (ucast (g_buffer_size ?g)) = (rc, rb2, log)"
      by (rule ringbuf_init_blind)
    with False dir run wid have "rinit_ringbuf rq st' = Some (ok, with_ring rb2 r)"
      by (cases st, cases ?g)
        (auto simp: st' rinit_ringbuf_def Let_def with_ring_def set_globals_def split: if_splits)
    then show ?thesis by auto
  qed
qed

lemma root_span_blind:
  assumes "ring_eq st st'"
  shows "ring_eq (rinit_root_span rq (st\<lparr>ps_lumbre := (ps_lumbre st)\<lparr>g_ctx := c\<rparr>\<rparr>))
    (rinit_root_span rq (st'\<lparr>ps_lumbre := (ps_lumbre st')\<lparr>g_ctx := c\<rparr>\<rparr>))"
proof -
  obtain rb where "st' = with_ring rb st" using assms by (auto simp: ring_eq_def)
  then show ?thesis
    unfolding ring_eq_def
    by (intro exI [of _ rb], cases st, cases "ps_lumbre st")
      (simp add: rinit_root_span_def with_ring_def set_globals_def Let_def split_beta)
qed

lemma rinit_blind:
  assumes eq: "ring_eq st st'" and run: "lumbre_rinit rq st = Some r"
  shows "\<exists>r'. lumbre_rinit rq st' = Some r' \<and> ring_eq r r'"
proof (cases "g_enabled (ps_lumbre st)")
  case False
  then show ?thesis using assms by (auto simp: lumbre_rinit_def ring_eq_def)
next
  case True
  then have True': "g_enabled (ps_lumbre st')" using eq by (auto simp: ring_eq_def)
  obtain ok st1 where 1: "rinit_ringbuf rq st = Some (ok, st1)"
    using run True by (auto simp: lumbre_rinit_def bind_eq_Some_conv)
  obtain st1' where 2: "rinit_ringbuf rq st' = Some (ok, st1')" and eq1: "ring_eq st1 st1'"
    using rinit_ringbuf_blind [OF eq 1] by blast
  then have "g_ctx (ps_lumbre st1') = g_ctx (ps_lumbre st1)"
    "g_trigger_header (ps_lumbre st1') = g_trigger_header (ps_lumbre st1)"
    by (auto simp: ring_eq_def)
  note fields = this
  show ?thesis
  proof (cases ok)
    case False
    then show ?thesis using run True True' 1 2 eq1 by (simp add: lumbre_rinit_def)
  next
    case ok: True
    obtain tid full where t: "rinit_trace_id (rq_server rq) = Some tid"
      "rinit_trigger (g_trigger_header (ps_lumbre st1)) (rq_server rq) = Some full"
      using run True 1 ok by (auto simp: lumbre_rinit_def bind_eq_Some_conv Let_def)
    define ctx where "ctx = lumbre_context_init (g_ctx (ps_lumbre st1)) tid (Some (lumbre_php_random_bytes (rq_random rq)))"
    define c where "c = (if full then ctx\<lparr>cx_full_trace := 1\<rparr> else ctx)"
    have "r = rinit_root_span rq (st1\<lparr>ps_lumbre := (ps_lumbre st1)\<lparr>g_ctx := c\<rparr>\<rparr>)"
      "lumbre_rinit rq st' = Some (rinit_root_span rq (st1'\<lparr>ps_lumbre := (ps_lumbre st1')\<lparr>g_ctx := c\<rparr>\<rparr>))"
      using run True True' 1 2 fields ok t
      by (cases full; simp add: lumbre_rinit_def Let_def c_def ctx_def)+
    then show ?thesis using root_span_blind [OF eq1] by blast
  qed
qed

lemma rshutdown_blind:
  assumes eq: "ring_eq st st'" and "lumbre_rshutdown st = Some r" and "lumbre_rshutdown st' = Some r'"
  shows "ring_eq r r'"
proof (cases "cx_active (g_ctx (ps_lumbre st)) = 0")
  case True
  then show ?thesis using assms by (auto simp: lumbre_rshutdown_def ring_eq_def)
next
  case False
  obtain rb where st': "st' = with_ring rb st" using eq by (auto simp: ring_eq_def)
  let ?g = "ps_lumbre st"
  obtain rc s1 rb1 mp1 ctx1 where 1: "lumbre_span_finish (g_root_span ?g) (g_ringbuf ?g) (g_mp_buf ?g) (g_ctx ?g)
      0 (ucast (g_max_query_len ?g)) (ps_now st) = Some (rc, s1, rb1, mp1, ctx1)"
    and r: "r = st\<lparr>ps_lumbre := ?g\<lparr>g_root_span := s1, g_ringbuf := rb1, g_mp_buf := mp1,
      g_ctx := lumbre_context_reset ctx1\<rparr>\<rparr>"
    using assms(2) False by (auto simp: lumbre_rshutdown_def Let_def bind_eq_Some_conv)
  obtain rc' s2 rb2 mp2 ctx2 where 2: "lumbre_span_finish (g_root_span ?g) rb (g_mp_buf ?g) (g_ctx ?g)
      0 (ucast (g_max_query_len ?g)) (ps_now st) = Some (rc', s2, rb2, mp2, ctx2)"
    and r': "r' = (with_ring rb st)\<lparr>ps_lumbre := ?g\<lparr>g_ringbuf := rb2, g_root_span := s2, g_mp_buf := mp2,
      g_ctx := lumbre_context_reset ctx2\<rparr>\<rparr>"
    using assms(3) False by (cases ?g) (auto simp: st' lumbre_rshutdown_def Let_def bind_eq_Some_conv)
  have "r' = with_ring rb2 r"
    using span_finish_blind [OF 1 2] by (cases ?g) (simp add: r r' with_ring_def set_globals_def)
  then show ?thesis by simp
qed

lemma run_request_blind:
  assumes eq: "ring_eq st st'" and 1: "run_request z rq calls st = Some r" and 2: "run_request z rq calls st' = Some r'"
  shows "ring_eq r r'"
proof -
  obtain st1 out st2 where a: "lumbre_rinit rq st = Some st1" "run_activities z calls st1 = Some (out, st2)"
    "lumbre_rshutdown st2 = Some r"
    using 1 by (auto simp: run_request_def bind_eq_Some_conv)
  obtain st1' where b: "lumbre_rinit rq st' = Some st1'" "ring_eq st1 st1'" using rinit_blind [OF eq a(1)] by blast
  obtain out' st2' where c: "run_activities z calls st1' = Some (out', st2')" "lumbre_rshutdown st2' = Some r'"
    using 2 b(1) by (auto simp: run_request_def bind_eq_Some_conv)
  show ?thesis
    using rshutdown_blind [OF _ a(3) c(2)] ring_blindD(2) [OF run_blind b(2) a(2) c(1)] by blast
qed

text \<open>What a request offers to the ring is decided before the first write to it.\<close>

lemma request_messages_blind:
  assumes "ring_eq st st'"
  shows "request_messages rq calls st' = request_messages rq calls st"
proof (cases "lumbre_rinit rq st")
  case None
  then have "lumbre_rinit rq st' = None"
    using rinit_blind [OF ring_eq_sym [OF assms]] by (metis not_None_eq)
  with None show ?thesis by (simp add: request_messages_def)
next
  case (Some st1)
  obtain st1' where 1: "lumbre_rinit rq st' = Some st1'" "ring_eq st1 st1'" using rinit_blind [OF assms Some] by blast
  then have "env_of st1' = env_of st1" "tracer_of st1' = tracer_of st1"
    "cx_active (g_ctx (ps_lumbre st1')) = cx_active (g_ctx (ps_lumbre st1))"
    "g_root_span (ps_lumbre st1') = g_root_span (ps_lumbre st1)"
    by (auto simp: ring_eq_def env_of_def tracer_of_def Let_def)
  with Some 1(1) show ?thesis by (simp add: request_messages_def root_final_def)
qed

subsection \<open>A ring that refuses everything\<close>

definition dead_ring :: lumbre_ringbuf_t where
  "dead_ring = null_ring\<lparr>rb_header := Some (fresh_header 0 0 0)\<rparr>"

lemma dead_ring_dead: "ring_dead dead_ring"
  by (simp add: dead_ring_def null_ring_def fresh_header_def ring_dead_def rb_read_pos_def rb_write_pos_def)

lemma ring_offers_dead:
  assumes "ring_dead rb" and "cap < 4294967292"
  shows "\<exists>rb'. ring_offers cap msgs rb = Some rb' \<and> ring_dead rb'"
  using assms(1)
proof (induction msgs arbitrary: rb)
  case (Cons m msgs)
  show ?case
  proof (cases "cap < length m")
    case False
    then have "record_fits m" using assms(2) by (simp add: record_fits_def)
    with ring_dead_refuses(1) [OF Cons.prems] Cons.IH False show ?thesis by fastforce
  qed (use Cons in simp)
qed simp

text \<open>A request comes to its end when the ring takes or refuses all that it offers.\<close>

lemma request_returns:
  assumes ok: "worker_ok st" and rq: "request_ok rq" and z: "hooks_installed z"
    and calls: "list_all activity_ok calls" and init: "g_ringbuf_initialized (ps_lumbre st) \<noteq> 0"
    and offers: "\<And>st1 out spans t. trace_activities (env_of st1) calls (tracer_of st1) = (out, spans, t) \<Longrightarrow>
      ring_offers 16384 (map span_image (spans @ [root_final st1 t])) (ring_of st) \<noteq> None"
  shows "\<exists>st'. run_request z rq calls st = Some st'"
proof (rule ccontr)
  assume "\<nexists>st'. run_request z rq calls st = Some st'"
  then have fault: "run_request z rq calls st = None" by (cases "run_request z rq calls st") auto
  have m: "module_ok st" and inactive: "cx_active (g_ctx (ps_lumbre st)) = 0"
    using ok by (simp_all add: worker_ok_def)
  show False
  proof (cases "g_enabled (ps_lumbre st)")
    case False
    then have rinit: "lumbre_rinit rq st = Some st" by (simp add: lumbre_rinit_def)
    obtain out st2 where "run_activities z calls st = Some (out, st2)" "tracer_state st2 = tracer_state st"
      using inactive_run(2) [OF z inactive] by blast
    then show False
      using fault rinit inactive by (simp add: run_request_def lumbre_rshutdown_def tracer_state_def Let_def)
  next
    case True
    obtain st1 where st1: "lumbre_rinit rq st = Some st1" using rinit_spec [OF m rq True] by blast
    note same = rinit_initialized [OF st1 init]
    obtain out spans t where trace: "trace_activities (env_of st1) calls (tracer_of st1) = (out, spans, t)"
      by (metis prod_cases3)
    from request_fault_offers [OF m rq True z calls st1 _ trace fault] same True offers [OF trace]
    show False by simp
  qed
qed

lemma request_returns_dead:
  assumes "worker_ok st" and "request_ok rq" and "hooks_installed z" and "list_all activity_ok calls"
    and "g_ringbuf_initialized (ps_lumbre st) \<noteq> 0" and "ring_dead (ring_of st)"
  shows "\<exists>st'. run_request z rq calls st = Some st'"
proof (rule request_returns [OF assms(1-5)])
  show "ring_offers 16384 msgs (ring_of st) \<noteq> None" for msgs
    using ring_offers_dead [OF assms(6), of 16384 msgs] by auto
qed

lemma worker_ok_dead:
  assumes "worker_ok st"
  shows "worker_ok (with_ring dead_ring st)"
  using assms dead_ring_dead
  by (auto simp: worker_ok_def module_ok_def ring_model_def Let_def)

subsection \<open>What a request writes\<close>

text \<open>Messages put into a ring one after the other.\<close>

fun ring_puts :: "bytes list \<Rightarrow> lumbre_ringbuf_t \<Rightarrow> lumbre_ringbuf_t option" where
  "ring_puts [] rb = Some rb"
| "ring_puts (m # ms) rb = do { (rc, rb) \<leftarrow> ring_put rb m; ring_puts ms rb }"

lemma ring_offers_puts: "ring_offers cap ms rb = ring_puts (filter (\<lambda>m. length m \<le> cap) ms) rb"
  by (induction cap ms rb rule: ring_offers.induct) (auto split: bind_split)

lemma ring_puts_dead:
  assumes "ring_dead rb" and "\<forall>m \<in> set ms. length m \<le> 16384"
  shows "\<exists>rb'. ring_puts ms rb = Some rb' \<and> ring_dead rb'"
  using ring_offers_dead [OF assms(1), of 16384 ms] assms(2) by (simp add: ring_offers_puts)

text \<open>
  The request writes the messages \<open>msgs\<close>: on every ring it has exactly the effect of the calls of
  \<^verbatim>\<open>lumbre_ringbuf_write\<close> for them, faulting if one of these does, and apart from the ring it ends in
  the state \<open>st'\<close>. Messages fit into the buffer they are serialised in.
\<close>

definition request_writes ::
  "zend_hooks \<Rightarrow> php_request \<Rightarrow> activity list \<Rightarrow> php_state \<Rightarrow> bytes list \<Rightarrow> php_state \<Rightarrow> bool" where
  "request_writes z rq calls st msgs st' \<longleftrightarrow> (\<forall>m \<in> set msgs. length m \<le> 16384) \<and>
     (\<forall>rb. run_request z rq calls (with_ring rb st) = map_option (\<lambda>rb'. with_ring rb' st') (ring_puts msgs rb))"

lemma request_writesD:
  "request_writes z rq calls st msgs st' \<Longrightarrow>
    run_request z rq calls (with_ring rb st) = map_option (\<lambda>rb'. with_ring rb' st') (ring_puts msgs rb)"
  by (simp add: request_writes_def)

lemma started_blind:
  assumes "ring_eq st st'"
  shows "request_started st' \<longleftrightarrow> request_started st" and "env_of st' = env_of st" and "tracer_of st' = tracer_of st"
    and "root_final st' t = root_final st t"
  using assms
  by (auto simp: ring_eq_def request_started_def ready_def root_ok_def root_final_def env_of_def tracer_of_def Let_def)

text \<open>An untraced request leaves the ring alone; a traced one writes its messages.\<close>

lemma untraced_ring:
  assumes z: "hooks_installed z" and rinit: "lumbre_rinit rq st = Some st1"
    and inactive: "cx_active (g_ctx (ps_lumbre st1)) = 0"
  shows "\<exists>st'. run_request z rq calls st = Some st' \<and> ring_of st' = ring_of st1"
proof -
  obtain out st2 where st2: "run_activities z calls st1 = Some (out, st2)" "tracer_state st2 = tracer_state st1"
    using inactive_run(2) [OF z inactive] by blast
  then have "run_request z rq calls st = Some st2"
    using rinit inactive by (simp add: run_request_def lumbre_rshutdown_def tracer_state_def Let_def)
  with st2(2) show ?thesis by (simp add: tracer_state_def ring_of_def)
qed

lemma request_ring:
  assumes ok: "worker_ok st" and rq: "request_ok rq" and z: "hooks_installed z"
    and calls: "list_all activity_ok calls" and init: "g_ringbuf_initialized (ps_lumbre st) \<noteq> 0"
  shows "case ring_puts (request_messages rq calls st) rb of
      None \<Rightarrow> run_request z rq calls (with_ring rb st) = None
    | Some rb' \<Rightarrow> \<exists>st'. run_request z rq calls (with_ring rb st) = Some st' \<and> ring_of st' = rb'"
proof -
  have m: "module_ok st" and inactive: "cx_active (g_ctx (ps_lumbre st)) = 0"
    using ok by (simp_all add: worker_ok_def)
  obtain st1 where rinit: "lumbre_rinit rq st = Some st1"
    using rinit_spec [OF m rq] by (cases "g_enabled (ps_lumbre st)") (auto simp: lumbre_rinit_def)
  obtain st1' where rinit': "lumbre_rinit rq (with_ring rb st) = Some st1'" and eq: "ring_eq st1 st1'"
    using rinit_blind [OF ring_eq_with rinit] by blast
  have ring: "ring_of st1' = rb" using rinit_initialized(2) [OF rinit'] init by simp
  show ?thesis
  proof (cases "cx_active (g_ctx (ps_lumbre st1)) = 0")
    case True
    moreover have "cx_active (g_ctx (ps_lumbre st1')) = 0" using True eq by (auto simp: ring_eq_def)
    ultimately show ?thesis
      using untraced_ring [OF z rinit'] rinit ring by (simp add: request_messages_def)
  next
    case False
    then have en: "g_enabled (ps_lumbre st)" using rinit inactive by (auto simp: lumbre_rinit_def split: if_splits)
    then have en1: "g_enabled (ps_lumbre st1)" using rinit_initialized(1) [OF rinit init] by simp
    then have "request_started st1" using rinit_spec [OF m rq en] rinit by auto
    then have started: "request_started st1'" using started_blind(1) [OF eq] by simp
    obtain out spans t where trace: "trace_activities (env_of st1) calls (tracer_of st1) = (out, spans, t)"
      by (metis prod_cases3)
    note cap = started_capacity [OF m rq en rinit en1]
    have "ring_offers 16384 (map span_image (spans @ [root_final st1 t])) rb =
        ring_puts (request_messages rq calls st) rb"
      using False rinit trace cap by (simp add: ring_offers_puts request_messages_def offered_def)
    with started_request [OF z calls rinit' started, unfolded started_blind [OF eq] ring cap, OF trace]
    show ?thesis by (auto split: option.splits)
  qed
qed

lemma messages_bounded:
  assumes ok: "worker_ok st" and rq: "request_ok rq" and init: "g_ringbuf_initialized (ps_lumbre st) \<noteq> 0"
    and msg: "m \<in> set (request_messages rq calls st)"
  shows "length m \<le> 16384"
proof -
  obtain st1 where rinit: "lumbre_rinit rq st = Some st1"
    using msg by (cases "lumbre_rinit rq st") (auto simp: request_messages_def)
  obtain out spans t where "trace_activities (env_of st1) calls (tracer_of st1) = (out, spans, t)"
    by (metis prod_cases3)
  then have st1: "cx_active (g_ctx (ps_lumbre st1)) \<noteq> 0"
    and spans: "m \<in> set (offered (env_of st1) (spans @ [root_final st1 t]))"
    using msg rinit by (auto simp: request_messages_def split: if_splits)
  have en: "g_enabled (ps_lumbre st)"
    using rinit st1 ok by (auto simp: worker_ok_def lumbre_rinit_def split: if_splits)
  then have "te_capacity (env_of st1) = 16384"
    using started_capacity [OF _ rq en rinit] rinit_initialized(1) [OF rinit init] ok by (simp add: worker_ok_def)
  then show ?thesis using spans unfolding offered_def set_filter by simp
qed

lemma request_writes_messages:
  assumes ok: "worker_ok st" and rq: "request_ok rq" and z: "hooks_installed z"
    and calls: "list_all activity_ok calls" and init: "g_ringbuf_initialized (ps_lumbre st) \<noteq> 0"
  shows "\<exists>st'. request_writes z rq calls st (request_messages rq calls st) st'"
proof -
  note ring = request_ring [OF ok rq z calls init]
  note bounded = messages_bounded [OF ok rq init]
  obtain rb' where "ring_puts (request_messages rq calls st) dead_ring = Some rb'"
    using ring_puts_dead [OF dead_ring_dead, of "request_messages rq calls st"] bounded by blast
  then obtain st' where dead: "run_request z rq calls (with_ring dead_ring st) = Some st'"
    using ring [of dead_ring] by auto
  have "run_request z rq calls (with_ring rb st) =
      map_option (\<lambda>rb'. with_ring rb' st') (ring_puts (request_messages rq calls st) rb)" for rb
  proof (cases "ring_puts (request_messages rq calls st) rb")
    case (Some rb')
    then obtain r where r: "run_request z rq calls (with_ring rb st) = Some r" "ring_of r = rb'"
      using ring [of rb] by auto
    have "ring_eq (with_ring dead_ring st) (with_ring rb st)"
      using ring_eq_trans [OF ring_eq_sym [OF ring_eq_with] ring_eq_with] .
    from run_request_blind [OF this dead r(1)] r(2) have "r = with_ring rb' st'" by (auto simp: ring_eq_def)
    with Some r(1) show ?thesis by simp
  qed (use ring [of rb] in simp)
  then show ?thesis using bounded by (auto simp: request_writes_def)
qed

subsection \<open>Property\<close>

text \<open>
  C4: The ring has no influence on the program or on the tracer: run from two states that differ in
  the ring alone, in its size, its contents, the consumer's position or in how many messages were
  refused, a request ends in states that again differ in the ring alone, having offered the same
  messages; so nothing a consumer does or fails to do changes what PHP does or what is recorded.
\<close>

theorem ring_has_no_influence:
  assumes "run_request z rq calls st = Some st1" and "run_request z rq calls (with_ring rb st) = Some st2"
  shows "(\<exists>rb'. st2 = with_ring rb' st1) \<and>
    request_messages rq calls (with_ring rb st) = request_messages rq calls st"
  using run_request_blind [OF ring_eq_with assms] request_messages_blind [OF ring_eq_with]
  by (auto simp: ring_eq_def)

text \<open>
  The second request of the sample worker, once on an empty ring and once on one that refuses its message.
\<close>

theorem ring_has_no_influence_witness:
  "\<exists>st st1 rb'. run_request sample_hooks sample_os_request [Echo (c_str ''a'')] st = Some st1 \<and>
     run_request sample_hooks sample_os_request [Echo (c_str ''a'')] (with_ring dead_ring st) =
       Some (with_ring rb' st1) \<and> ring_holds (ring_of st) [] \<and> ring_dead dead_ring"
proof -
  let ?calls = "[Echo (c_str ''a'')]"
  obtain st0 where run: "run_request sample_hooks sample_os_request ?calls sample_module = Some st0"
    "g_ringbuf_initialized (ps_lumbre st0) \<noteq> 0"
    using sample_request_run .
  have ok0: "worker_ok st0"
    using request_step [OF sample_module_ok(1) sample_request_ok sample_hooks_installed _ run(1), of "[]" 0]
      sample_module_ok(2) by (simp add: ring_state_def)
  let ?st = "with_ring sample_ring st0" and ?dead = "with_ring dead_ring st0"
  have holds: "ring_model sample_ring []" using sample_ring_holds by (simp add: ring_model_def)
  have oks: "worker_ok ?st" "worker_ok ?dead"
    using ok0 holds dead_ring_dead by (auto simp: worker_ok_def module_ok_def ring_model_def Let_def)
  have init: "g_ringbuf_initialized (ps_lumbre ?st) \<noteq> 0" "g_ringbuf_initialized (ps_lumbre ?dead) \<noteq> 0"
    using run(2) by simp_all
  have calls: "list_all activity_ok ?calls" by simp
  have "\<exists>st1. run_request sample_hooks sample_os_request ?calls ?st = Some st1"
  proof (rule request_returns [OF oks(1) sample_request_ok sample_hooks_installed calls init(1)])
    fix st1 out spans t
    assume "trace_activities (env_of st1) ?calls (tracer_of st1) = (out, spans, t)"
    then have "length (map span_image (spans @ [root_final st1 t])) \<le> 1" by auto
    moreover have "rb_offset sample_ring = 0" by (simp add: sample_ring_def rb_offset_def)
    ultimately have "ring_offers 16384 (map span_image (spans @ [root_final st1 t])) sample_ring \<noteq> None"
      by (intro one_message_offered [OF holds]) simp_all
    then show "ring_offers 16384 (map span_image (spans @ [root_final st1 t])) (ring_of ?st) \<noteq> None"
      unfolding with_ring_fields .
  qed
  moreover have "\<exists>st2. run_request sample_hooks sample_os_request ?calls ?dead = Some st2"
    using dead_ring_dead
    by (intro request_returns_dead [OF oks(2) sample_request_ok sample_hooks_installed calls init(2)]) simp
  ultimately obtain st1 st2 where "run_request sample_hooks sample_os_request ?calls ?st = Some st1"
    "run_request sample_hooks sample_os_request ?calls (with_ring dead_ring ?st) = Some st2"
    by auto
  with ring_has_no_influence [OF this] show ?thesis using sample_ring_holds dead_ring_dead
    by (intro exI [of _ ?st] exI [of _ st1]) auto
qed

end
