(* ===== verification/Lumbre_Concurrent.thy ===== *)
theory Lumbre_Concurrent
  imports Lumbre_Fifo
begin

text \<open>
  The ring with its two processes running at the same time. The write of \<^verbatim>\<open>lumbre_ringbuf.c\<close> is cut
  into its accesses to shared memory (the load of \<^verbatim>\<open>read_pos\<close>, every single byte of its memcpys, the
  release store of \<^verbatim>\<open>write_pos\<close>), the read loop of the consumer into its own (the acquire load of
  \<^verbatim>\<open>write_pos\<close>, the loads of the length, of the length after a padding marker and of the payload,
  the release store of \<^verbatim>\<open>read_pos\<close>), and the steps of both are interleaved in any order. Memory is
  sequentially consistent. The producer's step machine run alone is the write of \<^verbatim>\<open>Lumbre_Ringbuf\<close>.
\<close>

subsection \<open>The producer's steps\<close>

text \<open>Byte stores that are still to be made, first one first.\<close>

type_synonym stores = "(nat \<times> u8) list"

definition store_bytes :: "nat \<Rightarrow> bytes \<Rightarrow> stores" where
  "store_bytes off bs = zip [off ..< off + length bs] bs"

fun apply_stores :: "stores \<Rightarrow> bytes \<Rightarrow> bytes option" where
  "apply_stores [] d = Some d"
| "apply_stores ((i, b) # ss) d = do { d \<leftarrow> mem_store d i [b]; apply_stores ss d }"

datatype producer =
    P_idle
  | P_check bytes u64
  | P_store bytes stores u64

datatype event = Silent | Accepted bytes | Refused bytes | Received bytes

text \<open>The space checks and the stores they lead to, with the read position as it was loaded.\<close>

definition producer_plan :: "lumbre_ringbuf_t \<Rightarrow> bytes \<Rightarrow> u64 \<Rightarrow> (stores \<times> u64) option" where
  "producer_plan rb payload read_pos =
     (let payload_len = of_nat (length payload) :: u32;
          needed = 4 + payload_len;
          pos = rb_local_write_pos rb
      in if ucast (rb_capacity rb) < (pos - read_pos) + ucast needed then None
      else
        let offset = ucast (pos AND ucast (rb_mask rb)) :: u32
        in if rb_capacity rb < offset + needed then
          let pad_bytes = rb_capacity rb - offset
          in if ucast (rb_capacity rb) < (pos - read_pos) + ucast pad_bytes + ucast needed then None
          else Some (store_bytes (unat offset) (le32 LUMBRE_RINGBUF_PADDING_MARKER) @
                     store_bytes 0 (le32 payload_len) @ store_bytes 4 payload,
                     pos + ucast pad_bytes + ucast needed)
        else Some (store_bytes (unat offset) (le32 payload_len) @ store_bytes (unat (offset + 4)) payload,
                   pos + ucast needed))"

definition count_drop :: "lumbre_ringbuf_t \<Rightarrow> lumbre_ringbuf_t option" where
  "count_drop rb = do {
     h \<leftarrow> rb_header rb;
     Some (rb\<lparr>rb_header := Some (h\<lparr>hdr_dropped := hdr_dropped h + 1\<rparr>)\<rparr>) }"

definition publish_write :: "lumbre_ringbuf_t \<Rightarrow> u64 \<Rightarrow> lumbre_ringbuf_t option" where
  "publish_write rb pos = do {
     h \<leftarrow> rb_header rb;
     Some (rb\<lparr>rb_local_write_pos := pos, rb_header := Some (h\<lparr>hdr_write_pos := pos\<rparr>)\<rparr>) }"

text \<open>One step; an idle producer is called with the payload \<open>p\<close>.\<close>

fun producer_step ::
  "bytes \<Rightarrow> lumbre_ringbuf_t \<Rightarrow> producer \<Rightarrow> (event \<times> lumbre_ringbuf_t \<times> producer) option" where
  "producer_step p rb P_idle =
     (if rb_capacity rb - 4 < of_nat (length p)
      then do { rb \<leftarrow> count_drop rb; Some (Refused p, rb, P_idle) }
      else do { h \<leftarrow> rb_header rb; Some (Silent, rb, P_check p (hdr_read_pos h)) })"
| "producer_step p rb (P_check q read_pos) =
     (case producer_plan rb q read_pos of
        None \<Rightarrow> do { rb \<leftarrow> count_drop rb; Some (Refused q, rb, P_idle) }
      | Some (ss, pos) \<Rightarrow> Some (Silent, rb, P_store q ss pos))"
| "producer_step p rb (P_store q ((i, b) # ss) pos) = do {
     d \<leftarrow> mem_store (rb_data rb) i [b];
     Some (Silent, rb\<lparr>rb_data := d\<rparr>, P_store q ss pos) }"
| "producer_step p rb (P_store q [] pos) = do {
     rb \<leftarrow> publish_write rb pos;
     Some (Accepted q, rb, P_idle) }"

subsection \<open>The consumer's steps\<close>

datatype consumer =
    C_poll u64
  | C_head u64
  | C_wrapped u64
  | C_body u64 u32 u32
  | C_publish bytes u64

fun consumer_step ::
  "lumbre_ringbuf_t \<Rightarrow> consumer \<Rightarrow> (event \<times> lumbre_ringbuf_t \<times> consumer) option" where
  "consumer_step rb (C_poll pos) = do {
     h \<leftarrow> rb_header rb;
     Some (Silent, rb, if hdr_write_pos h = pos then C_poll pos else C_head pos) }"
| "consumer_step rb (C_head pos) =
     (let offset = ucast (pos AND ucast (rb_mask rb)) :: u32
      in do {
        b \<leftarrow> mem_load (rb_data rb) (unat offset) 4;
        let len = (le_val b :: u32);
        Some (Silent, rb,
          if len = LUMBRE_RINGBUF_PADDING_MARKER then C_wrapped (pos + ucast (rb_capacity rb - offset))
          else C_body pos offset len) })"
| "consumer_step rb (C_wrapped pos) = do {
     b \<leftarrow> mem_load (rb_data rb) 0 4;
     Some (Silent, rb, C_body pos 0 (le_val b)) }"
| "consumer_step rb (C_body pos offset len) = do {
     payload \<leftarrow> mem_load (rb_data rb) (unat (offset + 4)) (unat len);
     Some (Silent, rb, C_publish payload (pos + ucast (4 + len))) }"
| "consumer_step rb (C_publish m pos) = do {
     rb \<leftarrow> ringbuf_publish_read rb pos;
     Some (Received m, rb, C_poll pos) }"

subsection \<open>The producer alone\<close>

text \<open>Running the producer with fuel; the outer option is the fuel, the inner one a fault.\<close>

fun run_producer :: "nat \<Rightarrow> bytes \<Rightarrow> lumbre_ringbuf_t \<Rightarrow> producer \<Rightarrow> (int \<times> lumbre_ringbuf_t) option option" where
  "run_producer 0 p rb pc = None"
| "run_producer (Suc n) p rb pc =
     (case producer_step p rb pc of
        None \<Rightarrow> Some None
      | Some (Accepted _, rb, _) \<Rightarrow> Some (Some (0, rb))
      | Some (Refused _, rb, _) \<Rightarrow> Some (Some (-1, rb))
      | Some (_, rb, pc) \<Rightarrow> run_producer n p rb pc)"

lemma mem_store_byte: "mem_store d i [b] = (if i < length d then Some (d[i := b]) else None)"
  by (auto simp: mem_store_def overwrite_def upd_conv_take_nth_drop)

lemma store_bytes_Cons: "store_bytes off (b # bs) = (off, b) # store_bytes (Suc off) bs"
  by (simp add: store_bytes_def upt_conv_Cons del: upt_Suc)

lemma store_bytes_Nil [simp]: "store_bytes off [] = []"
  by (simp add: store_bytes_def)

lemma length_store_bytes [simp]: "length (store_bytes off bs) = length bs"
  by (simp add: store_bytes_def)

lemma store_bytes_index: "(i, b) \<in> set (store_bytes off bs) \<Longrightarrow> off \<le> i \<and> i < off + length bs"
  by (auto simp: store_bytes_def dest: set_zip_leftD)

lemma apply_stores_append:
  "apply_stores (xs @ ys) d = do { d \<leftarrow> apply_stores xs d; apply_stores ys d }"
  by (induction xs d rule: apply_stores.induct) (auto split: bind_split)

lemma apply_store_bytes:
  "apply_stores (store_bytes off bs) d = (if bs = [] then Some d else mem_store d off bs)"
proof (induction bs arbitrary: off d)
  case Nil
  then show ?case by simp
next
  case (Cons b bs)
  show ?case
  proof (cases "off + length (b # bs) \<le> length d")
    case True
    then have "overwrite (overwrite d off [b]) (off + 1) bs = overwrite d off ([b] @ bs)"
      using overwrite_append [of off "[b]" bs d] by simp
    with True show ?thesis by (auto simp: store_bytes_Cons Cons.IH mem_store_def)
  next
    case False
    then show ?thesis by (auto simp: store_bytes_Cons Cons.IH mem_store_def)
  qed
qed

text \<open>The write is its guard, the plan for the current read position, the stores and the publication.\<close>

lemma write_as_plan:
  assumes h: "rb_header rb = Some h" and len: "length p < 4294967296"
  shows "lumbre_ringbuf_write rb p (of_nat (length p)) =
    (if rb_capacity rb - 4 < of_nat (length p) then ringbuf_drop rb h
     else case producer_plan rb p (hdr_read_pos h) of
       None \<Rightarrow> ringbuf_drop rb h
     | Some (ss, pos) \<Rightarrow> do {
         d \<leftarrow> apply_stores ss (rb_data rb);
         rb \<leftarrow> publish_write (rb\<lparr>rb_data := d\<rparr>) pos;
         Some (0, rb) })"
proof -
  have n: "unat (of_nat (length p) :: u32) = length p" using len by (simp add: unat_of_nat)
  then have "(of_nat (length p) :: u32) = 0 \<longleftrightarrow> p = []"
    by (metis length_0_conv unat_eq_zero)
  then have pos: "0 < (of_nat (length p) :: u32) \<longleftrightarrow> p \<noteq> []" by (simp add: word_greater_zero_iff)
  have load: "mem_load p 0 (length p) = Some p" by (simp add: mem_load_def)
  have le: "le32 w \<noteq> []" for w by (simp add: le32_def)
  show ?thesis
    by (auto simp: lumbre_ringbuf_write_def h producer_plan_def Let_def ringbuf_commit_def apply_stores_append
        apply_store_bytes le publish_write_def n pos load split: bind_split)
qed

lemma run_stores:
  "length ss < n \<Longrightarrow> run_producer n p rb (P_store q ss pos) =
     Some (do { d \<leftarrow> apply_stores ss (rb_data rb);
                rb \<leftarrow> publish_write (rb\<lparr>rb_data := d\<rparr>) pos;
                Some (0, rb) })"
proof (induction ss arbitrary: n rb)
  case Nil
  then obtain k where "n = Suc k" by (cases n) auto
  then show ?case by (cases "publish_write rb pos") simp_all
next
  case (Cons s ss)
  obtain i b where s: "s = (i, b)" by (cases s)
  obtain k where "n = Suc k" "length ss < k" using Cons.prems by (cases n) auto
  with Cons.IH show ?case by (cases "mem_store (rb_data rb) i [b]") (simp_all add: s)
qed

lemma plan_length:
  "producer_plan rb p r = Some (ss, pos) \<Longrightarrow> length ss \<le> 8 + length p"
  by (auto simp: producer_plan_def Let_def split: if_splits)

lemma run_producer_write:
  assumes h: "rb_header rb = Some h" and len: "length p < 4294967296" and fuel: "length p + 11 \<le> n"
  shows "run_producer n p rb P_idle = Some (lumbre_ringbuf_write rb p (of_nat (length p)))"
proof -
  define k where "k = n - 2"
  have n: "n = Suc (Suc k)" and k: "length p + 9 \<le> k" using fuel by (simp_all add: k_def)
  have drop: "count_drop rb = map_option snd (ringbuf_drop rb h)" by (simp add: count_drop_def ringbuf_drop_def h)
  show ?thesis
  proof (cases "rb_capacity rb - 4 < of_nat (length p)")
    case True
    then show ?thesis by (simp add: write_as_plan [OF h len] n drop ringbuf_drop_def)
  next
    case guard: False
    show ?thesis
    proof (cases "producer_plan rb p (hdr_read_pos h)")
      case None
      then show ?thesis using guard by (simp add: write_as_plan [OF h len] n h drop ringbuf_drop_def)
    next
      case (Some x)
      then obtain ss pos where x: "producer_plan rb p (hdr_read_pos h) = Some (ss, pos)" by (cases x) auto
      then have "length ss < k" using plan_length [OF x] k by simp
      from run_stores [OF this] show ?thesis
        using guard x by (simp add: write_as_plan [OF h len] n h)
    qed
  qed
qed

subsection \<open>The consumer alone\<close>

fun run_consumer :: "nat \<Rightarrow> lumbre_ringbuf_t \<Rightarrow> consumer \<Rightarrow> (bytes \<times> lumbre_ringbuf_t) option option" where
  "run_consumer 0 rb pc = None"
| "run_consumer (Suc n) rb pc =
     (case consumer_step rb pc of
        None \<Rightarrow> Some None
      | Some (Received m, rb, _) \<Rightarrow> Some (Some (m, rb))
      | Some (_, rb, pc) \<Rightarrow> run_consumer n rb pc)"

text \<open>With something to read, five steps are the loop of the sequential consumer.\<close>

lemma run_consumer_take:
  assumes "rb_read_pos rb \<noteq> rb_write_pos rb"
  shows "run_consumer (Suc (Suc (Suc (Suc (Suc n))))) rb (C_poll (rb_read_pos rb)) = Some (ringbuf_take rb)"
proof -
  obtain h where h: "rb_header rb = Some h"
    using assms by (cases "rb_header rb") (simp_all add: rb_read_pos_def rb_write_pos_def)
  with assms have "hdr_write_pos h \<noteq> hdr_read_pos h" by (simp add: rb_read_pos_def rb_write_pos_def)
  then show ?thesis
    by (auto simp: h rb_read_pos_def ringbuf_take_def ringbuf_read_one_def ringbuf_publish_read_def
        Let_def split: option.split bind_split)
qed

subsection \<open>Both processes at once\<close>

record spsc =
  sp_ring :: lumbre_ringbuf_t
  sp_producer :: producer
  sp_consumer :: consumer

text \<open>
  The runs of the system from a state, with what has been accepted and refused by the producer
  and received by the consumer so far. At every moment either side may move.
\<close>

inductive spsc_run :: "spsc \<Rightarrow> spsc \<Rightarrow> bytes list \<Rightarrow> nat \<Rightarrow> bytes list \<Rightarrow> bool"
  for s0 where
  spsc_start: "spsc_run s0 s0 [] 0 []"
| spsc_producer: "spsc_run s0 s acc refused got \<Longrightarrow> length p < 4294967296 \<Longrightarrow>
    producer_step p (sp_ring s) (sp_producer s) = Some (ev, rb, pc) \<Longrightarrow>
    spsc_run s0 (s\<lparr>sp_ring := rb, sp_producer := pc\<rparr>)
      (case ev of Accepted q \<Rightarrow> acc @ [q] | _ \<Rightarrow> acc)
      (case ev of Refused q \<Rightarrow> Suc refused | _ \<Rightarrow> refused) got"
| spsc_consumer: "spsc_run s0 s acc refused got \<Longrightarrow>
    consumer_step (sp_ring s) (sp_consumer s) = Some (ev, rb, pc) \<Longrightarrow>
    spsc_run s0 (s\<lparr>sp_ring := rb, sp_consumer := pc\<rparr>) acc refused
      (case ev of Received q \<Rightarrow> got @ [q] | _ \<Rightarrow> got)"

text \<open>The place of the byte \<open>j\<close> after the read position, and the bytes that hold no unread message.\<close>

definition ring_byte :: "lumbre_ringbuf_t \<Rightarrow> nat \<Rightarrow> nat" where
  "ring_byte rb j = (unat (rb_read_pos rb) mod rb_size rb + j) mod rb_size rb"

definition free_byte :: "lumbre_ringbuf_t \<Rightarrow> nat \<Rightarrow> bool" where
  "free_byte rb i \<longleftrightarrow> (\<exists>j. rb_used rb \<le> j \<and> j < rb_size rb \<and> i = ring_byte rb j)"

text \<open>
  What the producer relies on: its loaded read position may be old, but not older than a lap; the
  bytes it still has to store are free; and once they are stored, publishing appends its message.
\<close>

fun producer_ok :: "lumbre_ringbuf_t \<Rightarrow> bytes list \<Rightarrow> producer \<Rightarrow> bool" where
  "producer_ok rb ms P_idle \<longleftrightarrow> True"
| "producer_ok rb ms (P_check p read_pos) \<longleftrightarrow>
     4 + length p \<le> rb_size rb \<and> rb_used rb \<le> unat (rb_local_write_pos rb - read_pos) \<and>
     unat (rb_local_write_pos rb - read_pos) \<le> rb_size rb"
| "producer_ok rb ms (P_store p ss pos) \<longleftrightarrow>
     (\<forall>(i, b) \<in> set ss. i < rb_size rb \<longrightarrow> free_byte rb i) \<and>
     (\<forall>d. apply_stores ss (rb_data rb) = Some d \<longrightarrow>
       (\<exists>rb'. publish_write (rb\<lparr>rb_data := d\<rparr>) pos = Some rb' \<and> ring_holds rb' (ms @ [p])))"

text \<open>What the consumer knows of the first message at each of its steps.\<close>

definition head_offset :: "lumbre_ringbuf_t \<Rightarrow> nat" where
  "head_offset rb = unat (rb_read_pos rb) mod rb_size rb"

definition head_wraps :: "lumbre_ringbuf_t \<Rightarrow> bytes \<Rightarrow> bool" where
  "head_wraps rb m \<longleftrightarrow> rb_size rb < head_offset rb + (4 + length m)"

fun consumer_ok :: "lumbre_ringbuf_t \<Rightarrow> bytes list \<Rightarrow> consumer \<Rightarrow> bool" where
  "consumer_ok rb ms (C_poll pos) \<longleftrightarrow> pos = rb_read_pos rb"
| "consumer_ok rb ms (C_head pos) \<longleftrightarrow> pos = rb_read_pos rb \<and> ms \<noteq> []"
| "consumer_ok rb ms (C_wrapped pos) \<longleftrightarrow>
     ms \<noteq> [] \<and> head_wraps rb (hd ms) \<and> pos = rb_read_pos rb + of_nat (rb_size rb - head_offset rb)"
| "consumer_ok rb ms (C_body pos offset len) \<longleftrightarrow>
     ms \<noteq> [] \<and> len = of_nat (length (hd ms)) \<and>
     (if head_wraps rb (hd ms)
      then offset = 0 \<and> pos = rb_read_pos rb + of_nat (rb_size rb - head_offset rb)
      else unat offset = head_offset rb \<and> pos = rb_read_pos rb)"
| "consumer_ok rb ms (C_publish m pos) \<longleftrightarrow>
     ms \<noteq> [] \<and> m = hd ms \<and>
     pos = rb_read_pos rb + of_nat (ring_cost (rb_size rb) (head_offset rb) (4 + length m))"

subsection \<open>The consumer reads the first message whatever the producer does\<close>

lemma head_loads:
  assumes "ring_holds rb (m # ms)"
  shows "4 + length m \<le> 2147483648"
    and "mem_load (rb_data rb) (head_offset rb) 4 =
      Some (if head_wraps rb m then le32 LUMBRE_RINGBUF_PADDING_MARKER else le32 (of_nat (length m)))"
    and "head_wraps rb m \<Longrightarrow> mem_load (rb_data rb) 0 4 = Some (le32 (of_nat (length m)))"
    and "mem_load (rb_data rb) (if head_wraps rb m then 4 else head_offset rb + 4) (length m) = Some m"
proof -
  have wf: "rb_wf rb"
    and seg: "ring_seg (rb_size rb) (rb_data rb) (head_offset rb) (m # ms) (rb_used rb)"
    using assms by (simp_all only: ring_holds_def head_offset_def)
  have size: "rb_size rb \<le> 2147483648" using rb_size_bounds [OF wf] by simp
  let ?loads = "4 + length m \<le> 2147483648 \<and>
    mem_load (rb_data rb) (head_offset rb) 4 =
      Some (if head_wraps rb m then le32 LUMBRE_RINGBUF_PADDING_MARKER else le32 (of_nat (length m))) \<and>
    (head_wraps rb m \<longrightarrow> mem_load (rb_data rb) 0 4 = Some (le32 (of_nat (length m)))) \<and>
    mem_load (rb_data rb) (if head_wraps rb m then 4 else head_offset rb + 4) (length m) = Some m"
  have ?loads
  proof (cases "head_wraps rb m")
    case True
    then have s: "4 + length m \<le> rb_size rb"
      "mem_load (rb_data rb) (head_offset rb) 4 = Some (le32 LUMBRE_RINGBUF_PADDING_MARKER)"
      "mem_load (rb_data rb) 0 (4 + length m) = Some (frame m)"
      using seg by (simp_all add: head_wraps_def)
    from mem_load_split [OF s(3) [unfolded frame_def]] s(1,2) size True show ?loads
      by simp
  next
    case False
    then have s: "mem_load (rb_data rb) (head_offset rb) (4 + length m) = Some (frame m)"
      using seg by (simp add: head_wraps_def not_less)
    from mem_load_split [OF s [unfolded frame_def]] size False show ?loads
      by (simp add: head_wraps_def)
  qed
  then show "4 + length m \<le> 2147483648"
    "mem_load (rb_data rb) (head_offset rb) 4 =
      Some (if head_wraps rb m then le32 LUMBRE_RINGBUF_PADDING_MARKER else le32 (of_nat (length m)))"
    "head_wraps rb m \<Longrightarrow> mem_load (rb_data rb) 0 4 = Some (le32 (of_nat (length m)))"
    "mem_load (rb_data rb) (if head_wraps rb m then 4 else head_offset rb + 4) (length m) = Some m"
    by simp_all
qed

lemma consumer_step_ok:
  assumes holds: "ring_holds rb ms" and ok: "consumer_ok rb ms pc"
  shows "\<exists>ev rb' pc'. consumer_step rb pc = Some (ev, rb', pc') \<and>
    (ev = Silent \<and> rb' = rb \<and> consumer_ok rb ms pc' \<or>
     (\<exists>m ms'. ev = Received m \<and> ms = m # ms' \<and> consumer_ok rb' ms' pc' \<and>
       ringbuf_publish_read rb
         (rb_read_pos rb + of_nat (ring_cost (rb_size rb) (head_offset rb) (4 + length m))) = Some rb'))"
proof -
  have wf: "rb_wf rb" using holds by (simp add: ring_holds_def)
  obtain h where h: "rb_header rb = Some h" using wf rb_wf_header by blast
  have size: "4 \<le> rb_size rb" "rb_size rb \<le> 2147483648" using rb_size_bounds [OF wf] by simp_all
  have off: "head_offset rb < rb_size rb" using size by (simp add: head_offset_def)
  define w :: u32 where "w = ucast (rb_read_pos rb AND ucast (rb_mask rb))"
  have w: "unat w = head_offset rb"
    using masked_position [OF wf, of "rb_read_pos rb"] by (simp add: w_def head_offset_def)
  have "unat (rb_capacity rb - w) = rb_size rb - head_offset rb"
    using w off by (simp add: unat_sub word_le_nat_alt rb_size_def)
  then have pad: "(ucast (rb_capacity rb - w) :: u64) = of_nat (rb_size rb - head_offset rb)"
    by (metis of_nat_unat)
  show ?thesis
  proof (cases pc)
    case (C_poll pos)
    show ?thesis
    proof (cases "rb_write_pos rb = pos")
      case True
      then show ?thesis using C_poll ok by (simp add: h header_views [OF h])
    next
      case False
      with ok C_poll obtain m ms' where "ms = m # ms'" using unread_message [OF holds] by auto
      then show ?thesis using C_poll ok False by (simp add: h header_views [OF h])
    qed
  next
    case (C_head pos)
    then obtain m ms' where ms: "ms = m # ms'" and pos: "pos = rb_read_pos rb" using ok by (cases ms) auto
    note ld = head_loads [OF holds [unfolded ms]]
    note hd = frame_header [OF ld(1)]
    show ?thesis
      using C_head w pad ld(2) hd(2) by (simp add: pos w_def [symmetric] ms Let_def)
  next
    case (C_wrapped pos)
    then obtain m ms' where ms: "ms = m # ms'" using ok by (cases ms) auto
    note ld = head_loads [OF holds [unfolded ms]]
    show ?thesis using C_wrapped ok ld(3) by (simp add: ms)
  next
    case (C_body pos offset len)
    then obtain m ms' where ms: "ms = m # ms'" using ok by (cases ms) auto
    note ld = head_loads [OF holds [unfolded ms]]
    note hd = frame_header [OF ld(1)]
    have "unat (offset + 4) = (if head_wraps rb m then 4 else head_offset rb + 4)"
      using C_body ok off size by (auto simp: ms unat_plus)
    then show ?thesis
      using C_body ok ld(4) hd by (auto simp: ms ring_cost_def head_wraps_def add.assoc)
  next
    case (C_publish m pos)
    then obtain ms' where ms: "ms = m # ms'" and pos: "pos = rb_read_pos rb +
        of_nat (ring_cost (rb_size rb) (head_offset rb) (4 + length m))"
      using ok by (cases ms) auto
    from publish_read_holds [OF holds [unfolded ms], folded head_offset_def] obtain rb' where
      "ringbuf_publish_read rb pos = Some rb'" "rb_read_pos rb' = pos"
      unfolding pos by blast
    then show ?thesis using C_publish by (simp add: ms pos)
  qed
qed

subsection \<open>The producer leaves the unread messages alone\<close>

lemma ring_byte_inject:
  "ring_byte rb i = ring_byte rb j \<Longrightarrow> i < rb_size rb \<Longrightarrow> j < rb_size rb \<Longrightarrow> i = j"
  unfolding ring_byte_def by (rule lap_inject)

lemma free_store_holds:
  assumes holds: "ring_holds rb ms" and free: "free_byte rb i" and "i < rb_size rb"
  shows "ring_holds (rb\<lparr>rb_data := (rb_data rb)[i := b]\<rparr>) ms"
proof -
  have wf: "rb_wf rb" and used: "rb_used rb \<le> rb_size rb"
    and seg: "ring_seg (rb_size rb) (rb_data rb) (unat (rb_read_pos rb) mod rb_size rb) ms (rb_used rb)"
    using holds by (simp_all only: ring_holds_def)
  have len: "length (rb_data rb) = rb_size rb" using wf by (simp add: rb_wf_def rb_size_def)
  have "ring_byte rb k \<noteq> i" if "k < rb_used rb" for k
    using free that used ring_byte_inject [of rb k] by (fastforce simp: free_byte_def)
  then have "(rb_data rb)[i := b] ! ring_byte rb k = rb_data rb ! ring_byte rb k" if "k < rb_used rb" for k
    using that nth_list_update_neq by metis
  then have "ring_seg (rb_size rb) ((rb_data rb)[i := b]) (unat (rb_read_pos rb) mod rb_size rb) ms (rb_used rb)"
    using len rb_size_bounds [OF wf]
    by (intro ring_seg_cong [OF seg]) (simp_all add: ring_byte_def)
  then show ?thesis
    using holds wf by (simp add: ring_holds_def rb_wf_def rb_size_def rb_used_def rb_read_pos_def rb_write_pos_def)
qed

lemma ring_byte_written:
  assumes "rb_wf rb"
  shows "ring_byte rb (rb_used rb + t) = (rb_offset rb + t) mod rb_size rb"
  by (simp only: ring_byte_def rb_offset_from_read [OF assms] mod_add_left_eq add.assoc)

lemma written_byte_free:
  assumes "rb_wf rb" and "rb_used rb + t < rb_size rb" and "(rb_offset rb + t) mod rb_size rb = i"
  shows "free_byte rb i"
  unfolding free_byte_def
  using assms ring_byte_written [OF assms(1), of t] by (intro exI [of _ "rb_used rb + t"]) simp

text \<open>An old read position only makes the checks stricter.\<close>

lemma stale_room:
  fixes x y n c :: u64
  assumes "x + n \<le> c" and "unat y \<le> unat x" and "unat x \<le> 2147483648" and "unat n \<le> 8589934592"
  shows "y + n \<le> c"
proof -
  have "unat (x + n) = unat x + unat n" "unat (y + n) = unat y + unat n"
    using assms(2-4) by (simp_all add: unat_plus)
  with assms(1,2) show ?thesis by (simp add: word_le_nat_alt)
qed

lemma stale_plan:
  assumes wf: "rb_wf rb" and ok: "producer_ok rb ms (P_check p r)"
    and plan: "producer_plan rb p r = Some (ss, pos)"
  shows "producer_plan rb p (rb_read_pos rb) = Some (ss, pos)"
proof -
  have size: "rb_size rb \<le> 2147483648" using rb_size_bounds [OF wf] by simp
  have old: "unat (rb_local_write_pos rb - rb_read_pos rb) \<le> unat (rb_local_write_pos rb - r)"
    "unat (rb_local_write_pos rb - r) \<le> 2147483648"
    using ok size by (simp_all add: rb_used_def)
  have "unat (ucast (a :: u32) :: u64) \<le> 4294967296" for a
    using unat_u32_lt [of a] by (simp add: unat_ucast_up)
  note small = this
  have room: "\<not> c < rb_local_write_pos rb - rb_read_pos rb + ucast (a :: u32)"
    if "\<not> c < rb_local_write_pos rb - r + ucast a" for a c
    using stale_room [OF _ old] small [of a] that by (simp add: not_less)
  have room2: "\<not> c < rb_local_write_pos rb - rb_read_pos rb + ucast (a :: u32) + ucast (b :: u32)"
    if "\<not> c < rb_local_write_pos rb - r + ucast a + ucast b" for a b c
  proof -
    have "unat (ucast a + ucast b :: u64) \<le> 8589934592"
      using small [of a] small [of b] by (simp add: unat_plus)
    from stale_room [OF _ old this] that show ?thesis by (simp add: add.assoc not_less)
  qed
  show ?thesis
    using plan by (simp add: producer_plan_def Let_def room room2 split: if_splits)
qed

lemma plan_accepted:
  assumes holds: "ring_holds rb ms" and len: "4 + length p \<le> rb_size rb"
    and plan: "producer_plan rb p (rb_read_pos rb) = Some (ss, pos)"
  shows "ring_accepts rb p"
    and "apply_stores ss (rb_data rb) = Some d \<Longrightarrow>
      \<exists>rb'. publish_write (rb\<lparr>rb_data := d\<rparr>) pos = Some rb' \<and> ring_holds rb' (ms @ [p])"
proof -
  have wf: "rb_wf rb" using holds by (simp add: ring_holds_def)
  have small: "length p < 4294967296" using len rb_size_bounds [OF wf] by simp
  then have n: "unat (of_nat (length p) :: u32) = length p" by (simp add: unat_of_nat)
  obtain h where h: "rb_header rb = Some h" using wf rb_wf_header by blast
  have "\<not> rb_capacity rb - 4 < of_nat (length p)" using payload_guard [OF wf n] len by simp
  then have eq: "lumbre_ringbuf_write rb p (of_nat (length p)) = do {
        d \<leftarrow> apply_stores ss (rb_data rb);
        rb \<leftarrow> publish_write (rb\<lparr>rb_data := d\<rparr>) pos;
        Some (0, rb) }"
    using write_as_plan [OF h small] plan by (simp add: header_views [OF h])
  note spec = ringbuf_put_spec [OF holds n, unfolded eq]
  have pub: "\<exists>rb'. publish_write (rb\<lparr>rb_data := d\<rparr>) pos = Some rb'" for d
    by (simp add: publish_write_def h)
  show "ring_accepts rb p"
  proof (cases "apply_stores ss (rb_data rb)")
    case None
    then show ?thesis using spec by simp
  next
    case (Some d)
    then show ?thesis using spec pub [of d] by (auto split: if_splits)
  qed
  show "\<exists>rb'. publish_write (rb\<lparr>rb_data := d\<rparr>) pos = Some rb' \<and> ring_holds rb' (ms @ [p])"
    if "apply_stores ss (rb_data rb) = Some d"
    using spec pub [of d] that by (auto split: if_splits)
qed

lemma plan_bytes_free:
  assumes wf: "rb_wf rb" and len: "4 + length p \<le> rb_size rb" and accepts: "ring_accepts rb p"
    and plan: "producer_plan rb p r = Some (ss, pos)" and s: "(i, b) \<in> set ss" and i: "i < rb_size rb"
  shows "free_byte rb i"
proof -
  define n where "n = 4 + length p"
  have size: "rb_size rb \<le> 2147483648" using rb_size_bounds [OF wf] by simp
  have off: "rb_offset rb < rb_size rb" by (rule rb_offset_less [OF wf])
  define w :: u32 where "w = ucast (rb_local_write_pos rb AND ucast (rb_mask rb))"
  have w: "unat w = rb_offset rb"
    using masked_position [OF wf, of "rb_local_write_pos rb"] by (simp add: w_def rb_offset_def)
  have "unat (of_nat (length p) :: u32) = length p" using len size by (simp add: unat_of_nat)
  then have "unat (4 + of_nat (length p) :: u32) = n" using len size by (simp add: n_def unat_plus)
  then have wrap: "rb_capacity rb < w + (4 + of_nat (length p)) \<longleftrightarrow> rb_size rb < rb_offset rb + n"
    using w off len size by (simp add: word_less_nat_alt unat_plus rb_size_def [symmetric] n_def)
  have w4: "unat (w + 4) = rb_offset rb + 4" using w off size by (simp add: unat_plus)
  have room: "rb_used rb + ring_cost (rb_size rb) (rb_offset rb) n \<le> rb_size rb"
    using accepts by (simp add: ring_accepts_def n_def)
  have ahead: "free_byte rb i" if "rb_offset rb \<le> i" "rb_used rb + (i - rb_offset rb) < rb_size rb"
    using written_byte_free [OF wf that(2), of i] that(1) i by simp
  show ?thesis
  proof (cases "rb_size rb < rb_offset rb + n")
    case True
    then have "ss = store_bytes (rb_offset rb) (le32 LUMBRE_RINGBUF_PADDING_MARKER) @
        store_bytes 0 (le32 (of_nat (length p))) @ store_bytes 4 p"
      using plan wrap w by (simp add: producer_plan_def Let_def w_def [symmetric] split: if_splits)
    with s consider "rb_offset rb \<le> i" | "i < n"
      using store_bytes_index [of i b] by (fastforce simp: n_def)
    then show ?thesis
    proof cases
      case 1
      then show ?thesis using room True i off by (intro ahead) (simp_all add: ring_cost_def)
    next
      case 2
      have "(rb_offset rb + (rb_size rb - rb_offset rb + i)) mod rb_size rb = i"
        using off i by simp
      then show ?thesis
        using room True 2 by (intro written_byte_free [OF wf]) (simp_all add: ring_cost_def)
    qed
  next
    case False
    then have "ss = store_bytes (rb_offset rb) (le32 (of_nat (length p))) @ store_bytes (rb_offset rb + 4) p"
      using plan wrap w w4 by (simp add: producer_plan_def Let_def w_def [symmetric] split: if_splits)
    with s have "rb_offset rb \<le> i" "i < rb_offset rb + n"
      using store_bytes_index [of i b] by (fastforce simp: n_def)+
    then show ?thesis using room False by (intro ahead) (simp_all add: ring_cost_def)
  qed
qed

lemma producer_step_ok:
  assumes holds: "ring_holds rb ms" and ok: "producer_ok rb ms pc" and p: "length p < 4294967296"
    and run: "producer_step p rb pc = Some (ev, rb', pc')"
  shows "(case ev of
      Silent \<Rightarrow> ring_holds rb' ms \<and> producer_ok rb' ms pc' \<and> rb_dropped rb' = rb_dropped rb
    | Accepted q \<Rightarrow> ring_holds rb' (ms @ [q]) \<and> pc' = P_idle \<and> rb_dropped rb' = rb_dropped rb
    | Refused q \<Rightarrow> ring_holds rb' ms \<and> pc' = P_idle \<and> rb_dropped rb' = rb_dropped rb + 1
    | Received q \<Rightarrow> False)"
    and "rb_read_pos rb' = rb_read_pos rb" and "rb_size rb' = rb_size rb"
proof -
  have wf: "rb_wf rb" and used: "rb_used rb \<le> rb_size rb" using holds by (simp_all add: ring_holds_def)
  obtain h where h: "rb_header rb = Some h" using wf rb_wf_header by blast
  note v = header_views [OF h]
  have drop: "count_drop rb = Some (rb\<lparr>rb_header := Some (h\<lparr>hdr_dropped := hdr_dropped h + 1\<rparr>)\<rparr>)"
    by (simp add: count_drop_def h)
  note dropped = ring_holds_drop [OF holds h]
  have "(case ev of
      Silent \<Rightarrow> ring_holds rb' ms \<and> producer_ok rb' ms pc' \<and> rb_dropped rb' = rb_dropped rb
    | Accepted q \<Rightarrow> ring_holds rb' (ms @ [q]) \<and> pc' = P_idle \<and> rb_dropped rb' = rb_dropped rb
    | Refused q \<Rightarrow> ring_holds rb' ms \<and> pc' = P_idle \<and> rb_dropped rb' = rb_dropped rb + 1
    | Received q \<Rightarrow> False) \<and> rb_read_pos rb' = rb_read_pos rb \<and> rb_size rb' = rb_size rb"
  proof (cases pc)
    case P_idle
    have "unat (of_nat (length p) :: u32) = length p" using p by (simp add: unat_of_nat)
    note guard = payload_guard [OF wf this]
    show ?thesis
    proof (cases "rb_capacity rb - 4 < of_nat (length p)")
      case True
      then show ?thesis using run P_idle dropped by (auto simp: drop v)
    next
      case False
      then show ?thesis using run P_idle holds guard used by (auto simp: h v(1) [symmetric] rb_used_def)
    qed
  next
    case (P_check q r)
    then have len: "4 + length q \<le> rb_size rb" using ok by simp
    show ?thesis
    proof (cases "producer_plan rb q r")
      case None
      then show ?thesis using run P_check dropped by (auto simp: drop v)
    next
      case (Some x)
      then obtain ss pos where x: "producer_plan rb q r = Some (ss, pos)" by (cases x) auto
      have x': "producer_plan rb q (rb_read_pos rb) = Some (ss, pos)"
        using stale_plan [OF wf _ x] ok P_check by blast
      have "producer_ok rb ms (P_store q ss pos)"
        using plan_accepted [OF holds len x'] plan_bytes_free [OF wf len _ x'] by auto
      then show ?thesis using run P_check x holds by auto
    qed
  next
    case (P_store q ss pos)
    show ?thesis
    proof (cases ss)
      case Nil
      then show ?thesis using run P_store ok by (auto simp: publish_write_def h v bind_eq_Some_conv rb_size_def)
    next
      case (Cons s ss')
      obtain i b where s: "s = (i, b)" by (cases s)
      have i: "i < rb_size rb" "rb' = rb\<lparr>rb_data := (rb_data rb)[i := b]\<rparr>" "ev = Silent" "pc' = P_store q ss' pos"
        using run P_store Cons s wf
        by (auto simp: mem_store_byte rb_wf_def rb_size_def bind_eq_Some_conv split: if_splits)
      have len: "length (rb_data rb) = rb_size rb" using wf by (simp add: rb_wf_def rb_size_def)
      have same: "free_byte rb' = free_byte rb" "rb_size rb' = rb_size rb" "rb_read_pos rb' = rb_read_pos rb"
        "rb_dropped rb' = rb_dropped rb"
        by (simp_all add: i(2) fun_eq_iff free_byte_def ring_byte_def rb_used_def rb_read_pos_def rb_size_def rb_dropped_def)
      have "free_byte rb i" using ok P_store Cons s i(1) by simp
      then have "ring_holds rb' ms" unfolding i(2) by (rule free_store_holds [OF holds _ i(1)])
      moreover have "producer_ok rb' ms pc'"
        using ok P_store Cons s i(1) len same unfolding i(4) by (simp add: i(2) mem_store_byte)
      ultimately show ?thesis using same i(3) by simp
    qed
  qed
  then show "(case ev of
      Silent \<Rightarrow> ring_holds rb' ms \<and> producer_ok rb' ms pc' \<and> rb_dropped rb' = rb_dropped rb
    | Accepted q \<Rightarrow> ring_holds rb' (ms @ [q]) \<and> pc' = P_idle \<and> rb_dropped rb' = rb_dropped rb
    | Refused q \<Rightarrow> ring_holds rb' ms \<and> pc' = P_idle \<and> rb_dropped rb' = rb_dropped rb + 1
    | Received q \<Rightarrow> False)"
    "rb_read_pos rb' = rb_read_pos rb" "rb_size rb' = rb_size rb"
    by simp_all
qed

subsection \<open>The consumer's publication frees space without disturbing the producer\<close>

lemma free_byte_publish:
  assumes wf: "rb_wf rb" and "rb_size rb' = rb_size rb" and "rb_read_pos rb' = rb_read_pos rb + of_nat a"
    and "rb_used rb' = rb_used rb - a" and "a \<le> rb_used rb" and "free_byte rb i"
  shows "free_byte rb' i"
proof -
  obtain j where j: "rb_used rb \<le> j" "j < rb_size rb" "i = ring_byte rb j"
    using assms(6) by (auto simp: free_byte_def)
  have "unat (rb_read_pos rb') mod rb_size rb = (unat (rb_read_pos rb) mod rb_size rb + a) mod rb_size rb"
    unfolding assms(3) by (rule position_advance [OF rb_size_dvd [OF wf]])
  then have "ring_byte rb' (j - a) = (unat (rb_read_pos rb) mod rb_size rb + (a + (j - a))) mod rb_size rb"
    by (simp only: ring_byte_def assms(2) mod_add_left_eq add.assoc)
  moreover have "a + (j - a) = j" using j(1) assms(5) by simp
  ultimately have "ring_byte rb' (j - a) = ring_byte rb j" by (simp only: ring_byte_def)
  then show ?thesis
    using j assms(2,4,5) by (auto simp: free_byte_def intro!: exI [of _ "j - a"])
qed

lemma publish_read_fields:
  assumes "ringbuf_publish_read rb pos = Some rb'"
  shows "rb_data rb' = rb_data rb" and "rb_local_write_pos rb' = rb_local_write_pos rb"
    and "rb_size rb' = rb_size rb" and "rb_dropped rb' = rb_dropped rb" and "rb_read_pos rb' = pos"
  using assms by (auto simp: ringbuf_publish_read_def bind_eq_Some_conv rb_size_def rb_dropped_def rb_read_pos_def)

lemma publish_commutes:
  assumes "ringbuf_publish_read rb r = Some rb1" and "publish_write (rb\<lparr>rb_data := d\<rparr>) w = Some rb2"
  shows "publish_write (rb1\<lparr>rb_data := d\<rparr>) w = ringbuf_publish_read rb2 r"
  using assms by (auto simp: ringbuf_publish_read_def publish_write_def bind_eq_Some_conv)

lemma publish_write_fields:
  assumes "publish_write (rb\<lparr>rb_data := d\<rparr>) w = Some rb'"
  shows "rb_size rb' = rb_size rb" and "rb_read_pos rb' = rb_read_pos rb"
  using assms by (auto simp: publish_write_def bind_eq_Some_conv rb_size_def rb_read_pos_def)

lemma consumer_publish_ok:
  assumes holds: "ring_holds rb (m # ms)" and ok: "producer_ok rb (m # ms) pc"
    and pub: "ringbuf_publish_read rb
      (rb_read_pos rb + of_nat (ring_cost (rb_size rb) (head_offset rb) (4 + length m))) = Some rb'"
  shows "ring_holds rb' ms" and "producer_ok rb' ms pc"
proof -
  have wf: "rb_wf rb" using holds by (simp add: ring_holds_def)
  define a where "a = ring_cost (rb_size rb) (head_offset rb) (4 + length m)"
  note f = publish_read_fields [OF pub [folded a_def]]
  from publish_read_holds [OF holds, folded head_offset_def a_def] pub
  have *: "ring_holds rb' ms" "a \<le> rb_used rb" "rb_used rb' = rb_used rb - a"
    by (auto simp: a_def)
  then show "ring_holds rb' ms" by simp
  show "producer_ok rb' ms pc"
  proof (cases pc)
    case P_idle
    then show ?thesis by simp
  next
    case (P_check p r)
    then show ?thesis using ok f * by (auto intro: order_trans [OF diff_le_self])
  next
    case (P_store p ss pos)
    have "free_byte rb' i" if "free_byte rb i" for i
      using free_byte_publish [OF wf f(3) f(5) *(3,2) that] .
    moreover have "\<exists>rb2. publish_write (rb'\<lparr>rb_data := d\<rparr>) pos = Some rb2 \<and> ring_holds rb2 (ms @ [p])"
      if d: "apply_stores ss (rb_data rb) = Some d" for d
    proof -
      obtain rb1 where rb1: "publish_write (rb\<lparr>rb_data := d\<rparr>) pos = Some rb1" "ring_holds rb1 (m # ms @ [p])"
        using ok P_store d by auto
      note same = publish_write_fields [OF rb1(1)]
      have "head_offset rb1 = head_offset rb" by (simp add: head_offset_def same)
      with publish_read_holds [OF rb1(2), folded head_offset_def] publish_commutes [OF pub [folded a_def] rb1(1)]
      show ?thesis by (auto simp: same a_def)
    qed
    ultimately show ?thesis using ok P_store f by auto
  qed
qed

subsection \<open>The invariant of the runs\<close>

lemma consumer_ok_producer:
  assumes "consumer_ok rb ms pc" and "rb_read_pos rb' = rb_read_pos rb" and "rb_size rb' = rb_size rb"
    and "ms' = ms \<or> ms' = ms @ [q]"
  shows "consumer_ok rb' ms' pc"
proof -
  have "head_offset rb' = head_offset rb" "head_wraps rb' = head_wraps rb"
    using assms(2,3) by (simp_all add: head_offset_def head_wraps_def fun_eq_iff)
  moreover have "ms \<noteq> [] \<Longrightarrow> ms' \<noteq> [] \<and> hd ms' = hd ms" using assms(4) by auto
  ultimately show ?thesis using assms(1-3) by (cases pc) auto
qed

lemma spsc_invariant:
  assumes "spsc_run s0 s acc refused got" and "ring_holds (sp_ring s0) []"
    and "sp_producer s0 = P_idle" and "sp_consumer s0 = C_poll (rb_read_pos (sp_ring s0))"
  shows "\<exists>rest. acc = got @ rest \<and> ring_holds (sp_ring s) rest \<and>
    producer_ok (sp_ring s) rest (sp_producer s) \<and> consumer_ok (sp_ring s) rest (sp_consumer s) \<and>
    rb_dropped (sp_ring s) = rb_dropped (sp_ring s0) + of_nat refused"
  using assms
proof (induction rule: spsc_run.induct)
  case spsc_start
  then show ?case by simp
next
  case (spsc_producer s acc refused got p ev rb pc)
  then obtain rest where rest: "acc = got @ rest" "ring_holds (sp_ring s) rest"
    "producer_ok (sp_ring s) rest (sp_producer s)" "consumer_ok (sp_ring s) rest (sp_consumer s)"
    "rb_dropped (sp_ring s) = rb_dropped (sp_ring s0) + of_nat refused"
    by blast
  note step = producer_step_ok [OF rest(2,3) spsc_producer.hyps(2,3)]
  have c: "consumer_ok rb ms' (sp_consumer s)" if "ms' = rest \<or> ms' = rest @ [q]" for ms' q
    by (rule consumer_ok_producer [OF rest(4) step(2,3) that])
  show ?case
    using step(1) rest c by (cases ev) auto
next
  case (spsc_consumer s acc refused got ev rb pc)
  then obtain rest where rest: "acc = got @ rest" "ring_holds (sp_ring s) rest"
    "producer_ok (sp_ring s) rest (sp_producer s)" "consumer_ok (sp_ring s) rest (sp_consumer s)"
    "rb_dropped (sp_ring s) = rb_dropped (sp_ring s0) + of_nat refused"
    by blast
  from consumer_step_ok [OF rest(2,4)] spsc_consumer.hyps(2)
  consider "ev = Silent" "rb = sp_ring s" "consumer_ok rb rest pc"
    | m ms' where "ev = Received m" "rest = m # ms'" "consumer_ok rb ms' pc"
      "ringbuf_publish_read (sp_ring s) (rb_read_pos (sp_ring s) +
         of_nat (ring_cost (rb_size (sp_ring s)) (head_offset (sp_ring s)) (4 + length m))) = Some rb"
    by auto
  then show ?case
  proof cases
    case 1
    then show ?thesis using rest by auto
  next
    case 2
    note pub = consumer_publish_ok [OF rest(2,3) [unfolded 2(2)] 2(4)]
    show ?thesis using 2 pub rest publish_read_fields(4) [OF 2(4)] by auto
  qed
qed

lemma consumer_never_stuck:
  assumes "ring_holds rb rest" and "consumer_ok rb rest pc"
  shows "consumer_step rb pc \<noteq> None"
  using consumer_step_ok [OF assms] by auto

text \<open>Runs along a schedule: a payload lets the producer move, nothing the consumer.\<close>

fun spsc_exec ::
  "bytes option list \<Rightarrow> spsc \<times> bytes list \<times> nat \<times> bytes list \<Rightarrow> (spsc \<times> bytes list \<times> nat \<times> bytes list) option" where
  "spsc_exec [] x = Some x"
| "spsc_exec (Some p # sched) (s, acc, refused, got) = do {
     (ev, rb, pc) \<leftarrow> producer_step p (sp_ring s) (sp_producer s);
     spsc_exec sched (s\<lparr>sp_ring := rb, sp_producer := pc\<rparr>,
       (case ev of Accepted q \<Rightarrow> acc @ [q] | _ \<Rightarrow> acc),
       (case ev of Refused q \<Rightarrow> Suc refused | _ \<Rightarrow> refused), got) }"
| "spsc_exec (None # sched) (s, acc, refused, got) = do {
     (ev, rb, pc) \<leftarrow> consumer_step (sp_ring s) (sp_consumer s);
     spsc_exec sched (s\<lparr>sp_ring := rb, sp_consumer := pc\<rparr>, acc, refused,
       (case ev of Received q \<Rightarrow> got @ [q] | _ \<Rightarrow> got)) }"

lemma spsc_exec_run:
  assumes "spsc_exec sched x = Some (s', acc', refused', got')"
    and "case x of (s, acc, refused, got) \<Rightarrow> spsc_run s0 s acc refused got"
    and "\<forall>p. Some p \<in> set sched \<longrightarrow> length p < 4294967296"
  shows "spsc_run s0 s' acc' refused' got'"
  using assms
proof (induction sched x rule: spsc_exec.induct)
  case (1 x)
  then show ?case by simp
next
  case (2 p sched s acc refused got)
  then obtain ev rb pc where step: "producer_step p (sp_ring s) (sp_producer s) = Some (ev, rb, pc)"
    by (auto simp: bind_eq_Some_conv)
  have "spsc_run s0 s acc refused got" "length p < 4294967296" using "2.prems" by simp_all
  note run = spsc_producer [OF this step]
  show ?case
    using "2.prems"(1,3) run by (intro "2.IH" [OF step refl refl]) (simp_all add: step)
next
  case (3 sched s acc refused got)
  then obtain ev rb pc where step: "consumer_step (sp_ring s) (sp_consumer s) = Some (ev, rb, pc)"
    by (auto simp: bind_eq_Some_conv)
  have "spsc_run s0 s acc refused got" using "3.prems" by simp
  note run = spsc_consumer [OF this step]
  show ?case
    using "3.prems"(1,3) run by (intro "3.IH" [OF step refl refl]) (simp_all add: step)
qed

definition sample_spsc :: spsc where
  "sample_spsc = \<lparr>sp_ring = sample_ring, sp_producer = P_idle, sp_consumer = C_poll 0\<rparr>"

text \<open>
  A schedule: the producer has loaded the read position when the consumer polls; the consumer polls
  again in the middle of the stores, and reads the message while the producer starts the next one.
\<close>

definition sample_schedule :: "bytes option list" where
  "sample_schedule =
     [Some [7, 8], None, Some [], Some [], Some [], None, Some [], Some [], Some [], Some [], Some [],
      None, None, Some [9], None, Some [], None, Some []]"

lemma sample_schedule_result:
  "map_option snd (spsc_exec sample_schedule (sample_spsc, [], 0, [])) = Some ([[7, 8]], 0, [[7, 8]])"
  by code_simp

lemma sample_spsc_run: "\<exists>s. spsc_run sample_spsc s [[7, 8]] 0 [[7, 8]]"
proof -
  obtain s where "spsc_exec sample_schedule (sample_spsc, [], 0, []) = Some (s, [[7, 8]], 0, [[7, 8]])"
    using sample_schedule_result by auto
  from spsc_exec_run [OF this] show ?thesis
    using spsc_start [of sample_spsc] by (auto simp: sample_schedule_def)
qed

subsection \<open>Properties\<close>

text \<open>
  C8: The lock-free protocol is safe and lossless: from an empty ring, in whatever order the memory
  accesses of the producer and of the consumer interleave, what the consumer has received, followed
  by what the ring holds, is exactly what the producer had accepted, in order and byte for byte;
  the drop counter has counted the refused messages; and the consumer's next step never fails.
\<close>

theorem spsc_interleaving_safe:
  assumes "spsc_run s0 s acc refused got" and "ring_holds (sp_ring s0) []"
    and "sp_producer s0 = P_idle" and "sp_consumer s0 = C_poll (rb_read_pos (sp_ring s0))"
  shows "\<exists>rest. acc = got @ rest \<and> ring_holds (sp_ring s) rest \<and>
    rb_dropped (sp_ring s) = rb_dropped (sp_ring s0) + of_nat refused \<and>
    consumer_step (sp_ring s) (sp_consumer s) \<noteq> None"
  using spsc_invariant [OF assms] consumer_never_stuck by blast

theorem spsc_interleaving_safe_witness:
  "\<exists>s. spsc_run sample_spsc s [[7, 8]] 0 [[7, 8]] \<and> ring_holds (sp_ring s) [] \<and>
     consumer_step (sp_ring s) (sp_consumer s) \<noteq> None"
proof -
  obtain s where run: "spsc_run sample_spsc s [[7, 8]] 0 [[7, 8]]" using sample_spsc_run by blast
  have "rb_read_pos sample_ring = 0" by (simp add: sample_ring_def rb_read_pos_def fresh_header_def)
  then show ?thesis
    using spsc_interleaving_safe [OF run] run sample_ring_holds by (auto simp: sample_spsc_def)
qed

text \<open>
  C13: The producer's step machine is the write function: run without interference, from any mapped
  ring and for any payload, it ends after at most \<open>length p + 11\<close> steps with the return code and
  the ring of \<^verbatim>\<open>lumbre_ringbuf_write\<close>, or faults where it faults.
\<close>

theorem producer_steps_are_write:
  assumes "rb_header rb = Some h" and "length p < 4294967296"
  shows "run_producer (length p + 11) p rb P_idle = Some (lumbre_ringbuf_write rb p (of_nat (length p)))"
  using run_producer_write [OF assms] by simp

theorem producer_steps_are_write_witness:
  "run_producer 14 [1, 2, 3] sample_ring P_idle = Some (lumbre_ringbuf_write sample_ring [1, 2, 3] 3)"
  using producer_steps_are_write [of sample_ring _ "[1, 2, 3]"] by (simp add: sample_ring_def del: run_producer.simps)

end
