(* ===== verification/Lumbre_Weak.thy ===== *)
theory Lumbre_Weak
  imports Lumbre_Concurrent
begin

text \<open>
  The ring under a weaker memory than the interleaving of \<^verbatim>\<open>Lumbre_Concurrent\<close>. A store waits in a
  buffer of its process before it reaches the memory the other process loads from. The producer's
  plain stores (the memcpys) reach memory in any order that keeps the order of two stores to the same
  byte; its store of \<^verbatim>\<open>write_pos\<close> is a release: it reaches memory after every store before it, but
  stores after it may overtake it. The consumer's stores of \<^verbatim>\<open>read_pos\<close> reach memory one after the
  other, any time later, so the producer's relaxed load may return an old position. The drop counter
  is a read-modify-write and acts on memory.
\<close>

subsection \<open>Store buffers\<close>

datatype pending = Byte nat u8 | Write_pos u64

record weak =
  wk_memory :: lumbre_ringbuf_t
  wk_stores :: "pending list"
  wk_reads :: "u64 list"
  wk_producer :: producer
  wk_consumer :: consumer

text \<open>
  The producer of \<^const>\<open>producer_step\<close>, its stores buffered. Its handle, \<^verbatim>\<open>local_write_pos\<close> included,
  is private, so that field of the ring in memory is always its newest value.
\<close>

definition weak_producer_step :: "bytes \<Rightarrow> weak \<Rightarrow> (event \<times> weak) option" where
  "weak_producer_step p s =
     (case wk_producer s of
        P_store q ((i, b) # ss) pos \<Rightarrow>
          if i < length (rb_data (wk_memory s))
          then Some (Silent, s\<lparr>wk_stores := wk_stores s @ [Byte i b], wk_producer := P_store q ss pos\<rparr>)
          else None
      | P_store q [] pos \<Rightarrow>
          Some (Accepted q, s\<lparr>wk_memory := (wk_memory s)\<lparr>rb_local_write_pos := pos\<rparr>,
            wk_stores := wk_stores s @ [Write_pos pos], wk_producer := P_idle\<rparr>)
      | pc \<Rightarrow> do {
          (ev, rb, pc) \<leftarrow> producer_step p (wk_memory s) pc;
          Some (ev, s\<lparr>wk_memory := rb, wk_producer := pc\<rparr>) })"

definition weak_consumer_step :: "weak \<Rightarrow> (event \<times> weak) option" where
  "weak_consumer_step s =
     (case wk_consumer s of
        C_publish m pos \<Rightarrow>
          Some (Received m, s\<lparr>wk_reads := wk_reads s @ [pos], wk_consumer := C_poll pos\<rparr>)
      | pc \<Rightarrow> do {
          (ev, rb, pc) \<leftarrow> consumer_step (wk_memory s) pc;
          Some (ev, s\<lparr>wk_memory := rb, wk_consumer := pc\<rparr>) })"

text \<open>A buffered store reaches memory.\<close>

fun commit :: "pending \<Rightarrow> lumbre_ringbuf_t \<Rightarrow> lumbre_ringbuf_t" where
  "commit (Byte i b) rb = rb\<lparr>rb_data := (rb_data rb)[i := b]\<rparr>"
| "commit (Write_pos w) rb = rb\<lparr>rb_header := map_option (hdr_write_pos_update (\<lambda>_. w)) (rb_header rb)\<rparr>"

text \<open>Which buffered store may be next: the release only after all before it, a byte if none before it has its place.\<close>

fun may_commit :: "pending list \<Rightarrow> pending \<Rightarrow> bool" where
  "may_commit earlier (Write_pos w) \<longleftrightarrow> earlier = []"
| "may_commit earlier (Byte i b) \<longleftrightarrow> (\<forall>e \<in> set earlier. case e of Byte j _ \<Rightarrow> j \<noteq> i | _ \<Rightarrow> True)"

definition commit_store :: "nat \<Rightarrow> weak \<Rightarrow> weak option" where
  "commit_store k s =
     (case drop k (wk_stores s) of
        [] \<Rightarrow> None
      | e # later \<Rightarrow>
          if may_commit (take k (wk_stores s)) e
          then Some (s\<lparr>wk_memory := commit e (wk_memory s), wk_stores := take k (wk_stores s) @ later\<rparr>)
          else None)"

definition commit_read :: "weak \<Rightarrow> weak option" where
  "commit_read s =
     (case wk_reads s of
        [] \<Rightarrow> None
      | r # rs \<Rightarrow> do {
          rb \<leftarrow> ringbuf_publish_read (wk_memory s) r;
          Some (s\<lparr>wk_memory := rb, wk_reads := rs\<rparr>) })"

inductive weak_run :: "weak \<Rightarrow> weak \<Rightarrow> bytes list \<Rightarrow> nat \<Rightarrow> bytes list \<Rightarrow> bool"
  for s0 where
  weak_start: "weak_run s0 s0 [] 0 []"
| weak_producer: "weak_run s0 s acc refused got \<Longrightarrow> length p < 4294967296 \<Longrightarrow>
    weak_producer_step p s = Some (ev, s') \<Longrightarrow>
    weak_run s0 s' (case ev of Accepted q \<Rightarrow> acc @ [q] | _ \<Rightarrow> acc)
      (case ev of Refused q \<Rightarrow> Suc refused | _ \<Rightarrow> refused) got"
| weak_consumer: "weak_run s0 s acc refused got \<Longrightarrow> weak_consumer_step s = Some (ev, s') \<Longrightarrow>
    weak_run s0 s' acc refused (case ev of Received q \<Rightarrow> got @ [q] | _ \<Rightarrow> got)"
| weak_commit_store: "weak_run s0 s acc refused got \<Longrightarrow> commit_store k s = Some s' \<Longrightarrow>
    weak_run s0 s' acc refused got"
| weak_commit_read: "weak_run s0 s acc refused got \<Longrightarrow> commit_read s = Some s' \<Longrightarrow>
    weak_run s0 s' acc refused got"

subsection \<open>The ring as each process sees it\<close>

text \<open>
  The consumer's view: memory, with the position it has published last. The producer's view: the same
  with all its buffered stores made. The drop counter plays no part in either.
\<close>

fun advance :: "pending \<Rightarrow> lumbre_ringbuf_t \<Rightarrow> lumbre_ringbuf_t" where
  "advance (Byte i b) rb = rb\<lparr>rb_data := (rb_data rb)[i := b]\<rparr>"
| "advance (Write_pos w) rb =
     rb\<lparr>rb_local_write_pos := w, rb_header := map_option (hdr_write_pos_update (\<lambda>_. w)) (rb_header rb)\<rparr>"

definition consumer_view :: "weak \<Rightarrow> lumbre_ringbuf_t" where
  "consumer_view s = (wk_memory s)\<lparr>
     rb_local_write_pos := rb_write_pos (wk_memory s),
     rb_header := map_option (\<lambda>h. h\<lparr>hdr_read_pos := last (hdr_read_pos h # wk_reads s), hdr_dropped := 0\<rparr>)
       (rb_header (wk_memory s))\<rparr>"

definition producer_view :: "weak \<Rightarrow> lumbre_ringbuf_t" where
  "producer_view s = fold advance (wk_stores s) (consumer_view s)"

text \<open>
  What the buffered stores do to a view that holds \<open>ms\<close>: a byte goes where no unread message is, and
  a position adds the next of the messages \<open>ps\<close>.
\<close>

fun buffer_ok :: "lumbre_ringbuf_t \<Rightarrow> bytes list \<Rightarrow> pending list \<Rightarrow> bytes list \<Rightarrow> bool" where
  "buffer_ok rb ms [] ps \<longleftrightarrow> ps = []"
| "buffer_ok rb ms (Byte i b # es) ps \<longleftrightarrow>
     i < rb_size rb \<and> free_byte rb i \<and> buffer_ok (advance (Byte i b) rb) ms es ps"
| "buffer_ok rb ms (Write_pos w # es) ps \<longleftrightarrow> ps \<noteq> [] \<and>
     rb_used rb \<le> rb_used (advance (Write_pos w) rb) \<and>
     ring_holds (advance (Write_pos w) rb) (ms @ [hd ps]) \<and>
     buffer_ok (advance (Write_pos w) rb) (ms @ [hd ps]) es (tl ps)"

declare advance.simps [simp del]

lemma advance_fields [simp]:
  "rb_size (advance e rb) = rb_size rb" "rb_read_pos (advance e rb) = rb_read_pos rb"
  "rb_mask (advance e rb) = rb_mask rb" "rb_capacity (advance e rb) = rb_capacity rb"
  "length (rb_data (advance e rb)) = length (rb_data rb)"
  "rb_header (advance e rb) = None \<longleftrightarrow> rb_header rb = None"
  by (cases e; simp add: advance.simps rb_size_def rb_read_pos_def split: option.splits)+

lemma fold_advance_fields [simp]:
  "rb_size (fold advance es rb) = rb_size rb" "rb_read_pos (fold advance es rb) = rb_read_pos rb"
  "rb_mask (fold advance es rb) = rb_mask rb" "rb_capacity (fold advance es rb) = rb_capacity rb"
  "length (rb_data (fold advance es rb)) = length (rb_data rb)"
  "rb_header (fold advance es rb) = None \<longleftrightarrow> rb_header rb = None"
  by (induction es arbitrary: rb) simp_all

lemma advance_byte_free [simp]: "free_byte (advance (Byte i b) rb) = free_byte rb"
  "rb_used (advance (Byte i b) rb) = rb_used rb"
  by (auto simp: advance.simps fun_eq_iff free_byte_def ring_byte_def rb_used_def rb_read_pos_def rb_size_def)

lemma free_byte_earlier:
  assumes "free_byte rb' i" and "rb_used rb \<le> rb_used rb'" and "rb_read_pos rb' = rb_read_pos rb"
    and "rb_size rb' = rb_size rb"
  shows "free_byte rb i"
  using assms unfolding free_byte_def ring_byte_def by (metis order_trans)

lemma advance_byte_holds:
  assumes "ring_holds rb ms" and "free_byte rb i" and "i < rb_size rb"
  shows "ring_holds (advance (Byte i b) rb) ms"
  using free_store_holds [OF assms] by (simp add: advance.simps)

lemma advance_commute:
  assumes "case e of Byte j _ \<Rightarrow> j \<noteq> i | _ \<Rightarrow> True"
  shows "advance (Byte i b) (advance e rb) = advance e (advance (Byte i b) rb)"
  using assms by (cases e) (simp_all add: advance.simps list_update_swap)

lemma fold_advance_commute:
  assumes "may_commit xs (Byte i b)"
  shows "fold advance xs (advance (Byte i b) rb) = advance (Byte i b) (fold advance xs rb)"
  using assms
proof (induction xs arbitrary: rb)
  case (Cons e xs)
  then show ?case using advance_commute [where e = e and i = i, symmetric] by simp
qed simp

subsection \<open>Buffers that grow and shrink\<close>

lemma buffer_ok_append:
  assumes "buffer_ok rb ms es ps" and "buffer_ok (fold advance es rb) (ms @ ps) fs qs"
  shows "buffer_ok rb ms (es @ fs) (ps @ qs)"
  using assms
proof (induction rb ms es ps rule: buffer_ok.induct)
  case (3 rb ms w es ps)
  then show ?case by (cases ps) simp_all
qed simp_all

lemma buffer_ok_holds:
  assumes "buffer_ok rb ms es ps" and "ring_holds rb ms"
  shows "ring_holds (fold advance es rb) (ms @ ps)" and "rb_used rb \<le> rb_used (fold advance es rb)"
  using assms
proof (induction rb ms es ps rule: buffer_ok.induct)
  case (2 rb ms i b es ps)
  {
    case 1
    then show ?case using 2 advance_byte_holds [of rb ms i b] by simp
  next
    case 2
    then show ?case using "2.IH" advance_byte_holds [of rb ms i b] by simp
  }
next
  case (3 rb ms w es ps)
  {
    case 1
    then show ?case using 3 by (cases ps) simp_all
  next
    case 2
    then show ?case using "3.IH" by (cases ps) simp_all
  }
qed simp_all

text \<open>A byte that reaches memory before the stores in front of it.\<close>

lemma buffer_ok_byte_free:
  assumes "buffer_ok rb ms (xs @ Byte i b # ys) ps"
  shows "free_byte rb i" and "i < rb_size rb"
proof -
  have "free_byte rb i \<and> i < rb_size rb"
    using assms
  proof (induction rb ms xs ps rule: buffer_ok.induct)
    case (3 rb ms w es ps)
    then have "free_byte (advance (Write_pos w) rb) i" "rb_used rb \<le> rb_used (advance (Write_pos w) rb)"
      and "i < rb_size rb"
      by auto
    then show ?case using free_byte_earlier [of "advance (Write_pos w) rb" i rb] by simp
  qed auto
  then show "free_byte rb i" "i < rb_size rb" by simp_all
qed

lemma buffer_ok_byte_out:
  assumes "buffer_ok rb ms (xs @ Byte i b # ys) ps" and "may_commit xs (Byte i b)"
  shows "buffer_ok (advance (Byte i b) rb) ms (xs @ ys) ps"
  using assms
proof (induction rb ms xs ps rule: buffer_ok.induct)
  case (2 rb ms j c es ps)
  then have "buffer_ok (advance (Byte i b) (advance (Byte j c) rb)) ms (es @ ys) ps" and "j \<noteq> i"
    by auto
  then show ?case
    using 2 advance_commute [where e = "Byte j c" and i = i] by auto
next
  case (3 rb ms w es ps)
  let ?rb = "advance (Write_pos w) rb"
  have ok: "buffer_ok ?rb (ms @ [hd ps]) (es @ Byte i b # ys) (tl ps)" and "ring_holds ?rb (ms @ [hd ps])"
    and le: "rb_used rb \<le> rb_used ?rb" and ps: "ps \<noteq> []" and m: "may_commit es (Byte i b)"
    using "3.prems" by auto
  then have holds: "ring_holds (advance (Byte i b) ?rb) (ms @ [hd ps])"
    using advance_byte_holds buffer_ok_byte_free by blast
  have swap: "advance (Byte i b) ?rb = advance (Write_pos w) (advance (Byte i b) rb)"
    by (rule advance_commute) simp
  have "rb_used (advance (Byte i b) rb) \<le> rb_used (advance (Byte i b) ?rb)"
    using le by (simp only: advance_byte_free)
  then show ?case
    using "3.IH" [OF ok m] holds ps unfolding swap by simp
qed simp

text \<open>The consumer frees the space of the message it has taken.\<close>

definition set_read :: "u64 \<Rightarrow> lumbre_ringbuf_t \<Rightarrow> lumbre_ringbuf_t" where
  "set_read r rb = rb\<lparr>rb_header := map_option (hdr_read_pos_update (\<lambda>_. r)) (rb_header rb)\<rparr>"

lemma set_read_publish:
  "rb_header rb \<noteq> None \<Longrightarrow> ringbuf_publish_read rb r = Some (set_read r rb)"
  by (auto simp: ringbuf_publish_read_def set_read_def)

lemma set_read_advance: "set_read r (advance e rb) = advance e (set_read r rb)"
  by (cases e; cases "rb_header rb") (simp_all add: set_read_def advance.simps)

lemma set_read_fold_advance: "set_read r (fold advance es rb) = fold advance es (set_read r rb)"
  by (induction es arbitrary: rb) (simp_all add: set_read_advance)

lemma set_read_fields [simp]: "rb_size (set_read r rb) = rb_size rb" "rb_data (set_read r rb) = rb_data rb"
  by (simp_all add: set_read_def rb_size_def)

definition head_cost :: "lumbre_ringbuf_t \<Rightarrow> bytes \<Rightarrow> nat" where
  "head_cost rb m = ring_cost (rb_size rb) (head_offset rb) (4 + length m)"

lemma head_cost_advance [simp]: "head_cost (advance e rb) m = head_cost rb m"
  by (simp add: head_cost_def head_offset_def)

lemma set_read_holds:
  assumes "ring_holds rb (m # ms)" and "r = rb_read_pos rb + of_nat (head_cost rb m)"
  shows "ring_holds (set_read r rb) ms" and "head_cost rb m \<le> rb_used rb"
    and "rb_used (set_read r rb) = rb_used rb - head_cost rb m" and "rb_read_pos (set_read r rb) = r"
proof -
  have "rb_header rb \<noteq> None" using assms(1) by (simp add: ring_holds_def rb_wf_def)
  with publish_read_holds [OF assms(1), folded head_offset_def head_cost_def, folded assms(2)]
  show "ring_holds (set_read r rb) ms" "head_cost rb m \<le> rb_used rb"
    "rb_used (set_read r rb) = rb_used rb - head_cost rb m" "rb_read_pos (set_read r rb) = r"
    by (auto simp: set_read_publish assms(2) head_cost_def)
qed

lemma buffer_ok_set_read:
  assumes "buffer_ok rb (m # ms) es ps" and "ring_holds rb (m # ms)"
    and "r = rb_read_pos rb + of_nat (head_cost rb m)"
  shows "buffer_ok (set_read r rb) ms es ps"
  using assms
proof (induction es arbitrary: rb ms ps)
  case (Cons e es)
  note read = set_read_holds [OF Cons.prems(2,3)]
  have wf: "rb_wf rb" using Cons.prems(2) by (simp add: ring_holds_def)
  have pos: "r = rb_read_pos (advance e rb) + of_nat (head_cost (advance e rb) m)" using Cons.prems(3) by simp
  show ?case
  proof (cases e)
    case (Byte i b)
    then have i: "i < rb_size rb" "free_byte rb i" and ok: "buffer_ok (advance e rb) (m # ms) es ps"
      using Cons.prems(1) by simp_all
    have "free_byte (set_read r rb) i"
      by (rule free_byte_publish [OF wf set_read_fields(1) trans [OF read(4) Cons.prems(3)] read(3,2) i(2)])
    moreover have "buffer_ok (set_read r (advance e rb)) ms es ps"
      using Cons.IH [OF ok _ pos] advance_byte_holds [OF Cons.prems(2) i(2,1)] Byte by simp
    ultimately show ?thesis using i Byte by (simp add: set_read_advance)
  next
    case (Write_pos w)
    let ?rb = "advance e rb"
    have ok: "ps \<noteq> []" "rb_used rb \<le> rb_used ?rb" "ring_holds ?rb (m # (ms @ [hd ps]))"
      "buffer_ok ?rb (m # (ms @ [hd ps])) es (tl ps)"
      using Cons.prems(1) Write_pos by simp_all
    note read' = set_read_holds [OF ok(3) pos]
    have "rb_used (set_read r rb) \<le> rb_used (set_read r ?rb)" using read(3) read'(3) ok(2) by simp
    then show ?thesis
      using ok(1) read'(1) Cons.IH [OF ok(4,3) pos] by (simp add: Write_pos set_read_advance [symmetric])
  qed
qed simp

subsection \<open>The positions in flight\<close>

text \<open>
  The read positions that the producer may still load, oldest first: the one in memory and the
  buffered ones. Their distances from the write position \<open>w\<close> shrink and never exceed a lap.
\<close>

definition positions :: "weak \<Rightarrow> u64 list" where
  "positions s = rb_read_pos (wk_memory s) # wk_reads s"

definition ages_ok :: "u64 \<Rightarrow> nat \<Rightarrow> u64 list \<Rightarrow> bool" where
  "ages_ok w c rs \<longleftrightarrow> rs \<noteq> [] \<and> sorted_wrt (\<lambda>x y. unat (w - y) \<le> unat (w - x)) rs \<and> unat (w - hd rs) \<le> c"

fun reserve_ok :: "u64 \<Rightarrow> nat \<Rightarrow> u64 list \<Rightarrow> producer \<Rightarrow> bool" where
  "reserve_ok w c rs P_idle \<longleftrightarrow> True"
| "reserve_ok w c rs (P_check p r) \<longleftrightarrow> unat (w - hd rs) \<le> unat (w - r) \<and> unat (w - r) \<le> c"
| "reserve_ok w c rs (P_store p ss pos) \<longleftrightarrow> (\<exists>n. pos = w + of_nat n \<and> unat (w - hd rs) + n \<le> c)"

lemma ages_okD:
  assumes "ages_ok w c rs" and "r \<in> set rs"
  shows "unat (w - r) \<le> unat (w - hd rs)" and "unat (w - last rs) \<le> unat (w - r)"
proof -
  obtain x xs where rs: "rs = x # xs" using assms by (cases rs) auto
  then show "unat (w - r) \<le> unat (w - hd rs)" using assms by (auto simp: ages_ok_def)
  have "rs = butlast rs @ [last rs]" using rs by simp
  then have "sorted_wrt (\<lambda>x y. unat (w - y) \<le> unat (w - x)) (butlast rs @ [last rs])"
    and "r \<in> set (butlast rs @ [last rs])"
    using assms by (simp_all add: ages_ok_def)
  then show "unat (w - last rs) \<le> unat (w - r)" by (auto simp: sorted_wrt_append)
qed

lemma ages_ok_snoc:
  assumes "ages_ok w c rs" and "unat (w - r) \<le> unat (w - last rs)"
  shows "ages_ok w c (rs @ [r])"
  using assms ages_okD(2) [OF assms(1)]
  by (auto simp: ages_ok_def sorted_wrt_append intro: order_trans)

lemma ages_ok_tl:
  assumes "ages_ok w c (x # y # rs)"
  shows "ages_ok w c (y # rs)"
  using assms by (auto simp: ages_ok_def)

lemma age_add:
  fixes w r :: u64
  assumes "unat (w - r) + n \<le> c" and "c \<le> 2147483648"
  shows "unat (w + of_nat n - r) = unat (w - r) + n"
proof -
  have n: "unat (of_nat n :: u64) = n" using assms by (simp add: unat_of_nat)
  have "unat ((w - r) + of_nat n) = unat (w - r) + n" using assms n by (simp add: unat_plus)
  then show ?thesis by (simp add: algebra_simps)
qed

lemma ages_ok_advance:
  assumes "ages_ok w c rs" and "unat (w - hd rs) + n \<le> c" and "c \<le> 2147483648"
  shows "ages_ok (w + of_nat n) c rs"
proof -
  have add: "unat (w + of_nat n - r) = unat (w - r) + n" if "r \<in> set rs" for r
    using ages_okD(1) [OF assms(1) that] assms(2,3) by (intro age_add [of _ _ _ c]) simp_all
  have "rs \<noteq> []" using assms(1) by (simp add: ages_ok_def)
  moreover have "sorted_wrt (\<lambda>x y. unat (w + of_nat n - y) \<le> unat (w + of_nat n - x)) rs"
  proof (rule sorted_wrt_mono_rel)
    show "sorted_wrt (\<lambda>x y. unat (w - y) \<le> unat (w - x)) rs" using assms(1) by (simp only: ages_ok_def)
  qed (simp add: add)
  ultimately show ?thesis using assms(2) add by (simp add: ages_ok_def)
qed

text \<open>An admitted message fits, also counted from the old read position.\<close>

lemma plan_reserves:
  assumes wf: "rb_wf rb" and len: "4 + length p \<le> rb_size rb"
    and old: "unat (rb_local_write_pos rb - r) \<le> rb_size rb"
    and plan: "producer_plan rb p r = Some (ss, pos)"
  shows "\<exists>n. pos = rb_local_write_pos rb + of_nat n \<and> unat (rb_local_write_pos rb - r) + n \<le> rb_size rb"
proof -
  have size: "rb_size rb \<le> 2147483648" using rb_size_bounds [OF wf] by simp
  have "unat (of_nat (length p) :: u32) = length p" using len size by (simp add: unat_of_nat)
  then have n: "unat (4 + of_nat (length p) :: u32) = 4 + length p" using len size by (simp add: unat_plus)
  have small: "unat (ucast (a :: u32) :: u64) \<le> 4294967296" for a
    using unat_u32_lt [of a] by (simp add: unat_ucast_up)
  have room: "unat (rb_local_write_pos rb - r) + unat x \<le> rb_size rb"
    if "\<not> ucast (rb_capacity rb) < rb_local_write_pos rb - r + x" "unat x \<le> 8589934592" for x :: u64
  proof -
    have "unat (rb_local_write_pos rb - r + x) = unat (rb_local_write_pos rb - r) + unat x"
      using old size that(2) by (simp add: unat_plus)
    with that(1) show ?thesis by (simp add: word_less_nat_alt not_less rb_size_def unat_ucast_up)
  qed
  have small2: "unat (ucast (a :: u32) :: u64) \<le> 8589934592" for a using small [of a] by simp
  have both: "unat (ucast (a :: u32) + ucast (b :: u32) :: u64) \<le> 8589934592" for a b
    using small [of a] small [of b] by (simp add: unat_plus)
  define x where "x = pos - rb_local_write_pos rb"
  have "unat x \<le> 8589934592" "\<not> ucast (rb_capacity rb) < rb_local_write_pos rb - r + x"
    using plan by (auto simp: x_def producer_plan_def Let_def diff_add_eq add.assoc both small2 split: if_splits)
  from room [OF this(2,1)] show ?thesis by (intro exI [of _ "unat x"]) (simp add: x_def)
qed

subsection \<open>The invariant of the runs\<close>

lemma consumer_view_fields [simp]:
  "rb_data (consumer_view s) = rb_data (wk_memory s)" "rb_mask (consumer_view s) = rb_mask (wk_memory s)"
  "rb_capacity (consumer_view s) = rb_capacity (wk_memory s)" "rb_size (consumer_view s) = rb_size (wk_memory s)"
  "rb_write_pos (consumer_view s) = rb_write_pos (wk_memory s)"
  "rb_local_write_pos (consumer_view s) = rb_write_pos (wk_memory s)"
  "rb_header (consumer_view s) = None \<longleftrightarrow> rb_header (wk_memory s) = None"
  by (simp_all add: consumer_view_def rb_size_def rb_write_pos_def split: option.splits)

lemma consumer_view_read:
  "rb_header (wk_memory s) \<noteq> None \<Longrightarrow> rb_read_pos (consumer_view s) = last (positions s)"
  by (auto simp: consumer_view_def positions_def rb_read_pos_def)

lemma producer_view_fields [simp]:
  "rb_mask (producer_view s) = rb_mask (wk_memory s)" "rb_size (producer_view s) = rb_size (wk_memory s)"
  "rb_capacity (producer_view s) = rb_capacity (wk_memory s)"
  "length (rb_data (producer_view s)) = length (rb_data (wk_memory s))"
  "rb_header (producer_view s) = None \<longleftrightarrow> rb_header (wk_memory s) = None"
  "rb_read_pos (producer_view s) = rb_read_pos (consumer_view s)"
  by (simp_all add: producer_view_def)

text \<open>The views do not depend on where the two programs are, nor on the drop counter.\<close>

lemma view_updates [simp]:
  "consumer_view (s\<lparr>wk_producer := pc\<rparr>) = consumer_view s"
  "consumer_view (s\<lparr>wk_consumer := cc\<rparr>) = consumer_view s"
  "consumer_view (s\<lparr>wk_stores := es\<rparr>) = consumer_view s"
  "consumer_view (s\<lparr>wk_memory := (wk_memory s)\<lparr>rb_local_write_pos := w\<rparr>\<rparr>) = consumer_view s"
  "positions (s\<lparr>wk_producer := pc\<rparr>) = positions s" "positions (s\<lparr>wk_consumer := cc\<rparr>) = positions s"
  "positions (s\<lparr>wk_stores := es\<rparr>) = positions s"
  "positions (s\<lparr>wk_memory := (wk_memory s)\<lparr>rb_local_write_pos := w\<rparr>\<rparr>) = positions s"
  by (simp_all add: consumer_view_def positions_def rb_write_pos_def rb_read_pos_def)

lemma view_drop:
  assumes "count_drop (wk_memory s) = Some rb"
  shows "consumer_view (s\<lparr>wk_memory := rb\<rparr>) = consumer_view s"
    and "positions (s\<lparr>wk_memory := rb\<rparr>) = positions s"
    and "rb_dropped rb = rb_dropped (wk_memory s) + 1" and "rb_local_write_pos rb = rb_local_write_pos (wk_memory s)"
  using assms
  by (auto simp: count_drop_def consumer_view_def positions_def bind_eq_Some_conv rb_write_pos_def rb_read_pos_def
      rb_dropped_def)

text \<open>
  \<open>ms\<close> is what the memory's ring holds for the consumer, \<open>ps\<close> the messages whose publication is
  still buffered.
\<close>

definition weak_ok :: "weak \<Rightarrow> bytes list \<Rightarrow> bytes list \<Rightarrow> bool" where
  "weak_ok s ms ps \<longleftrightarrow>
     ring_holds (consumer_view s) ms \<and> consumer_ok (consumer_view s) ms (wk_consumer s) \<and>
     buffer_ok (consumer_view s) ms (wk_stores s) ps \<and>
     producer_ok (producer_view s) (ms @ ps) (wk_producer s) \<and>
     rb_local_write_pos (producer_view s) = rb_local_write_pos (wk_memory s) \<and>
     ages_ok (rb_local_write_pos (wk_memory s)) (rb_size (wk_memory s)) (positions s) \<and>
     reserve_ok (rb_local_write_pos (wk_memory s)) (rb_size (wk_memory s)) (positions s) (wk_producer s)"

lemma weak_okD:
  assumes "weak_ok s ms ps"
  shows "rb_wf (consumer_view s)" and "rb_header (wk_memory s) \<noteq> None"
    and "ring_holds (producer_view s) (ms @ ps)" and "rb_size (wk_memory s) \<le> 2147483648"
    and "length (rb_data (wk_memory s)) = rb_size (wk_memory s)"
    and "rb_used (producer_view s) = unat (rb_local_write_pos (wk_memory s) - last (positions s))"
proof -
  show wf: "rb_wf (consumer_view s)" using assms by (simp add: weak_ok_def ring_holds_def)
  then show h: "rb_header (wk_memory s) \<noteq> None" by (simp add: rb_wf_def)
  show "ring_holds (producer_view s) (ms @ ps)"
    using assms buffer_ok_holds(1) by (simp add: weak_ok_def producer_view_def)
  show "rb_size (wk_memory s) \<le> 2147483648" using rb_size_bounds [OF wf] by simp
  show "length (rb_data (wk_memory s)) = rb_size (wk_memory s)" using wf by (simp add: rb_wf_def rb_size_def)
  show "rb_used (producer_view s) = unat (rb_local_write_pos (wk_memory s) - last (positions s))"
    using assms consumer_view_read [OF h] by (simp add: weak_ok_def rb_used_def)
qed

text \<open>A store enters the buffer.\<close>

lemma weak_ok_buffer:
  assumes ok: "weak_ok s ms ps"
    and step: "buffer_ok (producer_view s) (ms @ ps) [e] qs"
    and producer: "producer_ok (advance e (producer_view s)) (ms @ ps @ qs) pc"
    and local: "rb_local_write_pos (advance e (producer_view s)) = w"
    and ages: "ages_ok w (rb_size (wk_memory s)) (positions s)"
      "reserve_ok w (rb_size (wk_memory s)) (positions s) pc"
  shows "weak_ok (s\<lparr>wk_memory := (wk_memory s)\<lparr>rb_local_write_pos := w\<rparr>, wk_stores := wk_stores s @ [e],
    wk_producer := pc\<rparr>) ms (ps @ qs)"
proof -
  let ?s = "s\<lparr>wk_memory := (wk_memory s)\<lparr>rb_local_write_pos := w\<rparr>, wk_stores := wk_stores s @ [e], wk_producer := pc\<rparr>"
  have view: "consumer_view ?s = consumer_view s" "positions ?s = positions s"
    by (simp_all add: consumer_view_def positions_def rb_write_pos_def rb_read_pos_def)
  then have "producer_view ?s = advance e (producer_view s)" by (simp add: producer_view_def)
  moreover have "buffer_ok (consumer_view s) ms (wk_stores s @ [e]) (ps @ qs)"
    using ok step by (intro buffer_ok_append) (simp_all add: weak_ok_def producer_view_def)
  ultimately show ?thesis
    using ok producer local ages view by (simp add: weak_ok_def rb_size_def)
qed

lemma weak_ok_drop:
  assumes "weak_ok s ms ps" and "count_drop (wk_memory s) = Some rb"
  shows "weak_ok (s\<lparr>wk_memory := rb, wk_producer := P_idle\<rparr>) ms ps"
proof -
  note d = view_drop [OF assms(2)]
  have "rb_size rb = rb_size (wk_memory s)"
    using assms(2) by (auto simp: count_drop_def bind_eq_Some_conv rb_size_def)
  then show ?thesis using assms(1) d by (simp add: weak_ok_def producer_view_def)
qed

lemma weak_producer_ok:
  assumes ok: "weak_ok s ms ps" and p: "length p < 4294967296"
    and run: "weak_producer_step p s = Some (ev, s')"
  shows "case ev of
      Silent \<Rightarrow> weak_ok s' ms ps \<and> rb_dropped (wk_memory s') = rb_dropped (wk_memory s)
    | Accepted q \<Rightarrow> weak_ok s' ms (ps @ [q]) \<and> rb_dropped (wk_memory s') = rb_dropped (wk_memory s)
    | Refused q \<Rightarrow> weak_ok s' ms ps \<and> rb_dropped (wk_memory s') = rb_dropped (wk_memory s) + 1
    | Received q \<Rightarrow> False"
proof -
  let ?mem = "wk_memory s" and ?view = "producer_view s"
  note facts = weak_okD [OF ok]
  have wf: "rb_wf ?view" using facts(3) by (simp add: ring_holds_def)
  obtain h where h: "rb_header ?mem = Some h" using facts(2) by auto
  have local: "rb_local_write_pos ?view = rb_local_write_pos ?mem"
    and ages: "ages_ok (rb_local_write_pos ?mem) (rb_size ?mem) (positions s)"
    and producer: "producer_ok ?view (ms @ ps) (wk_producer s)"
    and reserve: "reserve_ok (rb_local_write_pos ?mem) (rb_size ?mem) (positions s) (wk_producer s)"
    using ok by (simp_all add: weak_ok_def)
  have plan: "producer_plan ?mem q r = producer_plan ?view q r" for q r
    using local by (simp add: producer_plan_def Let_def)
  have last: "last (positions s) \<in> set (positions s)" by (simp add: positions_def)
  show ?thesis
  proof (cases "wk_producer s")
    case P_idle
    show ?thesis
    proof (cases "rb_capacity ?mem - 4 < of_nat (length p)")
      case True
      then show ?thesis using run P_idle weak_ok_drop [OF ok] view_drop(3) [of s]
        by (auto simp: weak_producer_step_def bind_eq_Some_conv)
    next
      case False
      have "unat (of_nat (length p) :: u32) = length p" using p by (simp add: unat_of_nat)
      from payload_guard [OF wf this] False have "4 + length p \<le> rb_size ?mem" by simp
      moreover have "hd (positions s) = hdr_read_pos h" by (simp add: positions_def rb_read_pos_def h)
      ultimately have "weak_ok (s\<lparr>wk_producer := P_check p (hdr_read_pos h)\<rparr>) ms ps"
        using ok ages ages_okD(1) [OF ages last] facts(6) local by (simp add: weak_ok_def producer_view_def ages_ok_def)
      then show ?thesis using run P_idle False h by (auto simp: weak_producer_step_def)
    qed
  next
    case (P_check q r)
    then have len: "4 + length q \<le> rb_size ?view" using producer by simp
    show ?thesis
    proof (cases "producer_plan ?mem q r")
      case None
      then show ?thesis using run P_check weak_ok_drop [OF ok] view_drop(3) [of s]
        by (auto simp: weak_producer_step_def bind_eq_Some_conv)
    next
      case (Some x)
      then obtain ss pos where x: "producer_plan ?mem q r = Some (ss, pos)" by (cases x) auto
      have "producer_step p ?view (P_check q r) = Some (Silent, ?view, P_store q ss pos)"
        using x by (simp add: plan)
      from producer_step_ok(1) [OF facts(3) _ p this] producer P_check
      have "producer_ok ?view (ms @ ps) (P_store q ss pos)" by simp
      moreover have "reserve_ok (rb_local_write_pos ?mem) (rb_size ?mem) (positions s) (P_store q ss pos)"
        using plan_reserves [OF wf len _ x [unfolded plan]] reserve P_check local by fastforce
      ultimately have "weak_ok (s\<lparr>wk_producer := P_store q ss pos\<rparr>) ms ps"
        using ok by (simp add: weak_ok_def producer_view_def)
      then show ?thesis using run P_check x by (auto simp: weak_producer_step_def)
    qed
  next
    case (P_store q ss pos)
    have mem: "?mem\<lparr>rb_local_write_pos := rb_local_write_pos ?mem\<rparr> = ?mem" by simp
    show ?thesis
    proof (cases ss)
      case Nil
      have "producer_step p ?view (P_store q [] pos) = Some (Accepted q, advance (Write_pos pos) ?view, P_idle)"
        using facts(2) producer_view_fields(5) [of s]
        by (cases "rb_header ?view") (simp_all add: publish_write_def advance.simps)
      from producer_step_ok(1) [OF facts(3) _ p this] producer P_store Nil
      have holds: "ring_holds (advance (Write_pos pos) ?view) ((ms @ ps) @ [q])" by simp
      obtain n where n: "pos = rb_local_write_pos ?mem + of_nat n"
        "unat (rb_local_write_pos ?mem - hd (positions s)) + n \<le> rb_size ?mem"
        using reserve P_store by auto
      have pos: "rb_local_write_pos (advance (Write_pos pos) rb) = pos" for rb by (simp add: advance.simps)
      have "unat (rb_local_write_pos ?mem - last (positions s)) + n \<le> rb_size ?mem"
        using n(2) ages_okD(1) [OF ages last] by simp
      from age_add [OF this facts(4)] have "rb_used ?view \<le> rb_used (advance (Write_pos pos) ?view)"
        using facts(6) consumer_view_read [OF facts(2)] by (simp add: rb_used_def pos [unfolded n(1)] n(1))
      with holds have "buffer_ok ?view (ms @ ps) [Write_pos pos] [q]" by simp
      from weak_ok_buffer [OF ok this _ pos] ages_ok_advance [OF ages n(2) facts(4)] n(1)
      show ?thesis using run P_store Nil by (auto simp: weak_producer_step_def rb_dropped_def)
    next
      case (Cons x ss')
      obtain i b where x: "x = (i, b)" by (cases x)
      have i: "i < rb_size ?mem" and ev: "ev = Silent"
        and s': "s' = s\<lparr>wk_stores := wk_stores s @ [Byte i b], wk_producer := P_store q ss' pos\<rparr>"
        using run P_store facts(5) by (simp_all add: weak_producer_step_def Cons x split: if_splits)
      have "producer_step p ?view (P_store q ((i, b) # ss') pos) =
          Some (Silent, advance (Byte i b) ?view, P_store q ss' pos)"
        using i facts(5) by (simp add: mem_store_byte advance.simps)
      from producer_step_ok(1) [OF facts(3) _ p this] producer P_store
      have "producer_ok (advance (Byte i b) ?view) (ms @ ps) (P_store q ss' pos)" by (simp add: Cons x)
      moreover have "buffer_ok ?view (ms @ ps) [Byte i b] []"
        using producer i P_store by (simp add: Cons x)
      ultimately show ?thesis
        using weak_ok_buffer [OF ok, where e = "Byte i b" and qs = "[]" and pc = "P_store q ss' pos"
            and w = "rb_local_write_pos ?mem"] ages reserve local P_store
        by (simp add: ev s' mem advance.simps)
    qed
  qed
qed

lemma consumer_step_view:
  assumes "\<And>m pos. pc \<noteq> C_publish m pos"
  shows "consumer_step (consumer_view s) pc =
    map_option (\<lambda>(ev, rb, pc). (ev, consumer_view s, pc)) (consumer_step (wk_memory s) pc)"
    and "consumer_step (wk_memory s) pc = Some (ev, rb, pc') \<Longrightarrow> ev = Silent \<and> rb = wk_memory s"
proof -
  show "consumer_step (consumer_view s) pc =
    map_option (\<lambda>(ev, rb, pc). (ev, consumer_view s, pc)) (consumer_step (wk_memory s) pc)"
  proof (cases pc)
    case (C_poll pos)
    then show ?thesis by (cases "rb_header (wk_memory s)") (simp_all add: consumer_view_def)
  qed (use assms in \<open>auto simp: Let_def split: bind_splits\<close>)
  show "consumer_step (wk_memory s) pc = Some (ev, rb, pc') \<Longrightarrow> ev = Silent \<and> rb = wk_memory s"
    using assms by (cases pc) (auto simp: Let_def bind_eq_Some_conv)
qed

lemma weak_consumer_plain:
  assumes "\<And>m pos. wk_consumer s \<noteq> C_publish m pos"
  shows "weak_consumer_step s = do {
    (ev, rb, pc) \<leftarrow> consumer_step (wk_memory s) (wk_consumer s);
    Some (ev, s\<lparr>wk_memory := rb, wk_consumer := pc\<rparr>) }"
  by (cases "wk_consumer s") (simp_all add: weak_consumer_step_def assms)

lemma weak_consumer_ok:
  assumes ok: "weak_ok s ms ps"
  shows "\<exists>ev s'. weak_consumer_step s = Some (ev, s') \<and> rb_dropped (wk_memory s') = rb_dropped (wk_memory s) \<and>
    (ev = Silent \<and> weak_ok s' ms ps \<or> (\<exists>m ms'. ev = Received m \<and> ms = m # ms' \<and> weak_ok s' ms' ps))"
proof -
  note facts = weak_okD [OF ok]
  have holds: "ring_holds (consumer_view s) ms" and consumer: "consumer_ok (consumer_view s) ms (wk_consumer s)"
    using ok by (simp_all add: weak_ok_def)
  show ?thesis
  proof (cases "\<exists>m pos. wk_consumer s = C_publish m pos")
    case False
    then have np: "\<And>m pos. wk_consumer s \<noteq> C_publish m pos" by blast
    note ws = weak_consumer_plain [OF np]
    obtain ev rb pc where step: "consumer_step (wk_memory s) (wk_consumer s) = Some (ev, rb, pc)"
      using consumer_step_ok [OF holds consumer] consumer_step_view(1) [OF np, of s] by auto
    then have same: "ev = Silent" "rb = wk_memory s" using consumer_step_view(2) [OF np] by blast+
    then have "consumer_ok (consumer_view s) ms pc"
      using consumer_step_ok [OF holds consumer] consumer_step_view(1) [OF np, of s] step by auto
    then have "weak_ok (s\<lparr>wk_consumer := pc\<rparr>) ms ps"
      using ok by (simp add: weak_ok_def producer_view_def)
    then show ?thesis using step same by (simp add: ws)
  next
    case True
    then obtain m pos where pc: "wk_consumer s = C_publish m pos" by blast
    then obtain ms' where ms: "ms = m # ms'" and pos: "pos = rb_read_pos (consumer_view s) +
        of_nat (head_cost (consumer_view s) m)"
      using consumer by (cases ms) (auto simp: head_cost_def)
    let ?s = "s\<lparr>wk_reads := wk_reads s @ [pos], wk_consumer := C_poll pos\<rparr>"
    note read = set_read_holds [OF holds [unfolded ms] pos]
    have view: "consumer_view (s\<lparr>wk_reads := wk_reads s @ [pos]\<rparr>) = set_read pos (consumer_view s)"
      using facts(2) by (auto simp: consumer_view_def set_read_def rb_write_pos_def)
    then have pview: "producer_view ?s = set_read pos (producer_view s)"
      by (simp add: producer_view_def set_read_fold_advance)
    have pos': "pos = rb_read_pos (producer_view s) + of_nat (head_cost (producer_view s) m)"
      using pos by (simp add: head_cost_def head_offset_def)
    note read' = set_read_holds [OF facts(3) [unfolded ms append_Cons] pos']
    have "rb_header (producer_view s) \<noteq> None" using facts(2) by simp
    note pub = consumer_publish_ok(2) [OF facts(3) [unfolded ms append_Cons], of "wk_producer s",
        folded head_cost_def, folded pos', OF _ set_read_publish [OF this]]
    have local: "rb_local_write_pos (set_read pos (producer_view s)) = rb_local_write_pos (wk_memory s)"
      using ok by (simp add: weak_ok_def set_read_def)
    have "unat (rb_local_write_pos (wk_memory s) - pos) \<le> unat (rb_local_write_pos (wk_memory s) - last (positions s))"
      using read'(3,4) local facts(6) by (simp add: rb_used_def)
    then have "ages_ok (rb_local_write_pos (wk_memory s)) (rb_size (wk_memory s)) (positions s @ [pos])"
      using ok by (intro ages_ok_snoc) (simp_all add: weak_ok_def)
    moreover have "positions ?s = positions s @ [pos]" by (simp add: positions_def)
    moreover have "reserve_ok w c (positions s @ [pos]) pc = reserve_ok w c (positions s) pc" for w c pc
      by (cases pc) (simp_all add: positions_def)
    moreover have "buffer_ok (set_read pos (consumer_view s)) ms' (wk_stores s) ps"
      using ok holds pos by (intro buffer_ok_set_read) (simp_all add: weak_ok_def ms)
    ultimately have "weak_ok ?s ms' ps"
      using ok read read' pub local by (simp add: weak_ok_def view pview ms)
    then show ?thesis using pc by (simp add: weak_consumer_step_def ms)
  qed
qed

lemma commit_read_ok:
  assumes ok: "weak_ok s ms ps" and commit: "commit_read s = Some s'"
  shows "weak_ok s' ms ps" and "rb_dropped (wk_memory s') = rb_dropped (wk_memory s)"
proof -
  note facts = weak_okD [OF ok]
  obtain r rs where reads: "wk_reads s = r # rs" using commit by (auto simp: commit_read_def split: list.splits)
  then have s': "s' = s\<lparr>wk_memory := set_read r (wk_memory s), wk_reads := rs\<rparr>"
    using commit by (simp add: commit_read_def set_read_publish [OF facts(2)])
  show "rb_dropped (wk_memory s') = rb_dropped (wk_memory s)"
    by (auto simp: s' set_read_def rb_dropped_def split: option.splits)
  have view: "consumer_view s' = consumer_view s"
    using facts(2) by (auto simp: consumer_view_def s' reads set_read_def rb_write_pos_def)
  then have pview: "producer_view s' = producer_view s" by (simp add: producer_view_def s')
  have pos: "positions s = rb_read_pos (wk_memory s) # r # rs" "positions s' = r # rs"
    using facts(2) by (auto simp: positions_def reads s' set_read_def rb_read_pos_def)
  let ?w = "rb_local_write_pos (wk_memory s)" and ?c = "rb_size (wk_memory s)"
  have ages: "ages_ok ?w ?c (positions s)" using ok by (simp add: weak_ok_def)
  then have "unat (?w - r) \<le> unat (?w - rb_read_pos (wk_memory s))" by (simp add: pos ages_ok_def)
  then have "reserve_ok ?w ?c (positions s) pc \<Longrightarrow> reserve_ok ?w ?c (positions s') pc" for pc
    by (cases pc) (fastforce simp: pos)+
  moreover have "ages_ok ?w ?c (positions s')" using ages_ok_tl [OF ages [unfolded pos(1)]] by (simp add: pos)
  ultimately show "weak_ok s' ms ps"
    using ok view pview by (simp add: weak_ok_def) (simp add: s' set_read_def rb_size_def)
qed

lemma commit_view:
  assumes "rb_header (wk_memory s) \<noteq> None"
  shows "consumer_view (s\<lparr>wk_memory := commit e (wk_memory s), wk_stores := es\<rparr>) = advance e (consumer_view s)"
    and "positions (s\<lparr>wk_memory := commit e (wk_memory s), wk_stores := es\<rparr>) = positions s"
    and "rb_local_write_pos (commit e (wk_memory s)) = rb_local_write_pos (wk_memory s)"
    and "rb_size (commit e (wk_memory s)) = rb_size (wk_memory s)"
    and "rb_dropped (commit e (wk_memory s)) = rb_dropped (wk_memory s)"
  using assms
  by (cases e; auto simp: consumer_view_def advance.simps rb_write_pos_def positions_def rb_read_pos_def
      rb_size_def rb_dropped_def)+

lemma commit_store_ok:
  assumes ok: "weak_ok s ms ps" and commit: "commit_store k s = Some s'"
  shows "\<exists>ms' ps'. ms' @ ps' = ms @ ps \<and> weak_ok s' ms' ps'"
    and "rb_dropped (wk_memory s') = rb_dropped (wk_memory s)"
proof -
  note facts = weak_okD [OF ok]
  define xs where "xs = take k (wk_stores s)"
  obtain e ys where drop: "drop k (wk_stores s) = e # ys" and may: "may_commit xs e"
    and s': "s' = s\<lparr>wk_memory := commit e (wk_memory s), wk_stores := xs @ ys\<rparr>"
    using commit by (auto simp: commit_store_def xs_def split: list.splits if_splits)
  note view = commit_view(1,2) [OF facts(2), where e = e and es = "xs @ ys", folded s']
    commit_view(3-5) [OF facts(2), where e = e]
  show "rb_dropped (wk_memory s') = rb_dropped (wk_memory s)" using view(5) by (simp add: s')
  have stores: "wk_stores s = xs @ e # ys"
    using append_take_drop_id [of k "wk_stores s"] by (simp add: drop xs_def)
  have buffer: "buffer_ok (consumer_view s) ms (xs @ e # ys) ps" and holds: "ring_holds (consumer_view s) ms"
    and consumer: "consumer_ok (consumer_view s) ms (wk_consumer s)"
    using ok by (simp_all add: weak_ok_def stores)
  have c: "consumer_ok (advance e (consumer_view s)) ms' (wk_consumer s)" if "ms' = ms \<or> ms' = ms @ [q]" for ms' q
    by (rule consumer_ok_producer [OF consumer _ _ that]) simp_all
  have rest: "weak_ok s' ms' ps'" if "ring_holds (advance e (consumer_view s)) ms'" "ms' @ ps' = ms @ ps"
    "buffer_ok (advance e (consumer_view s)) ms' (xs @ ys) ps'" "ms' = ms \<or> ms' = ms @ [q]"
    "producer_view s' = producer_view s" for ms' ps' q
    using ok that c [OF that(4)] view by (simp add: weak_ok_def) (simp add: s')
  show "\<exists>ms' ps'. ms' @ ps' = ms @ ps \<and> weak_ok s' ms' ps'"
  proof (cases e)
    case (Byte i b)
    have "producer_view s' = producer_view s"
      using fold_advance_commute [of xs i b "consumer_view s"] may view(1) stores
      by (simp add: producer_view_def Byte) (simp add: s')
    then have "weak_ok s' ms ps"
      using buffer_ok_byte_out [of "consumer_view s" ms xs i b ys ps] buffer_ok_byte_free [of "consumer_view s" ms xs i b ys ps]
        buffer holds may advance_byte_holds Byte
      by (intro rest) simp_all
    then show ?thesis by blast
  next
    case (Write_pos w)
    then have xs: "xs = []" using may by simp
    then have ps: "ps \<noteq> []" "ring_holds (advance e (consumer_view s)) (ms @ [hd ps])"
      "buffer_ok (advance e (consumer_view s)) (ms @ [hd ps]) ys (tl ps)"
      using buffer Write_pos by simp_all
    have "producer_view s' = producer_view s"
      using view(1) stores by (simp add: producer_view_def xs) (simp add: s' xs)
    then have "weak_ok s' (ms @ [hd ps]) (tl ps)" using ps xs by (intro rest) simp_all
    then show ?thesis using ps(1) by (intro exI [of _ "ms @ [hd ps]"] exI [of _ "tl ps"]) simp
  qed
qed

lemma weak_invariant:
  assumes "weak_run s0 s acc refused got" and "weak_ok s0 [] []"
  shows "\<exists>ms ps. acc = got @ ms @ ps \<and> weak_ok s ms ps \<and>
    rb_dropped (wk_memory s) = rb_dropped (wk_memory s0) + of_nat refused"
  using assms
proof (induction rule: weak_run.induct)
  case weak_start
  then show ?case by simp
next
  case (weak_producer s acc refused got p ev s')
  then obtain ms ps where *: "acc = got @ ms @ ps" "weak_ok s ms ps"
    "rb_dropped (wk_memory s) = rb_dropped (wk_memory s0) + of_nat refused" by blast
  show ?case
  proof (cases ev)
    case (Accepted q)
    then show ?thesis using weak_producer_ok [OF *(2) weak_producer.hyps(2,3)] *(1,3)
      by (intro exI [of _ ms] exI [of _ "ps @ [q]"]) simp
  qed (use weak_producer_ok [OF *(2) weak_producer.hyps(2,3)] *(1,3) in auto)
next
  case (weak_consumer s acc refused got ev s')
  then obtain ms ps where *: "acc = got @ ms @ ps" "weak_ok s ms ps"
    "rb_dropped (wk_memory s) = rb_dropped (wk_memory s0) + of_nat refused" by blast
  from weak_consumer_ok [OF *(2)] weak_consumer.hyps(2)
  consider "ev = Silent" "weak_ok s' ms ps" "rb_dropped (wk_memory s') = rb_dropped (wk_memory s)"
    | m ms' where "ev = Received m" "ms = m # ms'" "weak_ok s' ms' ps"
      "rb_dropped (wk_memory s') = rb_dropped (wk_memory s)"
    by auto
  then show ?case using *(1,3) by cases auto
next
  case (weak_commit_store s acc refused got k s')
  then obtain ms ps where *: "acc = got @ ms @ ps" "weak_ok s ms ps"
    "rb_dropped (wk_memory s) = rb_dropped (wk_memory s0) + of_nat refused" by blast
  from commit_store_ok [OF *(2) weak_commit_store.hyps(2)] *(1,3) show ?case by metis
next
  case (weak_commit_read s acc refused got s')
  then obtain ms ps where *: "acc = got @ ms @ ps" "weak_ok s ms ps"
    "rb_dropped (wk_memory s) = rb_dropped (wk_memory s0) + of_nat refused" by blast
  from commit_read_ok [OF *(2) weak_commit_read.hyps(2)] *(1,3) show ?case by auto
qed

definition weak_start_state :: "lumbre_ringbuf_t \<Rightarrow> weak" where
  "weak_start_state rb = \<lparr>wk_memory = rb, wk_stores = [], wk_reads = [], wk_producer = P_idle,
     wk_consumer = C_poll (rb_read_pos rb)\<rparr>"

lemma weak_start_ok:
  assumes "ring_holds rb ms"
  shows "weak_ok (weak_start_state rb) ms []"
proof -
  obtain h where h: "rb_header rb = Some h" using assms by (auto simp: ring_holds_def rb_wf_def)
  have *: "rb_write_pos rb = rb_local_write_pos rb" "rb_used rb \<le> rb_size rb"
    using assms by (simp_all add: ring_holds_def)
  have "consumer_view (weak_start_state rb) = rb\<lparr>rb_header := Some (h\<lparr>hdr_dropped := 0\<rparr>)\<rparr>"
    using * by (simp add: consumer_view_def weak_start_state_def h)
  then have holds: "ring_holds (consumer_view (weak_start_state rb)) ms"
    using ring_holds_drop [OF assms h] by simp
  have "rb_read_pos (consumer_view (weak_start_state rb)) = rb_read_pos rb"
    by (simp add: consumer_view_def weak_start_state_def h rb_read_pos_def)
  with holds * show ?thesis
    by (simp add: weak_ok_def) (simp add: weak_start_state_def producer_view_def ages_ok_def positions_def rb_used_def)
qed

text \<open>When nothing is buffered, the ring in memory is the ring of the views.\<close>

lemma weak_drained:
  assumes ok: "weak_ok s ms ps" and "wk_stores s = []" and "wk_reads s = []"
  shows "ps = []" and "ring_holds (wk_memory s) ms"
proof -
  note facts = weak_okD [OF ok]
  obtain h where h: "rb_header (wk_memory s) = Some h" using facts(2) by auto
  have "rb_local_write_pos (wk_memory s) = rb_write_pos (wk_memory s)"
    using ok assms(2) by (simp add: weak_ok_def producer_view_def)
  then have "consumer_view s = (wk_memory s)\<lparr>rb_header := Some (h\<lparr>hdr_dropped := 0\<rparr>)\<rparr>"
    using assms(3) by (simp add: consumer_view_def h)
  then have "ring_holds ((wk_memory s)\<lparr>rb_header := Some (h\<lparr>hdr_dropped := 0\<rparr>)\<rparr>) ms"
    using ok by (simp add: weak_ok_def)
  from ring_holds_drop [OF this, of "h\<lparr>hdr_dropped := 0\<rparr>" "hdr_dropped h"]
  moreover have "(wk_memory s)\<lparr>rb_header := Some h\<rparr> = wk_memory s" using h by simp
  ultimately show "ring_holds (wk_memory s) ms" by simp
  show "ps = []" using ok assms(2) by (simp add: weak_ok_def)
qed

subsection \<open>The interleaving model is the case in which every store commits at once\<close>

definition unbuffered :: "spsc \<Rightarrow> weak" where
  "unbuffered s = \<lparr>wk_memory = sp_ring s, wk_stores = [], wk_reads = [], wk_producer = sp_producer s,
     wk_consumer = sp_consumer s\<rparr>"

lemma producer_step_unbuffered:
  assumes "producer_step p (sp_ring s) (sp_producer s) = Some (ev, rb, pc)"
  shows "\<exists>s'. weak_producer_step p (unbuffered s) = Some (ev, s') \<and>
    (s' = unbuffered (s\<lparr>sp_ring := rb, sp_producer := pc\<rparr>) \<or>
     commit_store 0 s' = Some (unbuffered (s\<lparr>sp_ring := rb, sp_producer := pc\<rparr>)))"
proof (cases "sp_producer s")
  case (P_store q ss pos)
  show ?thesis
  proof (cases ss)
    case Nil
    then show ?thesis using assms P_store
      by (auto simp: weak_producer_step_def unbuffered_def publish_write_def bind_eq_Some_conv commit_store_def)
  next
    case (Cons x ss')
    obtain i b where "x = (i, b)" by (cases x)
    then show ?thesis using assms P_store Cons
      by (auto simp: weak_producer_step_def unbuffered_def mem_store_byte bind_eq_Some_conv commit_store_def
          split: if_splits)
  qed
qed (use assms in \<open>auto simp: weak_producer_step_def unbuffered_def\<close>)

lemma consumer_step_unbuffered:
  assumes "consumer_step (sp_ring s) (sp_consumer s) = Some (ev, rb, pc)"
  shows "\<exists>s'. weak_consumer_step (unbuffered s) = Some (ev, s') \<and>
    (s' = unbuffered (s\<lparr>sp_ring := rb, sp_consumer := pc\<rparr>) \<or>
     commit_read s' = Some (unbuffered (s\<lparr>sp_ring := rb, sp_consumer := pc\<rparr>)))"
proof (cases "\<exists>m pos. sp_consumer s = C_publish m pos")
  case True
  then show ?thesis using assms
    by (auto simp: weak_consumer_step_def unbuffered_def bind_eq_Some_conv commit_read_def)
next
  case False
  then have np: "\<And>m pos. sp_consumer s \<noteq> C_publish m pos" by blast
  with assms show ?thesis
    using weak_consumer_plain [of "unbuffered s"] by (simp add: unbuffered_def)
qed

lemma spsc_run_is_weak_run:
  "spsc_run s0 s acc refused got \<Longrightarrow> weak_run (unbuffered s0) (unbuffered s) acc refused got"
proof (induction rule: spsc_run.induct)
  case spsc_start
  then show ?case by (rule weak_start)
next
  case (spsc_producer s acc refused got p ev rb pc)
  obtain s' where s': "weak_producer_step p (unbuffered s) = Some (ev, s')"
    "s' = unbuffered (s\<lparr>sp_ring := rb, sp_producer := pc\<rparr>) \<or>
     commit_store 0 s' = Some (unbuffered (s\<lparr>sp_ring := rb, sp_producer := pc\<rparr>))"
    using producer_step_unbuffered [OF spsc_producer.hyps(3)] by blast
  note run = weak_producer [OF spsc_producer.IH spsc_producer.hyps(2) s'(1)]
  from s'(2) show ?case
  proof
    assume "s' = unbuffered (s\<lparr>sp_ring := rb, sp_producer := pc\<rparr>)"
    with run show ?thesis by simp
  next
    assume "commit_store 0 s' = Some (unbuffered (s\<lparr>sp_ring := rb, sp_producer := pc\<rparr>))"
    from weak_commit_store [OF run this] show ?thesis .
  qed
next
  case (spsc_consumer s acc refused got ev rb pc)
  obtain s' where s': "weak_consumer_step (unbuffered s) = Some (ev, s')"
    "s' = unbuffered (s\<lparr>sp_ring := rb, sp_consumer := pc\<rparr>) \<or>
     commit_read s' = Some (unbuffered (s\<lparr>sp_ring := rb, sp_consumer := pc\<rparr>))"
    using consumer_step_unbuffered [OF spsc_consumer.hyps(2)] by blast
  note run = weak_consumer [OF spsc_consumer.IH s'(1)]
  from s'(2) show ?case
  proof
    assume "s' = unbuffered (s\<lparr>sp_ring := rb, sp_consumer := pc\<rparr>)"
    with run show ?thesis by simp
  next
    assume "commit_read s' = Some (unbuffered (s\<lparr>sp_ring := rb, sp_consumer := pc\<rparr>))"
    from weak_commit_read [OF run this] show ?thesis .
  qed
qed

subsection \<open>Runs along a schedule\<close>

datatype move = Produce bytes | Consume | Commit nat | Commit_read

fun weak_exec ::
  "move list \<Rightarrow> weak \<times> bytes list \<times> nat \<times> bytes list \<Rightarrow> (weak \<times> bytes list \<times> nat \<times> bytes list) option" where
  "weak_exec [] x = Some x"
| "weak_exec (Produce p # ms) (s, acc, refused, got) = do {
     (ev, s) \<leftarrow> weak_producer_step p s;
     weak_exec ms (s, (case ev of Accepted q \<Rightarrow> acc @ [q] | _ \<Rightarrow> acc),
       (case ev of Refused q \<Rightarrow> Suc refused | _ \<Rightarrow> refused), got) }"
| "weak_exec (Consume # ms) (s, acc, refused, got) = do {
     (ev, s) \<leftarrow> weak_consumer_step s;
     weak_exec ms (s, acc, refused, (case ev of Received q \<Rightarrow> got @ [q] | _ \<Rightarrow> got)) }"
| "weak_exec (Commit k # ms) (s, x) = do { s \<leftarrow> commit_store k s; weak_exec ms (s, x) }"
| "weak_exec (Commit_read # ms) (s, x) = do { s \<leftarrow> commit_read s; weak_exec ms (s, x) }"

lemma weak_exec_run:
  assumes "weak_exec ms x = Some (s', acc', refused', got')"
    and "case x of (s, acc, refused, got) \<Rightarrow> weak_run s0 s acc refused got"
    and "\<forall>p. Produce p \<in> set ms \<longrightarrow> length p < 4294967296"
  shows "weak_run s0 s' acc' refused' got'"
  using assms
proof (induction ms x rule: weak_exec.induct)
  case (2 p ms s acc refused got)
  then obtain ev t where step: "weak_producer_step p s = Some (ev, t)" by (auto simp: bind_eq_Some_conv)
  have run: "weak_run s0 s acc refused got" and p: "length p < 4294967296" using "2.prems" by simp_all
  show ?case
    using "2.prems"(1,3) weak_producer [OF run p step] by (intro "2.IH" [OF step refl]) (simp_all add: step)
next
  case (3 ms s acc refused got)
  then obtain ev t where step: "weak_consumer_step s = Some (ev, t)" by (auto simp: bind_eq_Some_conv)
  have run: "weak_run s0 s acc refused got" using "3.prems" by simp
  show ?case
    using "3.prems"(1,3) weak_consumer [OF run step] by (intro "3.IH" [OF step refl]) (simp_all add: step)
next
  case (4 k ms s x)
  then obtain t where step: "commit_store k s = Some t" by (auto simp: bind_eq_Some_conv)
  show ?case
    using "4.prems" weak_commit_store [OF _ step] by (intro "4.IH" [OF step]) (auto simp: step)
next
  case (5 ms s x)
  then obtain t where step: "commit_read s = Some t" by (auto simp: bind_eq_Some_conv)
  show ?case
    using "5.prems" weak_commit_read [OF _ step] by (intro "5.IH" [OF step]) (auto simp: step)
qed simp

text \<open>
  A schedule on the 16-byte ring. The bytes of the first message commit last one first, the consumer
  polls before its position commits, and reads it after. Two empty messages fill the ring; a third is
  refused, for the consumer's position is still in its buffer, and accepted once it is not: its
  length overwrites the first bytes of the ring while older stores still wait. Then all commit.
\<close>

definition weak_schedule :: "move list" where
  "weak_schedule =
     map Produce (replicate 10 [1, 2, 3, 4]) @ map Commit [7, 6, 5, 4, 3, 2, 1, 0] @ [Produce [], Consume, Commit 0] @
     replicate 4 Consume @ map Produce (replicate 14 []) @ map Produce (replicate 2 []) @ [Commit_read] @
     map Produce (replicate 6 []) @ map Commit [10, 0] @ [Produce []] @ map Commit (replicate 13 0)"

lemma weak_schedule_result:
  "map_option (\<lambda>(s, x). (wk_stores s, wk_reads s, x)) (weak_exec weak_schedule (weak_start_state sample_ring, [], 0, [])) =
    Some ([], [], [[1, 2, 3, 4], [], [], []], 1, [[1, 2, 3, 4]])"
  by code_simp

lemma weak_schedule_run:
  "\<exists>s. weak_run (weak_start_state sample_ring) s [[1, 2, 3, 4], [], [], []] 1 [[1, 2, 3, 4]] \<and>
     wk_stores s = [] \<and> wk_reads s = []"
proof -
  obtain s where exec: "weak_exec weak_schedule (weak_start_state sample_ring, [], 0, []) =
      Some (s, [[1, 2, 3, 4], [], [], []], 1, [[1, 2, 3, 4]])" and "wk_stores s = []" "wk_reads s = []"
    using weak_schedule_result by auto
  moreover have "weak_run (weak_start_state sample_ring) s [[1, 2, 3, 4], [], [], []] 1 [[1, 2, 3, 4]]"
  proof (rule weak_exec_run [OF exec])
    show "\<forall>p. Produce p \<in> set weak_schedule \<longrightarrow> length p < 4294967296"
      by (auto simp: weak_schedule_def)
  qed (simp add: weak_start)
  ultimately show ?thesis by blast
qed

lemma weak_run_safe_spec:
  assumes run: "weak_run (weak_start_state rb) s acc refused got" and holds: "ring_holds rb []"
  shows "\<exists>ms ps. acc = got @ ms @ ps \<and> ring_holds (consumer_view s) ms \<and>
    rb_dropped (wk_memory s) = rb_dropped rb + of_nat refused \<and> weak_consumer_step s \<noteq> None \<and>
    (wk_stores s = [] \<and> wk_reads s = [] \<longrightarrow> ps = [] \<and> ring_holds (wk_memory s) ms)"
proof -
  obtain ms ps where *: "acc = got @ ms @ ps" "weak_ok s ms ps"
    "rb_dropped (wk_memory s) = rb_dropped (wk_memory (weak_start_state rb)) + of_nat refused"
    using weak_invariant [OF run weak_start_ok [OF holds]] by blast
  have "wk_memory (weak_start_state rb) = rb" by (simp add: weak_start_state_def)
  moreover have "ring_holds (consumer_view s) ms" using *(2) by (simp add: weak_ok_def)
  moreover have "weak_consumer_step s \<noteq> None" using weak_consumer_ok [OF *(2)] by auto
  ultimately show ?thesis using * weak_drained [OF *(2)] by metis
qed

subsection \<open>The producer alone\<close>

text \<open>Memory as it will be when all buffered stores have reached it.\<close>

definition settled :: "weak \<Rightarrow> lumbre_ringbuf_t" where
  "settled s = fold commit (wk_stores s) (wk_memory s)"

lemma commit_fields [simp]:
  "rb_mask (commit e rb) = rb_mask rb" "rb_capacity (commit e rb) = rb_capacity rb"
  "rb_local_write_pos (commit e rb) = rb_local_write_pos rb" "length (rb_data (commit e rb)) = length (rb_data rb)"
  "rb_header (commit e rb) = None \<longleftrightarrow> rb_header rb = None"
  "commit e (rb\<lparr>rb_local_write_pos := w\<rparr>) = (commit e rb)\<lparr>rb_local_write_pos := w\<rparr>"
  by (cases e; cases "rb_header rb"; simp)+

lemma fold_commit_fields [simp]:
  "rb_mask (fold commit es rb) = rb_mask rb" "rb_capacity (fold commit es rb) = rb_capacity rb"
  "rb_local_write_pos (fold commit es rb) = rb_local_write_pos rb"
  "length (rb_data (fold commit es rb)) = length (rb_data rb)"
  "rb_header (fold commit es rb) = None \<longleftrightarrow> rb_header rb = None"
  "fold commit es (rb\<lparr>rb_local_write_pos := w\<rparr>) = (fold commit es rb)\<lparr>rb_local_write_pos := w\<rparr>"
  by (induction es arbitrary: rb) simp_all

lemma count_drop_commit: "count_drop (commit e rb) = map_option (commit e) (count_drop rb)"
  by (cases e; cases "rb_header rb") (simp_all add: count_drop_def)

lemma count_drop_settled:
  "count_drop rb = Some rb' \<Longrightarrow> count_drop (fold commit es rb) = Some (fold commit es rb')"
  by (induction es arbitrary: rb rb') (simp_all add: count_drop_commit)

lemma plan_settled: "producer_plan (fold commit es rb) p r = producer_plan rb p r"
  by (simp only: producer_plan_def fold_commit_fields)

lemma header_settled:
  "rb_header rb = Some h \<Longrightarrow> \<exists>h'. rb_header (fold commit es rb) = Some h' \<and> hdr_read_pos h' = hdr_read_pos h"
proof (induction es arbitrary: rb h)
  case (Cons e es)
  obtain h1 where "rb_header (commit e rb) = Some h1" "hdr_read_pos h1 = hdr_read_pos h"
    using Cons.prems by (cases e) auto
  with Cons.IH [of "commit e rb" h1] show ?case by simp
qed simp

lemma commit_byte_out:
  assumes "may_commit xs (Byte i b)"
  shows "fold commit xs (commit (Byte i b) rb) = commit (Byte i b) (fold commit xs rb)"
  using assms
proof (induction xs arbitrary: rb)
  case (Cons e xs)
  then have "commit e (commit (Byte i b) rb) = commit (Byte i b) (commit e rb)"
    by (cases e) (simp_all add: list_update_swap)
  with Cons show ?case by simp
qed simp

lemma commit_settled:
  assumes "commit_store k s = Some s'"
  shows "settled s' = settled s" and "wk_producer s' = wk_producer s"
    and "rb_header (wk_memory s') = None \<longleftrightarrow> rb_header (wk_memory s) = None"
proof -
  obtain e later where e: "drop k (wk_stores s) = e # later" "may_commit (take k (wk_stores s)) e"
    "s' = s\<lparr>wk_memory := commit e (wk_memory s), wk_stores := take k (wk_stores s) @ later\<rparr>"
    using assms by (auto simp: commit_store_def split: list.splits if_splits)
  have "wk_stores s = take k (wk_stores s) @ e # later" using e(1) by (metis append_take_drop_id)
  then have "settled s = fold commit later (commit e (fold commit (take k (wk_stores s)) (wk_memory s)))"
    by (metis settled_def fold_append comp_apply fold_simps(2))
  moreover have "fold commit (take k (wk_stores s)) (commit e (wk_memory s)) =
      commit e (fold commit (take k (wk_stores s)) (wk_memory s))"
    using e(2) commit_byte_out by (cases e) auto
  ultimately show "settled s' = settled s" by (simp add: e(3) settled_def)
  show "wk_producer s' = wk_producer s" "rb_header (wk_memory s') = None \<longleftrightarrow> rb_header (wk_memory s) = None"
    by (simp_all add: e(3))
qed

text \<open>In settled memory, the buffered producer makes the steps of the plain one.\<close>

lemma producer_settled:
  assumes "weak_producer_step p s = Some (ev, s')" and "rb_header (wk_memory s) \<noteq> None"
  shows "producer_step p (settled s) (wk_producer s) = Some (ev, settled s', wk_producer s') \<and>
    rb_header (wk_memory s') \<noteq> None"
proof (cases "wk_producer s")
  case P_idle
  then show ?thesis
    using assms header_settled [of "wk_memory s" _ "wk_stores s"]
    by (auto simp: weak_producer_step_def settled_def count_drop_settled bind_eq_Some_conv
        split: if_splits) (auto simp: count_drop_def)
next
  case (P_check q r)
  then show ?thesis
    using assms by (auto simp: weak_producer_step_def settled_def count_drop_settled plan_settled bind_eq_Some_conv
        split: option.splits) (auto simp: count_drop_def)
next
  case (P_store q ss pos)
  then show ?thesis
    using assms header_settled [of "wk_memory s" _ "wk_stores s"]
      fold_commit_fields(4) [of "wk_stores s" "wk_memory s"]
    by (cases ss; cases "fold commit (wk_stores s) (wk_memory s)")
      (auto simp: weak_producer_step_def settled_def publish_write_def mem_store_byte bind_eq_Some_conv
        split: if_splits)
qed

text \<open>
  A schedule of the producer and the commits alone. The counts never go down; as long as they stand, a
  producer that is at work stays at work and one that stays idle changes nothing.
\<close>

definition working :: "producer \<Rightarrow> bool" where
  "working pp \<longleftrightarrow> pp \<noteq> P_idle"

lemma producer_working:
  assumes "producer_step p rb pp = Some (ev, rb', pp')"
  shows "case ev of Silent \<Rightarrow> working pp' | Accepted q \<Rightarrow> \<not> working pp' | Refused q \<Rightarrow> \<not> working pp' | Received q \<Rightarrow> False"
  using assms
  by (cases "(p, rb, pp)" rule: producer_step.cases)
    (auto simp: working_def bind_eq_Some_conv split: if_splits option.splits)

lemma alone_silent:
  assumes "weak_exec ms (s, acc, refused, got) = Some (s', acc', refused', got')"
    and "set ms \<subseteq> insert (Produce p) (range Commit)" and "rb_header (wk_memory s) \<noteq> None"
  shows "length acc + refused \<le> length acc' + refused'"
    and "length acc' + refused' = length acc + refused \<Longrightarrow> \<not> working (wk_producer s') \<Longrightarrow>
      settled s' = settled s \<and> acc' = acc \<and> refused' = refused \<and> \<not> working (wk_producer s)"
proof -
  have "length acc + refused \<le> length acc' + refused' \<and>
    (length acc' + refused' = length acc + refused \<longrightarrow> \<not> working (wk_producer s') \<longrightarrow>
      settled s' = settled s \<and> acc' = acc \<and> refused' = refused \<and> \<not> working (wk_producer s))"
    using assms
  proof (induction ms arbitrary: s acc refused got)
    case (Cons m ms)
    from Cons.prems(2) consider "m = Produce p" | k where "m = Commit k" by auto
    then show ?case
    proof cases
      case 1
      then obtain ev t where step: "weak_producer_step p s = Some (ev, t)"
        and exec: "weak_exec ms (t, (case ev of Accepted q \<Rightarrow> acc @ [q] | _ \<Rightarrow> acc),
          (case ev of Refused q \<Rightarrow> Suc refused | _ \<Rightarrow> refused), got) = Some (s', acc', refused', got')"
        using Cons.prems(1) by (auto simp: bind_eq_Some_conv)
      note t = producer_settled [OF step Cons.prems(3)]
      show ?thesis
        using Cons.IH [OF exec] Cons.prems(2) t producer_working [OF conjunct1 [OF t]]
        by (cases ev) auto
    next
      case 2
      then obtain t where step: "commit_store k s = Some t"
        and exec: "weak_exec ms (t, acc, refused, got) = Some (s', acc', refused', got')"
        using Cons.prems(1) by (auto simp: bind_eq_Some_conv)
      show ?thesis using Cons.IH [OF exec] Cons.prems(2,3) commit_settled [OF step] by simp
    qed
  qed simp
  then show "length acc + refused \<le> length acc' + refused'"
    "length acc' + refused' = length acc + refused \<Longrightarrow> \<not> working (wk_producer s') \<Longrightarrow>
      settled s' = settled s \<and> acc' = acc \<and> refused' = refused \<and> \<not> working (wk_producer s)"
    by blast+
qed

lemma producer_carries:
  assumes "producer_step p rb pp = Some (ev, rb', pp')" and "pp = P_idle \<or> (\<exists>r. pp = P_check p r) \<or> (\<exists>ss w. pp = P_store p ss w)"
  shows "case ev of Silent \<Rightarrow> (\<exists>r. pp' = P_check p r) \<or> (\<exists>ss w. pp' = P_store p ss w)
    | Accepted q \<Rightarrow> q = p | Refused q \<Rightarrow> q = p | Received q \<Rightarrow> False"
  using assms
  by (cases "(p, rb, pp)" rule: producer_step.cases)
    (auto simp: bind_eq_Some_conv split: if_splits option.splits)

lemma alone_runs:
  assumes "weak_exec ms (s, acc, refused, got) = Some (s', acc', refused', got')"
    and "set ms \<subseteq> insert (Produce p) (range Commit)" and "rb_header (wk_memory s) \<noteq> None"
    and "length acc' + refused' = Suc (length acc + refused)" and "\<not> working (wk_producer s')"
    and "wk_producer s = P_idle \<or> (\<exists>r. wk_producer s = P_check p r) \<or> (\<exists>ss w. wk_producer s = P_store p ss w)"
  shows "\<exists>n. run_producer n p (settled s) (wk_producer s) =
      Some (Some (if acc' = acc then -1 else 0, settled s')) \<and> (acc' = acc \<or> acc' = acc @ [p])"
  using assms
proof (induction ms arbitrary: s got)
  case (Cons m ms)
  from Cons.prems(2) consider "m = Produce p" | k where "m = Commit k" by auto
  then show ?case
  proof cases
    case 1
    then obtain ev t where step: "weak_producer_step p s = Some (ev, t)"
      and exec: "weak_exec ms (t, (case ev of Accepted q \<Rightarrow> acc @ [q] | _ \<Rightarrow> acc),
        (case ev of Refused q \<Rightarrow> Suc refused | _ \<Rightarrow> refused), got) = Some (s', acc', refused', got')"
      using Cons.prems(1) by (auto simp: bind_eq_Some_conv)
    note t = producer_settled [OF step Cons.prems(3)]
    note carries = producer_carries [OF conjunct1 [OF t] Cons.prems(6)]
    have ms: "set ms \<subseteq> insert (Produce p) (range Commit)" using Cons.prems(2) by simp
    show ?thesis
    proof (cases ev)
      case Silent
      with carries exec Cons.IH [OF _ ms _ Cons.prems(4,5), of t got] t obtain n where
        "run_producer n p (settled t) (wk_producer t) = Some (Some (if acc' = acc then -1 else 0, settled s'))"
        "acc' = acc \<or> acc' = acc @ [p]"
        by auto
      with t Silent show ?thesis by (intro exI [of _ "Suc n"]) simp
    next
      case (Accepted q)
      with alone_silent(2) [OF exec ms] t Cons.prems(4,5) carries show ?thesis
        by (intro exI [of _ "Suc 0"]) simp
    next
      case (Refused q)
      with alone_silent(2) [OF exec ms] t Cons.prems(4,5) carries show ?thesis
        by (intro exI [of _ "Suc 0"]) simp
    qed (use carries in simp)
  next
    case 2
    then obtain t where step: "commit_store k s = Some t"
      and exec: "weak_exec ms (t, acc, refused, got) = Some (s', acc', refused', got')"
      using Cons.prems(1) by (auto simp: bind_eq_Some_conv)
    show ?thesis using Cons.IH [OF exec] Cons.prems(2-6) commit_settled [OF step] by simp
  qed
qed simp

lemma run_producer_more:
  "run_producer n p rb pp = Some r \<Longrightarrow> n \<le> m \<Longrightarrow> run_producer m p rb pp = Some r"
proof (induction n arbitrary: m rb pp)
  case (Suc n)
  then show ?case by (cases m) (auto split: option.splits event.splits)
qed simp

lemma producer_alone_writes:
  assumes exec: "weak_exec ms (weak_start_state rb, [], 0, []) = Some (s, acc, refused, got)"
    and ms: "set ms \<subseteq> insert (Produce p) (range Commit)" and p: "length p < 4294967296"
    and header: "rb_header rb \<noteq> None" and one: "length acc + refused = 1"
    and idle: "wk_producer s = P_idle" and stores: "wk_stores s = []"
  shows "lumbre_ringbuf_write rb p (of_nat (length p)) = Some (if acc = [] then -1 else 0, wk_memory s) \<and>
    (acc = [] \<or> acc = [p])"
proof -
  have start: "settled (weak_start_state rb) = rb" "wk_producer (weak_start_state rb) = P_idle"
    "wk_memory (weak_start_state rb) = rb"
    by (simp_all add: settled_def weak_start_state_def)
  have "settled s = wk_memory s" using stores by (simp add: settled_def)
  with alone_runs [OF exec ms] start header one idle obtain n where
    n: "run_producer n p rb P_idle = Some (Some (if acc = [] then -1 else 0, wk_memory s))" "acc = [] \<or> acc = [p]"
    by (auto simp: working_def)
  obtain h where "rb_header rb = Some h" using header by auto
  from run_producer_write [OF this p, of "max n (length p + 11)"]
  have "run_producer (max n (length p + 11)) p rb P_idle = Some (lumbre_ringbuf_write rb p (of_nat (length p)))"
    by simp
  with run_producer_more [OF n(1), of "max n (length p + 11)"] n(2) show ?thesis by simp
qed

subsection \<open>Everything accepted can be received\<close>

lemma weak_exec_append: "weak_exec (xs @ ys) x = weak_exec xs x \<bind> weak_exec ys"
proof (induction xs x rule: weak_exec.induct)
  case (2 p ms s acc refused got)
  then show ?case by (cases "weak_producer_step p s") auto
next
  case (3 ms s acc refused got)
  then show ?case by (cases "weak_consumer_step s") auto
next
  case (4 k ms s x)
  then show ?case by (cases "commit_store k s") auto
next
  case (5 ms s x)
  then show ?case by (cases "commit_read s") auto
qed simp

lemma drain_stores:
  assumes "weak_ok s ms ps"
  shows "\<exists>s' ms' ps'. weak_exec (replicate (length (wk_stores s)) (Commit 0)) (s, x) = Some (s', x) \<and>
    wk_stores s' = [] \<and> ms' @ ps' = ms @ ps \<and> weak_ok s' ms' ps'"
  using assms
proof (induction "length (wk_stores s)" arbitrary: s ms ps)
  case 0
  then show ?case by auto
next
  case (Suc n)
  then obtain e es where stores: "wk_stores s = e # es" by (cases "wk_stores s") auto
  have "may_commit [] e" by (cases e) simp_all
  then have step: "commit_store 0 s = Some (s\<lparr>wk_memory := commit e (wk_memory s), wk_stores := es\<rparr>)"
    by (simp add: commit_store_def stores)
  let ?s = "s\<lparr>wk_memory := commit e (wk_memory s), wk_stores := es\<rparr>"
  obtain ms1 ps1 where 1: "ms1 @ ps1 = ms @ ps" "weak_ok ?s ms1 ps1"
    using commit_store_ok(1) [OF Suc.prems step] by blast
  have "n = length (wk_stores ?s)" using Suc.hyps(2) by (simp add: stores)
  from Suc.hyps(1) [OF this 1(2)] 1(1) show ?case by (auto simp: stores step)
qed

text \<open>The steps the consumer is away from its next message.\<close>

fun consumer_rank :: "consumer \<Rightarrow> nat" where
  "consumer_rank (C_poll pos) = 5"
| "consumer_rank (C_head pos) = 4"
| "consumer_rank (C_wrapped pos) = 3"
| "consumer_rank (C_body pos offset len) = 2"
| "consumer_rank (C_publish m pos) = 1"

lemma consumer_progress:
  assumes ok: "weak_ok s (m # ms) ps" and step: "weak_consumer_step s = Some (Silent, s')"
  shows "consumer_rank (wk_consumer s') < consumer_rank (wk_consumer s)" and "wk_stores s' = wk_stores s"
proof -
  have holds: "ring_holds (consumer_view s) (m # ms)" and consumer: "consumer_ok (consumer_view s) (m # ms) (wk_consumer s)"
    using ok by (simp_all add: weak_ok_def)
  have unread: "rb_read_pos (consumer_view s) \<noteq> rb_write_pos (wk_memory s)"
    using ring_holds_empty [OF holds] by auto
  obtain h where h: "rb_header (wk_memory s) = Some h" using weak_okD(2) [OF ok] by auto
  have "consumer_rank (wk_consumer s') < consumer_rank (wk_consumer s) \<and> wk_stores s' = wk_stores s"
  proof (cases "wk_consumer s")
    case (C_poll pos)
    then have "hdr_write_pos h \<noteq> pos" using consumer unread by (auto simp: header_views [OF h])
    then show ?thesis using step C_poll by (auto simp: weak_consumer_step_def h)
  qed (use step in \<open>auto simp: weak_consumer_step_def bind_eq_Some_conv Let_def\<close>)
  then show "consumer_rank (wk_consumer s') < consumer_rank (wk_consumer s)" "wk_stores s' = wk_stores s"
    by simp_all
qed

lemma consumer_receives:
  assumes "weak_ok s (m # ms) ps"
  shows "\<exists>k s'. k \<le> consumer_rank (wk_consumer s) \<and>
    weak_exec (replicate k Consume) (s, acc, refused, got) = Some (s', acc, refused, got @ [m]) \<and>
    weak_ok s' ms ps \<and> wk_stores s' = wk_stores s"
  using assms
proof (induction "consumer_rank (wk_consumer s)" arbitrary: s rule: less_induct)
  case less
  obtain ev s1 where step: "weak_consumer_step s = Some (ev, s1)"
    and "ev = Silent \<and> weak_ok s1 (m # ms) ps \<or> ev = Received m \<and> weak_ok s1 ms ps"
    using weak_consumer_ok [OF less.prems] by auto
  then consider "ev = Silent" "weak_ok s1 (m # ms) ps" | "ev = Received m" "weak_ok s1 ms ps" by blast
  then show ?case
  proof cases
    case 1
    note progress = consumer_progress [OF less.prems step [unfolded 1(1)]]
    obtain k s2 where k: "k \<le> consumer_rank (wk_consumer s1)"
      "weak_exec (replicate k Consume) (s1, acc, refused, got) = Some (s2, acc, refused, got @ [m])"
      "weak_ok s2 ms ps" "wk_stores s2 = wk_stores s1"
      using less.hyps [OF progress(1) 1(2)] by blast
    then show ?thesis using progress step 1(1) by (intro exI [of _ "Suc k"] exI [of _ s2]) simp
  next
    case 2
    have "1 \<le> consumer_rank (wk_consumer s)" by (cases "wk_consumer s") simp_all
    moreover have "wk_stores s1 = wk_stores s"
      using step by (cases "wk_consumer s") (auto simp: weak_consumer_step_def bind_eq_Some_conv Let_def)
    ultimately show ?thesis using step 2 by (intro exI [of _ 1] exI [of _ s1]) simp
  qed
qed

lemma consumer_drains:
  assumes "weak_ok s ms ps"
  shows "\<exists>k s'. k \<le> 5 * length ms \<and>
    weak_exec (replicate k Consume) (s, acc, refused, got) = Some (s', acc, refused, got @ ms) \<and>
    weak_ok s' [] ps \<and> wk_stores s' = wk_stores s"
  using assms
proof (induction ms arbitrary: s got)
  case Nil
  then show ?case by (intro exI [of _ 0] exI [of _ s]) simp
next
  case (Cons m ms)
  obtain k1 s1 where 1: "k1 \<le> consumer_rank (wk_consumer s)"
    "weak_exec (replicate k1 Consume) (s, acc, refused, got) = Some (s1, acc, refused, got @ [m])"
    "weak_ok s1 ms ps" "wk_stores s1 = wk_stores s"
    using consumer_receives [OF Cons.prems] by blast
  obtain k2 s2 where 2: "k2 \<le> 5 * length ms"
    "weak_exec (replicate k2 Consume) (s1, acc, refused, got @ [m]) = Some (s2, acc, refused, (got @ [m]) @ ms)"
    "weak_ok s2 [] ps" "wk_stores s2 = wk_stores s1"
    using Cons.IH [OF 1(3)] by blast
  have "consumer_rank (wk_consumer s) \<le> 5" by (cases "wk_consumer s") simp_all
  with 1 2 show ?case
    by (intro exI [of _ "k1 + k2"] exI [of _ s2]) (simp add: replicate_add weak_exec_append)
qed

lemma weak_run_drains_spec:
  assumes "weak_run (weak_start_state rb) s acc refused got" and "ring_holds rb []"
  shows "\<exists>k s'. k \<le> 5 * (length acc - length got) \<and>
    weak_exec (replicate (length (wk_stores s)) (Commit 0) @ replicate k Consume) (s, acc, refused, got) =
      Some (s', acc, refused, acc) \<and> wk_stores s' = []"
proof -
  obtain ms ps where ok: "acc = got @ ms @ ps" "weak_ok s ms ps"
    using weak_invariant [OF assms(1) weak_start_ok [OF assms(2)]] by blast
  obtain s1 ms1 ps1 where 1: "weak_exec (replicate (length (wk_stores s)) (Commit 0)) (s, acc, refused, got) =
      Some (s1, acc, refused, got)" "wk_stores s1 = []" "ms1 @ ps1 = ms @ ps" "weak_ok s1 ms1 ps1"
    using drain_stores [OF ok(2)] by blast
  have "ps1 = []" using 1(2,4) by (simp add: weak_ok_def)
  then have acc: "acc = got @ ms1" using ok(1) 1(3) by simp
  from consumer_drains [OF 1(4), of acc refused got] 1(1,2) show ?thesis
    by (auto simp: weak_exec_append acc)
qed

subsection \<open>Properties\<close>

text \<open>
  C6: The memory orderings of the ring suffice: from an empty ring, with the producer's data stores
  reaching memory in any order and late, its release store of the write position after all stores
  before it, and the consumer's positions reaching the producer any time later, what the consumer
  has received, then what its view of the ring holds, then the messages whose publication is still
  in the producer's buffer, is exactly what was accepted, in order; the drop counter has counted the
  refusals; the consumer's next step never fails; and when both buffers are empty, the ring in
  memory holds precisely the accepted messages not yet received.
\<close>

theorem weak_memory_safe:
  assumes "weak_run (weak_start_state rb) s acc refused got" and "ring_holds rb []"
  shows "\<exists>ms ps. acc = got @ ms @ ps \<and> ring_holds (consumer_view s) ms \<and>
    rb_dropped (wk_memory s) = rb_dropped rb + of_nat refused \<and> weak_consumer_step s \<noteq> None \<and>
    (wk_stores s = [] \<and> wk_reads s = [] \<longrightarrow> ps = [] \<and> ring_holds (wk_memory s) ms)"
  by (rule weak_run_safe_spec [OF assms])

theorem weak_memory_safe_witness:
  "\<exists>s. weak_run (weak_start_state sample_ring) s [[1, 2, 3, 4], [], [], []] 1 [[1, 2, 3, 4]] \<and>
     ring_holds (wk_memory s) [[], [], []] \<and> rb_dropped (wk_memory s) = rb_dropped sample_ring + 1"
proof -
  obtain s where run: "weak_run (weak_start_state sample_ring) s [[1, 2, 3, 4], [], [], []] 1 [[1, 2, 3, 4]]"
    and drained: "wk_stores s = []" "wk_reads s = []"
    using weak_schedule_run by blast
  from weak_memory_safe [OF run sample_ring_holds] drained
  have "ring_holds (wk_memory s) [[], [], []] \<and> rb_dropped (wk_memory s) = rb_dropped sample_ring + 1"
    by auto
  with run show ?thesis by blast
qed

text \<open>
  C18: Whatever the order in which its buffered stores reach memory, and however these commits lie between
  its steps, a call of the producer leaves in memory exactly the ring that \<^verbatim>\<open>lumbre_ringbuf_write\<close>
  computes, and accepts the message exactly if that returns 0.
\<close>

theorem weak_write_is_write:
  assumes "weak_exec ms (weak_start_state rb, [], 0, []) = Some (s, acc, refused, got)"
    and "set ms \<subseteq> insert (Produce p) (range Commit)" and "length p < 4294967296" and "rb_header rb \<noteq> None"
    and "length acc + refused = 1" and "wk_producer s = P_idle" and "wk_stores s = []"
  shows "lumbre_ringbuf_write rb p (of_nat (length p)) = Some (if acc = [] then -1 else 0, wk_memory s) \<and>
    (acc = [] \<or> acc = [p])"
  by (rule producer_alone_writes [OF assms])

theorem weak_write_is_write_witness:
  "\<exists>s. weak_exec (map Produce (replicate 11 [1, 2, 3, 4]) @ map Commit [7, 5, 3, 1, 0, 2, 1, 0, 0])
       (weak_start_state sample_ring, [], 0, []) = Some (s, [[1, 2, 3, 4]], 0, []) \<and>
     lumbre_ringbuf_write sample_ring [1, 2, 3, 4] 4 = Some (0, wk_memory s)"
proof -
  let ?ms = "map Produce (replicate 11 [1, 2, 3, 4]) @ map Commit [7, 5, 3, 1, 0, 2, 1, 0, 0]"
  have "map_option (\<lambda>(s, x). (wk_stores s, wk_producer s, x)) (weak_exec ?ms (weak_start_state sample_ring, [], 0, [])) =
      Some ([], P_idle, [[1, 2, 3, 4]], 0, [])"
    by code_simp
  then obtain s where s: "weak_exec ?ms (weak_start_state sample_ring, [], 0, []) = Some (s, [[1, 2, 3, 4]], 0, [])"
    "wk_stores s = []" "wk_producer s = P_idle"
    by auto
  have "set ?ms \<subseteq> insert (Produce [1, 2, 3, 4]) (range Commit)" by auto
  moreover have "rb_header sample_ring \<noteq> None" by (simp add: sample_ring_def)
  ultimately show ?thesis using weak_write_is_write [OF s(1), of "[1, 2, 3, 4]"] s by simp
qed

text \<open>
  C19: No accepted message is ever stuck: from every state the two processes can reach, whatever is
  buffered and wherever the consumer is, if the producer's buffered stores reach memory and the
  consumer then makes at most five steps for each message it has not received, it has received
  everything that was accepted. The producer need not move.
\<close>

theorem accepted_messages_arrive:
  assumes "weak_run (weak_start_state rb) s acc refused got" and "ring_holds rb []"
  shows "\<exists>k s'. k \<le> 5 * (length acc - length got) \<and>
    weak_exec (replicate (length (wk_stores s)) (Commit 0) @ replicate k Consume) (s, acc, refused, got) =
      Some (s', acc, refused, acc) \<and> wk_stores s' = []"
  by (rule weak_run_drains_spec [OF assms])

theorem accepted_messages_arrive_witness:
  "\<exists>s k s'. weak_run (weak_start_state sample_ring) s [[1, 2, 3, 4], [], [], []] 1 [[1, 2, 3, 4]] \<and> k \<le> 15 \<and>
     weak_exec (replicate k Consume) (s, [[1, 2, 3, 4], [], [], []], 1, [[1, 2, 3, 4]]) =
       Some (s', [[1, 2, 3, 4], [], [], []], 1, [[1, 2, 3, 4], [], [], []])"
proof -
  obtain s where run: "weak_run (weak_start_state sample_ring) s [[1, 2, 3, 4], [], [], []] 1 [[1, 2, 3, 4]]"
    and drained: "wk_stores s = []"
    using weak_schedule_run by blast
  from accepted_messages_arrive [OF run sample_ring_holds] drained run show ?thesis by auto
qed

end
