(* ===== verification/Lumbre_Live.thy ===== *)
theory Lumbre_Live
  imports Lumbre_Independence Lumbre_Weak
begin

text \<open>
  A worker and its consumer running at the same time, over the buffered memory of \<^verbatim>\<open>Lumbre_Weak\<close>: the
  consumer moves while a request is in progress, between any two accesses of any write. The ring has
  no influence on a request: on every ring it has the effect of one and the same list of calls of
  \<^verbatim>\<open>lumbre_ringbuf_write\<close>. These calls wait in a list, and the producer makes them one after the other,
  access by access. A request starts when the one before it has made all its calls.
\<close>

subsection \<open>The system\<close>

text \<open>
  The worker's own state \<open>st\<close>, in which the field of the ring plays no part; the ring's memory with
  both processes; the messages still to be written, the first one perhaps in part; all messages of
  the requests so far; and those received. The messages \<open>msgs\<close> of a request are those that its code,
  run on any ring, puts into it.
\<close>

inductive live_run ::
  "zend_hooks \<Rightarrow> php_state \<Rightarrow> php_state \<Rightarrow> weak \<Rightarrow> bytes list \<Rightarrow> bytes list \<Rightarrow> bytes list \<Rightarrow> bool"
  for z st0 where
  live_start: "live_run z st0 st0 (weak_start_state (ring_of st0)) [] [] []"
| live_request: "live_run z st0 st s [] sent got \<Longrightarrow> request_ok rq \<Longrightarrow> list_all activity_ok calls \<Longrightarrow>
    request_writes z rq calls st msgs st' \<Longrightarrow> live_run z st0 st' s msgs (sent @ msgs) got"
| live_idle: "live_run z st0 st s [] sent got \<Longrightarrow>
    live_run z st0 (set_globals ((ps_lumbre st)\<lparr>g_enabled := b, g_min_duration_ns := n\<rparr>) (st\<lparr>ps_now := now\<rparr>))
      s [] sent got"
| live_write: "live_run z st0 st s (p # todo) sent got \<Longrightarrow> weak_producer_step p s = Some (ev, s') \<Longrightarrow>
    live_run z st0 st s' (if ev = Silent then p # todo else todo) sent got"
| live_consume: "live_run z st0 st s todo sent got \<Longrightarrow> weak_consumer_step s = Some (ev, s') \<Longrightarrow>
    live_run z st0 st s' todo sent (case ev of Received q \<Rightarrow> got @ [q] | _ \<Rightarrow> got)"
| live_commit_store: "live_run z st0 st s todo sent got \<Longrightarrow> commit_store k s = Some s' \<Longrightarrow>
    live_run z st0 st s' todo sent got"
| live_commit_read: "live_run z st0 st s todo sent got \<Longrightarrow> commit_read s = Some s' \<Longrightarrow>
    live_run z st0 st s' todo sent got"

subsection \<open>What the producer is writing\<close>

fun carries :: "bytes list \<Rightarrow> producer \<Rightarrow> bool" where
  "carries todo P_idle \<longleftrightarrow> True"
| "carries todo (P_check q pos) \<longleftrightarrow> (\<exists>rest. todo = q # rest)"
| "carries todo (P_store q ss pos) \<longleftrightarrow> (\<exists>rest. todo = q # rest)"

lemma carried_step:
  assumes "carries (p # todo) (wk_producer s)" and "weak_producer_step p s = Some (ev, s')"
  shows "case ev of
      Silent \<Rightarrow> carries (p # todo) (wk_producer s')
    | Accepted q \<Rightarrow> q = p \<and> wk_producer s' = P_idle
    | Refused q \<Rightarrow> q = p \<and> wk_producer s' = P_idle
    | Received q \<Rightarrow> False"
proof (cases "wk_producer s")
  case (P_store q ss pos)
  then show ?thesis using assms
    by (cases ss) (auto simp: weak_producer_step_def split: if_splits)
qed (use assms in \<open>auto simp: weak_producer_step_def bind_eq_Some_conv split: if_splits option.splits prod.splits\<close>)

lemma consumer_keeps_producer:
  "weak_consumer_step s = Some (ev, s') \<Longrightarrow> wk_producer s' = wk_producer s"
  by (auto simp: weak_consumer_step_def bind_eq_Some_conv split: consumer.splits)

lemma commits_keep_producer:
  "commit_store k s = Some s' \<Longrightarrow> wk_producer s' = wk_producer s"
  "commit_read s = Some s' \<Longrightarrow> wk_producer s' = wk_producer s"
  by (auto simp: commit_store_def commit_read_def bind_eq_Some_conv split: list.splits if_splits)

subsection \<open>What a request keeps\<close>

lemma sequential_kept:
  assumes ok: "worker_ok st" and init: "g_ringbuf_initialized (ps_lumbre st) \<noteq> 0" and z: "hooks_installed z"
    and rq: "request_ok rq" and calls: "list_all activity_ok calls" and run: "run_request z rq calls st = Some st'"
  shows "worker_ok st' \<and> g_ringbuf_initialized (ps_lumbre st') \<noteq> 0"
proof -
  obtain ms where "ring_state st ms (rb_dropped (ring_of st))"
    using ok init by (auto simp: worker_ok_def module_ok_def ring_state_def ring_of_def Let_def)
  from request_step [OF ok rq z calls run this] have "worker_ok st'" by blast
  moreover obtain st1 where st1: "lumbre_rinit rq st = Some st1"
    using run by (auto simp: run_request_def bind_eq_Some_conv)
  have "g_ringbuf_initialized (ps_lumbre st1) \<noteq> 0"
    using st1 init by (elim rinit_after_ringbuf) (auto simp: rinit_ringbuf_def Let_def)
  then have "g_ringbuf_initialized (ps_lumbre st') \<noteq> 0" using run_request_initialized [OF run st1] by simp
  ultimately show ?thesis by simp
qed

text \<open>Any ring may stand in for the one in memory; here it is the one that refuses everything.\<close>

definition live_worker_ok :: "php_state \<Rightarrow> bool" where
  "live_worker_ok st \<longleftrightarrow> worker_ok (with_ring dead_ring st) \<and> g_ringbuf_initialized (ps_lumbre st) \<noteq> 0"

lemma worker_ok_rings:
  assumes "worker_ok (with_ring rb st)" and "ring_model rb' ms"
  shows "worker_ok (with_ring rb' st)"
  using assms by (auto simp: worker_ok_def module_ok_def Let_def)

lemma live_workerI:
  "worker_ok st \<Longrightarrow> g_ringbuf_initialized (ps_lumbre st) \<noteq> 0 \<Longrightarrow> live_worker_ok st"
  using worker_ok_dead by (simp add: live_worker_ok_def)

lemma live_worker_ring: "live_worker_ok (with_ring rb st) \<longleftrightarrow> live_worker_ok st"
  by (simp add: live_worker_ok_def)

lemma request_keeps_worker:
  assumes ok: "live_worker_ok st" and z: "hooks_installed z" and rq: "request_ok rq"
    and calls: "list_all activity_ok calls" and writes: "request_writes z rq calls st msgs st'"
  shows "live_worker_ok st'"
proof -
  let ?st = "with_ring dead_ring st"
  have dead: "ring_model dead_ring []" using dead_ring_dead by (simp add: ring_model_def)
  have msgs: "\<forall>m \<in> set msgs. length m \<le> 16384" using writes by (simp add: request_writes_def)
  obtain rb where "ring_puts msgs dead_ring = Some rb"
    using ring_puts_dead [OF dead_ring_dead msgs] by blast
  with request_writesD [OF writes, of dead_ring]
  have run: "run_request z rq calls ?st = Some (with_ring rb st')" by simp
  have init: "g_ringbuf_initialized (ps_lumbre st) \<noteq> 0" and worker: "worker_ok ?st"
    using ok by (simp_all add: live_worker_ok_def)
  from sequential_kept [OF worker _ z rq calls run] init
  have "worker_ok (with_ring rb st')" "g_ringbuf_initialized (ps_lumbre st') \<noteq> 0" by simp_all
  then show ?thesis using worker_ok_rings dead by (auto simp: live_worker_ok_def)
qed

text \<open>Every request can be made: whatever it is, the code writes its messages and comes to its end.\<close>

lemma live_request_writes:
  assumes "live_worker_ok st" and "request_ok rq" and "hooks_installed z" and "list_all activity_ok calls"
  shows "\<exists>st'. request_writes z rq calls st (request_messages rq calls st) st'"
proof -
  have "worker_ok (with_ring dead_ring st)" "g_ringbuf_initialized (ps_lumbre (with_ring dead_ring st)) \<noteq> 0"
    using assms(1) by (simp_all add: live_worker_ok_def)
  from request_writes_messages [OF this(1) assms(2-4) this(2)] request_messages_blind [OF ring_eq_with]
  show ?thesis by (simp add: request_writes_def)
qed

subsection \<open>The invariant\<close>

definition live_ok :: "php_state \<Rightarrow> php_state \<Rightarrow> weak \<Rightarrow> bytes list \<Rightarrow> bytes list \<Rightarrow> bytes list \<Rightarrow> bool" where
  "live_ok st0 st s todo sent got \<longleftrightarrow>
     live_worker_ok st \<and> carries todo (wk_producer s) \<and>
     (\<forall>m \<in> set todo. length m \<le> 16384) \<and>
     (\<exists>written acc refused. sent = written @ todo \<and> weak_run (weak_start_state (ring_of st0)) s acc refused got \<and>
        subseq acc written \<and> length written = length acc + refused)"

lemma live_invariant:
  assumes "live_run z st0 st s todo sent got" and "live_worker_ok st0" and z: "hooks_installed z"
  shows "live_ok st0 st s todo sent got"
  using assms(1,2)
proof (induction rule: live_run.induct)
  case live_start
  then show ?case using weak_run.weak_start by (fastforce simp: live_ok_def weak_start_state_def)
next
  case (live_request st s sent got rq calls msgs st')
  then have ok: "live_ok st0 st s [] sent got" by simp
  then have "live_worker_ok st" by (simp add: live_ok_def)
  note kept = request_keeps_worker [OF this z live_request.hyps(2-4)]
  have "wk_producer s = P_idle" using ok by (cases "wk_producer s") (auto simp: live_ok_def)
  with ok kept live_request.hyps(4) show ?case by (auto simp: live_ok_def request_writes_def)
next
  case (live_idle st s sent got n b now)
  then show ?case
    by (simp add: live_ok_def live_worker_ok_def worker_ok_def module_ok_def with_ring_def set_globals_def Let_def)
next
  case (live_write st s p todo sent got ev s')
  then have ok: "live_ok st0 st s (p # todo) sent got" by simp
  then obtain written acc refused where *: "sent = written @ p # todo"
    "weak_run (weak_start_state (ring_of st0)) s acc refused got" "subseq acc written"
    "length written = length acc + refused" and p: "length p < 4294967296"
    by (auto simp: live_ok_def)
  note run = weak_producer [OF *(2) p live_write.hyps(2)]
  have carried: "carries (p # todo) (wk_producer s)" using ok by (simp add: live_ok_def)
  note step = carried_step [OF carried live_write.hyps(2)]
  have snoc: "sent = (written @ [p]) @ todo" using *(1) by simp
  show ?case
  proof (cases ev)
    case Silent
    then show ?thesis using ok step run * by (auto simp: live_ok_def)
  next
    case (Accepted q)
    then have "subseq (acc @ [q]) (written @ [p])" using step *(3) by simp
    then show ?thesis using ok step run *(4) snoc Accepted by (fastforce simp: live_ok_def)
  next
    case (Refused q)
    have "subseq acc (written @ [p])" using *(3) by (rule list_emb_prefix)
    then show ?thesis using ok step run *(4) snoc Refused by (fastforce simp: live_ok_def)
  qed (use step in simp)
next
  case (live_consume st s todo sent got ev s')
  then show ?case
    using consumer_keeps_producer weak_run.weak_consumer by (fastforce simp: live_ok_def)
next
  case (live_commit_store st s todo sent got k s')
  then show ?case
    using commits_keep_producer weak_run.weak_commit_store by (fastforce simp: live_ok_def)
next
  case (live_commit_read st s todo sent got s')
  then show ?case
    using commits_keep_producer weak_run.weak_commit_read by (fastforce simp: live_ok_def)
qed

subsection \<open>The consumer catches up\<close>

text \<open>Moves that are not the producer's.\<close>

lemma live_exec:
  assumes "weak_exec ms (s, acc, refused, got) = Some (s', acc', refused', got')"
    and "live_run z st0 st s todo sent got" and "\<forall>m \<in> set ms. case m of Produce p \<Rightarrow> False | _ \<Rightarrow> True"
  shows "live_run z st0 st s' todo sent got' \<and> acc' = acc"
  using assms
proof (induction ms arbitrary: s got)
  case Nil
  then show ?case by simp
next
  case (Cons m ms)
  show ?case
  proof (cases m)
    case (Produce p)
    then show ?thesis using Cons.prems(3) by simp
  next
    case Consume
    then obtain ev t where step: "weak_consumer_step s = Some (ev, t)"
      "weak_exec ms (t, acc, refused, case ev of Received q \<Rightarrow> got @ [q] | _ \<Rightarrow> got) = Some (s', acc', refused', got')"
      using Cons.prems(1) by (auto simp: bind_eq_Some_conv)
    show ?thesis using Cons.IH [OF step(2) live_consume [OF Cons.prems(2) step(1)]] Cons.prems(3) by simp
  next
    case (Commit k)
    then obtain t where step: "commit_store k s = Some t" "weak_exec ms (t, acc, refused, got) = Some (s', acc', refused', got')"
      using Cons.prems(1) by (auto simp: bind_eq_Some_conv)
    show ?thesis using Cons.IH [OF step(2) live_commit_store [OF Cons.prems(2) step(1)]] Cons.prems(3) by simp
  next
    case Commit_read
    then obtain t where step: "commit_read s = Some t" "weak_exec ms (t, acc, refused, got) = Some (s', acc', refused', got')"
      using Cons.prems(1) by (auto simp: bind_eq_Some_conv)
    show ?thesis using Cons.IH [OF step(2) live_commit_read [OF Cons.prems(2) step(1)]] Cons.prems(3) by simp
  qed
qed

lemma live_drains:
  assumes run: "live_run z st0 st s [] sent got" and st0: "worker_ok st0"
    "g_ringbuf_initialized (ps_lumbre st0) \<noteq> 0" and z: "hooks_installed z" and empty: "ring_holds (ring_of st0) []"
  shows "\<exists>s' got' refused. live_run z st0 st s' [] sent got' \<and> wk_stores s' = [] \<and> prefix got got' \<and>
    subseq got' sent \<and> length sent = length got' + refused \<and>
    rb_dropped (wk_memory s') = rb_dropped (ring_of st0) + of_nat refused"
proof -
  from live_invariant [OF run live_workerI [OF st0] z] obtain acc refused where
    weak: "weak_run (weak_start_state (ring_of st0)) s acc refused got" and sub: "subseq acc sent"
    "length sent = length acc + refused"
    by (auto simp: live_ok_def)
  from weak_run_drains_spec [OF weak empty] obtain k s' where
    exec: "weak_exec (replicate (length (wk_stores s)) (Commit 0) @ replicate k Consume) (s, acc, refused, got) =
      Some (s', acc, refused, acc)" and stores: "wk_stores s' = []"
    by blast
  have "\<forall>m \<in> set (replicate (length (wk_stores s)) (Commit 0) @ replicate k Consume).
      case m of Produce p \<Rightarrow> False | _ \<Rightarrow> True"
    by (auto split: move.splits)
  then have live: "live_run z st0 st s' [] sent acc" using live_exec [OF exec run] by blast
  have "weak_run (weak_start_state (ring_of st0)) s' acc refused acc"
    by (rule weak_exec_run [OF exec]) (use weak in auto)
  from weak_run_safe_spec [OF this empty]
  have "rb_dropped (wk_memory s') = rb_dropped (ring_of st0) + of_nat refused" by blast
  moreover have "prefix got acc" using weak_run_safe_spec [OF weak empty] by auto
  ultimately show ?thesis using live stores sub by blast
qed

text \<open>Between two requests every request can be made next.\<close>

lemma live_next_request:
  assumes run: "live_run z st0 st s [] sent got" and st0: "worker_ok st0"
    "g_ringbuf_initialized (ps_lumbre st0) \<noteq> 0" and z: "hooks_installed z"
    and rq: "request_ok rq" and calls: "list_all activity_ok calls"
  defines "msgs \<equiv> request_messages rq calls st"
  shows "\<exists>st'. (\<forall>rb. run_request z rq calls (with_ring rb st) =
      map_option (\<lambda>rb'. with_ring rb' st') (ring_puts msgs rb)) \<and> live_run z st0 st' s msgs (sent @ msgs) got"
proof -
  have "live_worker_ok st" using live_invariant [OF run live_workerI [OF st0] z] by (simp add: live_ok_def)
  from live_request_writes [OF this rq z calls] obtain st' where
    writes: "request_writes z rq calls st msgs st'" by (auto simp: msgs_def)
  from live_request [OF run rq calls this] request_writesD [OF this] show ?thesis by blast
qed

subsection \<open>The sequential worker is a case of it\<close>

text \<open>
  Memory in which every store commits at once, with the consumer between two reads; the producer's
  step machine then is the write, and the consumer's the read.
\<close>

definition at_once :: "lumbre_ringbuf_t \<Rightarrow> producer \<Rightarrow> consumer \<Rightarrow> weak" where
  "at_once rb pp pc = unbuffered \<lparr>sp_ring = rb, sp_producer = pp, sp_consumer = pc\<rparr>"

lemma weak_start_at_once: "weak_start_state rb = at_once rb P_idle (C_poll (rb_read_pos rb))"
  by (simp add: weak_start_state_def at_once_def unbuffered_def)

lemma producer_event:
  assumes "producer_step p rb pp = Some (ev, rb', pp')"
  shows "ev = Silent \<or> (\<exists>q. (ev = Accepted q \<or> ev = Refused q) \<and> pp' = P_idle)"
  using assms
  by (cases "(p, rb, pp)" rule: producer_step.cases) (auto simp: bind_eq_Some_conv split: if_splits option.splits)

lemma live_write_at_once:
  assumes "run_producer n p rb pp = Some (Some (rc, rb'))" and "live_run z st0 st (at_once rb pp pc) (p # todo) sent got"
  shows "live_run z st0 st (at_once rb' P_idle pc) todo sent got"
  using assms
proof (induction n arbitrary: rb pp)
  case 0
  then show ?case by simp
next
  case (Suc n)
  obtain ev rb1 pp1 where step: "producer_step p rb pp = Some (ev, rb1, pp1)"
    using Suc.prems(1) by (cases "producer_step p rb pp") auto
  let ?s = "\<lparr>sp_ring = rb, sp_producer = pp, sp_consumer = pc\<rparr>"
  have "producer_step p (sp_ring ?s) (sp_producer ?s) = Some (ev, rb1, pp1)" using step by simp
  from producer_step_unbuffered [OF this] obtain s' where
    s': "weak_producer_step p (at_once rb pp pc) = Some (ev, s')"
    "s' = at_once rb1 pp1 pc \<or> commit_store 0 s' = Some (at_once rb1 pp1 pc)"
    by (auto simp: at_once_def)
  define todo1 where "todo1 = (if ev = Silent then p # todo else todo)"
  have "live_run z st0 st s' todo1 sent got" unfolding todo1_def by (rule live_write [OF Suc.prems(2) s'(1)])
  with s'(2) live_commit_store have live: "live_run z st0 st (at_once rb1 pp1 pc) todo1 sent got" by blast
  from producer_event [OF step] show ?case
  proof (elim disjE exE conjE)
    assume "ev = Silent"
    with Suc.prems(1) step live show ?thesis using Suc.IH by (simp add: todo1_def)
  qed (use Suc.prems(1) step live in \<open>auto simp: todo1_def\<close>)
qed

lemma live_put:
  assumes "ring_put rb p = Some (rc, rb')" and "length p < 4294967296"
    and "live_run z st0 st (at_once rb P_idle pc) (p # todo) sent got"
  shows "live_run z st0 st (at_once rb' P_idle pc) todo sent got"
proof -
  obtain h where "rb_header rb = Some h"
    using assms(1) by (auto simp: ring_put_def lumbre_ringbuf_write_def bind_eq_Some_conv)
  from run_producer_write [OF this assms(2) order_refl] assms(1)
  have "run_producer (length p + 11) p rb P_idle = Some (Some (rc, rb'))" by (simp add: ring_put_def)
  from live_write_at_once [OF this assms(3)] show ?thesis .
qed

lemma live_puts:
  assumes "ring_puts ms rb = Some rb'" and "\<forall>m \<in> set ms. length m \<le> 16384"
    and "live_run z st0 st (at_once rb P_idle pc) ms sent got"
  shows "live_run z st0 st (at_once rb' P_idle pc) [] sent got"
  using assms
proof (induction ms arbitrary: rb)
  case (Cons m ms)
  then obtain rc rb1 where put: "ring_put rb m = Some (rc, rb1)" "ring_puts ms rb1 = Some rb'"
    by (auto simp: bind_eq_Some_conv)
  have "length m < 4294967296" using Cons.prems(2) by simp
  from Cons.IH [OF put(2) _ live_put [OF put(1) this Cons.prems(3)]] Cons.prems(2) show ?case by simp
qed simp

lemma write_ends_read_pos:
  "ringbuf_drop rb h = Some (rc, rb') \<Longrightarrow> rb_read_pos rb' = hdr_read_pos h"
  "ringbuf_commit rb h offset p n needed = Some (rc, rb') \<Longrightarrow> rb_read_pos rb' = hdr_read_pos h"
  by (auto simp: ringbuf_drop_def ringbuf_commit_def rb_read_pos_def bind_eq_Some_conv Let_def)

lemma ring_put_read_pos:
  assumes "ring_put rb p = Some (rc, rb')"
  shows "rb_read_pos rb' = rb_read_pos rb"
proof -
  obtain h where h: "rb_header rb = Some h"
    using assms by (auto simp: ring_put_def lumbre_ringbuf_write_def bind_eq_Some_conv)
  have "rb_read_pos rb' = hdr_read_pos h"
    using assms unfolding ring_put_def lumbre_ringbuf_write_def h Let_def
    by (simp only: bind.bind_lunit split: if_splits) (auto simp only: bind_eq_Some_conv write_ends_read_pos)
  then show ?thesis by (simp add: rb_read_pos_def h)
qed

lemma ring_puts_read_pos: "ring_puts ms rb = Some rb' \<Longrightarrow> rb_read_pos rb' = rb_read_pos rb"
  by (induction ms rb rule: ring_puts.induct) (auto simp: bind_eq_Some_conv dest: ring_put_read_pos)

lemma live_read_at_once:
  assumes "run_consumer n rb pc = Some (Some (m, rb'))" and "live_run z st0 st (at_once rb pp pc) todo sent got"
  shows "live_run z st0 st (at_once rb' pp (C_poll (rb_read_pos rb'))) todo sent (got @ [m])"
  using assms
proof (induction n arbitrary: rb pc)
  case 0
  then show ?case by simp
next
  case (Suc n)
  obtain ev rb1 pc1 where step: "consumer_step rb pc = Some (ev, rb1, pc1)"
    using Suc.prems(1) by (cases "consumer_step rb pc") auto
  let ?s = "\<lparr>sp_ring = rb, sp_producer = pp, sp_consumer = pc\<rparr>"
  have "consumer_step (sp_ring ?s) (sp_consumer ?s) = Some (ev, rb1, pc1)" using step by simp
  from consumer_step_unbuffered [OF this] obtain s' where
    s': "weak_consumer_step (at_once rb pp pc) = Some (ev, s')"
    "s' = at_once rb1 pp pc1 \<or> commit_read s' = Some (at_once rb1 pp pc1)"
    by (auto simp: at_once_def)
  define got1 where "got1 = (case ev of Received q \<Rightarrow> got @ [q] | _ \<Rightarrow> got)"
  have "live_run z st0 st s' todo sent got1"
    unfolding got1_def by (rule live_consume [OF Suc.prems(2) s'(1)])
  with s'(2) live_commit_read have live: "live_run z st0 st (at_once rb1 pp pc1) todo sent got1" by blast
  have "ev = Silent \<or> (\<exists>q. ev = Received q \<and> pc1 = C_poll (rb_read_pos rb1))"
    using step by (cases pc) (auto simp: bind_eq_Some_conv Let_def ringbuf_publish_read_def rb_read_pos_def)
  then show ?case
  proof (elim disjE exE conjE)
    assume "ev = Silent"
    with Suc.prems(1) step live show ?thesis using Suc.IH by (simp add: got1_def)
  qed (use Suc.prems(1) step live in \<open>auto simp: got1_def\<close>)
qed

lemma sequential_request:
  assumes ok: "worker_ok st" and init: "g_ringbuf_initialized (ps_lumbre st) \<noteq> 0" and z: "hooks_installed z"
    and rq: "request_ok rq" and calls: "list_all activity_ok calls" and run: "run_request z rq calls st = Some st'"
    and eq: "ring_eq st1 st"
    and live: "live_run z st0 st1 (weak_start_state (ring_of st)) [] sent got"
  shows "\<exists>st2. ring_eq st2 st' \<and>
    live_run z st0 st2 (weak_start_state (ring_of st')) [] (sent @ request_messages rq calls st) got"
proof -
  define msgs where "msgs = request_messages rq calls st"
  have "with_ring (ring_of st) st1 = st" using eq by (auto simp: ring_eq_def)
  moreover have "live_worker_ok st1"
    using live_workerI [OF ok init] eq live_worker_ring by (auto simp: ring_eq_def)
  from live_request_writes [OF this rq z calls] obtain st2 where writes: "request_writes z rq calls st1 msgs st2"
    using request_messages_blind [OF eq] by (auto simp: msgs_def)
  ultimately obtain rb where rb: "ring_puts msgs (ring_of st) = Some rb" "st' = with_ring rb st2"
    using request_writesD [OF writes, of "ring_of st"] run
    by (cases "ring_puts msgs (ring_of st)") auto
  have "\<forall>m \<in> set msgs. length m \<le> 16384" using writes by (simp add: request_writes_def)
  from live_puts [OF rb(1) this] live_request [OF live rq calls writes]
  have "live_run z st0 st2 (at_once rb P_idle (C_poll (rb_read_pos (ring_of st)))) [] (sent @ msgs) got"
    by (simp only: weak_start_at_once)
  then have "live_run z st0 st2 (weak_start_state (ring_of st')) [] (sent @ msgs) got"
    using ring_puts_read_pos [OF rb(1)] rb(2) by (simp add: weak_start_at_once)
  then show ?thesis using rb(2) by (auto simp: msgs_def)
qed

lemma sequential_worker:
  assumes "worker z st0 st sent got" and "worker_ok st0" and "g_ringbuf_initialized (ps_lumbre st0) \<noteq> 0"
    and z: "hooks_installed z"
  shows "worker_ok st \<and> g_ringbuf_initialized (ps_lumbre st) \<noteq> 0 \<and>
    (\<exists>st1. ring_eq st1 st \<and> live_run z st0 st1 (weak_start_state (ring_of st)) [] sent got)"
  using assms(1-3)
proof (induction rule: worker.induct)
  case worker_start
  then show ?case using live_start by blast
next
  case (worker_request st sent got rq calls st')
  then obtain st1 where *: "worker_ok st" "g_ringbuf_initialized (ps_lumbre st) \<noteq> 0" "ring_eq st1 st"
    "live_run z st0 st1 (weak_start_state (ring_of st)) [] sent got"
    by blast
  from sequential_request [OF *(1,2) z worker_request.hyps(2-4) *(3,4)]
    sequential_kept [OF *(1,2) z worker_request.hyps(2-4)] show ?case by blast
next
  case (worker_idle st sent got n b now)
  then obtain st1 where *: "worker_ok st" "g_ringbuf_initialized (ps_lumbre st) \<noteq> 0" "ring_eq st1 st"
    "live_run z st0 st1 (weak_start_state (ring_of st)) [] sent got"
    by blast
  let ?idle = "\<lambda>st. set_globals ((ps_lumbre st)\<lparr>g_enabled := b, g_min_duration_ns := n\<rparr>) (st\<lparr>ps_now := now\<rparr>)"
  obtain rb where "st = with_ring rb st1" using *(3) by (auto simp: ring_eq_def)
  then have "?idle st = with_ring rb (?idle st1)"
    by (cases st1, cases "ps_lumbre st1") (simp add: with_ring_def set_globals_def)
  then have "ring_eq (?idle st1) (?idle st)" by simp
  moreover have "ring_of (?idle st) = ring_of st" by (simp add: ring_of_def set_globals_def)
  moreover have "worker_ok (?idle st) \<and> g_ringbuf_initialized (ps_lumbre (?idle st)) \<noteq> 0"
    using *(1,2) by (simp add: worker_ok_def module_ok_def set_globals_def Let_def)
  ultimately show ?case using live_idle [OF *(4)] by metis
next
  case (worker_consume st sent got m rb)
  then obtain st1 where *: "worker_ok st" "g_ringbuf_initialized (ps_lumbre st) \<noteq> 0" "ring_eq st1 st"
    "live_run z st0 st1 (weak_start_state (ring_of st)) [] sent got"
    by blast
  let ?st = "set_globals ((ps_lumbre st)\<lparr>g_ringbuf := rb\<rparr>) st"
  have st: "?st = with_ring rb st" by (simp add: with_ring_def)
  obtain ms where "ring_model (ring_of st) ms"
    using *(1,2) by (auto simp: worker_ok_def module_ok_def ring_of_def Let_def)
  from unread_message_model [OF this worker_consume.hyps(3)] have holds: "ring_holds (ring_of st) ms" .
  obtain m' ms' where "ms = m' # ms'" using unread_message [OF holds worker_consume.hyps(3)] .
  with ringbuf_take_spec [of "ring_of st"] holds worker_consume.hyps(4) have "ring_holds rb ms'" by auto
  then have "worker_ok ?st"
    using *(1) unfolding st by (auto simp: worker_ok_def module_ok_def ring_model_def Let_def)
  moreover have "run_consumer (Suc (Suc (Suc (Suc (Suc 0))))) (ring_of st) (C_poll (rb_read_pos (ring_of st))) =
      Some (Some (m, rb))"
    using run_consumer_take [OF worker_consume.hyps(3)] worker_consume.hyps(4) by simp
  from live_read_at_once [OF this *(4) [unfolded weak_start_at_once]]
  have "live_run z st0 st1 (weak_start_state (ring_of ?st)) [] sent (got @ [m])"
    unfolding st by (simp add: weak_start_at_once)
  moreover have "ring_eq st1 ?st" unfolding st using *(3) ring_eq_with ring_eq_trans by blast
  ultimately show ?case using *(2) by (auto simp: set_globals_def)
qed

end
