(* ===== verification/Lumbre_Session.thy ===== *)
theory Lumbre_Session
  imports Lumbre_Live
begin

text \<open>
  The properties of a worker and a consumer that run at the same time, and a concrete session of the
  two: a request of which one message is written, published and received.
\<close>

subsection \<open>How long the message of a request is\<close>

lemma enc_lengths:
  "length (enc_uint v) \<le> 9" "length (enc_str s) \<le> 5 + length s" "length (enc_bin d) \<le> 3 + length d"
  "length (enc_map_header n) \<le> 3" "length d \<le> length (enc_bin d)"
  by (simp_all add: enc_uint_def enc_str_def enc_str_header_def enc_bin_def enc_bin_header_def enc_map_header_def)

lemma root_image_length:
  assumes "sp_type s = LUMBRE_SPAN_HTTP_IN" and "length (sp_trace_id s) = 16"
  shows "length (span_image s) \<le> 200 + length (payload (sp_request_uri s) (sp_request_uri_len s)) +
      length (payload (sp_method s) (sp_method_len s))"
    and "16 \<le> length (span_image s)"
proof -
  let ?u = "payload (sp_request_uri s) (sp_request_uri_len s)" and ?m = "payload (sp_method s) (sp_method_len s)"
  have "length (enc_str (c_str k)) \<le> 5 + length k" for k using enc_lengths(2) [of "c_str k"] by (simp add: c_str_def)
  note keys = this [of "''t''"] this [of "''tid''"] this [of "''sid''"] this [of "''pid''"] this [of "''s''"]
    this [of "''d''"] this [of "''uri''"] this [of "''mth''"]
  note vals = enc_lengths(1) [of "ucast (sp_type s)"] enc_lengths(1) [of "sp_span_id s"]
    enc_lengths(1) [of "sp_parent_id s"] enc_lengths(1) [of "sp_start_ns s"] enc_lengths(1) [of "sp_duration_ns s"]
    enc_lengths(2) [of ?u] enc_lengths(2) [of ?m] enc_lengths(3,5) [of "sp_trace_id s"] enc_lengths(4) [of 8]
  have "length (span_image s) = length (enc_map_header 8) +
      (length (enc_str (c_str ''t'')) + length (enc_uint (ucast (sp_type s))) +
       length (enc_str (c_str ''tid'')) + length (enc_bin (sp_trace_id s)) +
       length (enc_str (c_str ''sid'')) + length (enc_uint (sp_span_id s)) +
       length (enc_str (c_str ''pid'')) + length (enc_uint (sp_parent_id s)) +
       length (enc_str (c_str ''s'')) + length (enc_uint (sp_start_ns s)) +
       length (enc_str (c_str ''d'')) + length (enc_uint (sp_duration_ns s)) +
       length (enc_str (c_str ''uri'')) + length (enc_str ?u) + length (enc_str (c_str ''mth'')) + length (enc_str ?m))"
    by (simp add: span_image_def enc_map_def span_fields_def common_fields_def own_fields_def assms(1)
        del: of_nat_numeral)
  with keys vals assms(2) show "length (span_image s) \<le> 200 + length ?u + length ?m" "16 \<le> length (span_image s)"
    by simp_all
qed

subsection \<open>A session\<close>

lemma sample_root:
  defines "root st \<equiv> g_root_span (ps_lumbre (rinit_root_span sample_os_request st))"
  shows "sp_request_uri (root st) = Some (c_str ''/index.php'')" "sp_request_uri_len (root st) = 10"
    "sp_method (root st) = Some (c_str ''GET'')" "sp_method_len (root st) = 3"
proof -
  have "c_str ''fpm-fcgi'' \<noteq> c_str ''cli''" by (simp add: c_str_def)
  then show "sp_request_uri (root st) = Some (c_str ''/index.php'')" "sp_request_uri_len (root st) = 10"
    "sp_method (root st) = Some (c_str ''GET'')" "sp_method_len (root st) = 3"
    by (simp_all add: root_def rinit_root_span_def sample_os_request_def c_string_or_empty_def
        lumbre_span_set_http_in_def Let_def split_beta)
qed

text \<open>The sample request, without calls, offers one message.\<close>

lemma sample_message:
  assumes ok: "worker_ok st" and init: "g_ringbuf_initialized (ps_lumbre st) \<noteq> 0" and en: "g_enabled (ps_lumbre st)"
  obtains m st1 out t where "request_messages sample_os_request [Echo s] st = [m]" "16 \<le> length m" "length m \<le> 256"
    "lumbre_rinit sample_os_request st = Some st1" "g_enabled (ps_lumbre st1)"
    "trace_activities (env_of st1) [Echo s] (tracer_of st1) = (out, [], t)" "m = span_image (root_final st1 t)"
proof -
  have m: "module_ok st" using ok by (simp add: worker_ok_def)
  obtain st1 where rinit: "lumbre_rinit sample_os_request st = Some st1"
    and started: "g_enabled (ps_lumbre st1) \<Longrightarrow> request_started st1"
    using rinit_spec [OF m sample_request_ok en] by auto
  have en1: "g_enabled (ps_lumbre st1)" using rinit_initialized(1) [OF rinit init] en by simp
  note started = started [OF en1]
  obtain st0 where root: "st1 = rinit_root_span sample_os_request st0"
    using rinit en init by (auto simp: lumbre_rinit_def rinit_ringbuf_def bind_eq_Some_conv Let_def)
  let ?m = "span_image (root_final st1 (tracer_of st1))"
  have "sp_type (root_final st1 (tracer_of st1)) = LUMBRE_SPAN_HTTP_IN"
    "length (sp_trace_id (root_final st1 (tracer_of st1))) = 16"
    using started
    by (auto simp: request_started_def root_ok_def ready_def root_final_def span_final_def span_truncated_def
        span_timed_def env_of_def Let_def)
  note len = root_image_length [OF this]
  have "length (payload (sp_request_uri (root_final st1 (tracer_of st1))) (sp_request_uri_len (root_final st1 (tracer_of st1)))) = 10"
    "length (payload (sp_method (root_final st1 (tracer_of st1))) (sp_method_len (root_final st1 (tracer_of st1)))) = 3"
    using sample_root [of st0]
    by (simp_all add: root root_final_def span_final_def span_truncated_def span_timed_def payload_def)
  with len have bounds: "length ?m \<le> 256" "16 \<le> length ?m" by simp_all
  have "cx_active (g_ctx (ps_lumbre st1)) \<noteq> 0" using started by (simp add: request_started_def ready_def Let_def)
  moreover have "te_capacity (env_of st1) = 16384"
  proof -
    have "module_ok st1" using rinit_spec [OF m sample_request_ok en] rinit by auto
    then show ?thesis
      using module_mp_ready started by (simp add: env_of_def request_started_def Let_def)
  qed
  ultimately have "request_messages sample_os_request [Echo s] st = [?m]"
    using bounds by (simp add: request_messages_def rinit offered_def)
  with bounds show thesis using that rinit en1 by simp
qed

text \<open>
  The session: the worker after its first request, with a fresh ring of 4096 bytes and tracing
  switched on, makes a second one, and the consumer reads its message.
\<close>

lemma sample_session:
  obtains st0 st m where "worker_ok st0" "g_ringbuf_initialized (ps_lumbre st0) \<noteq> 0" "ring_holds (ring_of st0) []"
    "worker sample_hooks st0 st [m] [m]"
proof -
  obtain st where run: "run_request sample_hooks sample_os_request [Echo (c_str ''a'')] sample_module = Some st"
    "g_ringbuf_initialized (ps_lumbre st) \<noteq> 0"
    using sample_request_run .
  have ok: "worker_ok st"
    using request_step [OF sample_module_ok(1) sample_request_ok sample_hooks_installed _ run(1), of "[]" 0]
      sample_module_ok(2) by (simp add: ring_state_def)
  obtain rb log where init: "lumbre_ringbuf_init (sample_os True) null_ring (c_str ''/tmp'') 42 0 4096 = (0, rb, log)"
    using sample_ring_init by blast
  have cap: "rb_capacity rb = 4096"
    using init by (auto simp: init_defs sample_os_def sample_path lumbre_next_power_of_2_def LUMBRE_IS_POWER_OF_TWO_def)
  have "\<not> ring_dead rb" using cap by (simp add: ring_dead_def)
  with init_ring_model [OF init] have empty: "ring_holds rb []" by (simp add: ring_model_def)
  define st0 where "st0 = with_ring rb (set_globals ((ps_lumbre st)\<lparr>g_enabled := True\<rparr>) st)"
  have st0: "worker_ok st0" "g_ringbuf_initialized (ps_lumbre st0) \<noteq> 0" "g_enabled (ps_lumbre st0)" "ring_of st0 = rb"
    using ok run(2) empty
    by (auto simp: st0_def worker_ok_def module_ok_def set_globals_def ring_model_def Let_def)
  let ?calls = "[Echo (c_str ''b'')]"
  obtain m st1 out t where m: "request_messages sample_os_request ?calls st0 = [m]" "length m \<le> 256"
    and rinit: "lumbre_rinit sample_os_request st0 = Some st1" "g_enabled (ps_lumbre st1)"
    and trace: "trace_activities (env_of st1) ?calls (tracer_of st1) = (out, [], t)"
    and img: "m = span_image (root_final st1 t)"
    using sample_message [OF st0(1-3)] by metis
  have calls: "list_all activity_ok ?calls" by simp
  have offset: "rb_offset rb = 0" by (rule init_fresh_offset [OF init])
  have model: "ring_model rb []" using empty by (simp add: ring_model_def)
  have "\<exists>st2. run_request sample_hooks sample_os_request ?calls st0 = Some st2"
  proof (rule request_returns [OF st0(1) sample_request_ok sample_hooks_installed calls st0(2)])
    fix st1 out spans t
    assume "trace_activities (env_of st1) ?calls (tracer_of st1) = (out, spans, t)"
    then show "ring_offers 16384 (map span_image (spans @ [root_final st1 t])) (ring_of st0) \<noteq> None"
      unfolding st0(4) by (intro one_message_offered [OF model offset]) auto
  qed
  then obtain st2 where run2: "run_request sample_hooks sample_os_request ?calls st0 = Some st2" by blast
  have "module_ok st0" using st0(1) by (simp add: worker_ok_def)
  from request_run [OF this sample_request_ok st0(3) sample_hooks_installed calls rinit trace run2]
  have "ring_offers 16384 [m] rb = Some (ring_of st2)"
    using rinit_initialized(2) [OF rinit(1) st0(2)] by (simp add: img st0(4))
  then obtain rc where put: "ring_put rb m = Some (rc, ring_of st2)" using m(2) by (auto simp: bind_eq_Some_conv)
  have "record_fits m" using m(2) by (simp add: record_fits_def)
  moreover have "ring_accepts rb m"
  proof -
    have "rb_used rb = 0" using init by (auto simp: init_defs rb_used_def rb_read_pos_def fresh_header_def split: if_splits)
    then show ?thesis using m(2) by (simp add: ring_accepts_def ring_cost_def offset rb_size_def cap)
  qed
  ultimately have "ring_model (ring_of st2) [m]" using ring_put_model [OF model, of m] put by simp
  then have holds: "ring_holds (ring_of st2) [m]" by (simp add: ring_model_def)
  then have unread: "rb_read_pos (ring_of st2) \<noteq> rb_write_pos (ring_of st2)" using ring_holds_empty by blast
  obtain rb' where take: "ringbuf_take (ring_of st2) = Some (m, rb')" using ringbuf_take_spec [OF holds] by blast
  have w: "worker sample_hooks st0 st2 [m] []"
    using worker_request [OF worker_start sample_request_ok calls run2] m(1) by simp
  have "worker_ok st2 \<and> g_ringbuf_initialized (ps_lumbre st2) \<noteq> 0"
    using sequential_worker [OF w st0(1,2) sample_hooks_installed] by blast
  with worker_consume [OF w _ unread take] st0 empty that show thesis by simp
qed

subsection \<open>Properties\<close>

text \<open>
  C3: A worker traced while its consumer reads, over memory with buffered stores. Between two requests
  every request can be made, and its code, run on whatever ring, makes exactly the calls of
  \<^verbatim>\<open>lumbre_ringbuf_write\<close> that its trace calls for, faulting only if one of these does. Whatever the
  requests, the settings changed between them, the moment each store reaches memory and the moments the
  consumer moves, the messages written so far are the first ones of those the requests' code put; what
  was received, then what the consumer can see, then what waits in the producer's buffer, is in order a
  subsequence of them; every other one is counted as a drop; and the consumer's next step never fails.
  Once a request has written its messages, the waiting stores can commit and the consumer, by its own
  steps alone, receive everything that was not counted as dropped.
\<close>

theorem live_worker_accounts:
  assumes "live_run z st0 st s todo sent got" and "worker_ok st0"
    and "g_ringbuf_initialized (ps_lumbre st0) \<noteq> 0" and "hooks_installed z" and "ring_holds (ring_of st0) []"
  shows "(\<exists>written ms ps. sent = written @ todo \<and> subseq (got @ ms @ ps) written \<and>
      ring_holds (consumer_view s) ms \<and> weak_consumer_step s \<noteq> None \<and>
      rb_dropped (wk_memory s) = rb_dropped (ring_of st0) + of_nat (length written - length (got @ ms @ ps)) \<and>
      (wk_stores s = [] \<and> wk_reads s = [] \<longrightarrow> ps = [] \<and> ring_holds (wk_memory s) ms)) \<and>
    (todo = [] \<longrightarrow> (\<exists>s' got' refused. live_run z st0 st s' [] sent got' \<and> wk_stores s' = [] \<and> prefix got got' \<and>
      subseq got' sent \<and> length sent = length got' + refused \<and>
      rb_dropped (wk_memory s') = rb_dropped (ring_of st0) + of_nat refused)) \<and>
    (todo = [] \<longrightarrow> (\<forall>rq calls. request_ok rq \<and> list_all activity_ok calls \<longrightarrow>
      (\<exists>st' msgs. msgs = request_messages rq calls st \<and>
        (\<forall>rb. run_request z rq calls (with_ring rb st) = map_option (\<lambda>rb'. with_ring rb' st') (ring_puts msgs rb)) \<and>
        live_run z st0 st' s msgs (sent @ msgs) got)))"
proof (intro conjI impI allI)
  from live_invariant [OF assms(1) live_workerI [OF assms(2,3)] assms(4)] obtain written acc refused where
    *: "sent = written @ todo" "weak_run (weak_start_state (ring_of st0)) s acc refused got" "subseq acc written"
    "length written = length acc + refused"
    by (auto simp: live_ok_def)
  from weak_run_safe_spec [OF *(2) assms(5)] obtain ms ps where "acc = got @ ms @ ps"
    "ring_holds (consumer_view s) ms" "rb_dropped (wk_memory s) = rb_dropped (ring_of st0) + of_nat refused"
    "weak_consumer_step s \<noteq> None" "wk_stores s = [] \<and> wk_reads s = [] \<longrightarrow> ps = [] \<and> ring_holds (wk_memory s) ms"
    by blast
  with * show "\<exists>written ms ps. sent = written @ todo \<and> subseq (got @ ms @ ps) written \<and>
      ring_holds (consumer_view s) ms \<and> weak_consumer_step s \<noteq> None \<and>
      rb_dropped (wk_memory s) = rb_dropped (ring_of st0) + of_nat (length written - length (got @ ms @ ps)) \<and>
      (wk_stores s = [] \<and> wk_reads s = [] \<longrightarrow> ps = [] \<and> ring_holds (wk_memory s) ms)"
    by (intro exI [of _ written] exI [of _ ms] exI [of _ ps]) simp
next
  assume "todo = []"
  with live_drains [OF _ assms(2-5)] assms(1)
  show "\<exists>s' got' refused. live_run z st0 st s' [] sent got' \<and> wk_stores s' = [] \<and> prefix got got' \<and>
      subseq got' sent \<and> length sent = length got' + refused \<and>
      rb_dropped (wk_memory s') = rb_dropped (ring_of st0) + of_nat refused"
    by simp
next
  fix rq calls
  assume "todo = []" and ok: "request_ok rq \<and> list_all activity_ok calls"
  with assms(1) have run: "live_run z st0 st s [] sent got" by simp
  from live_next_request [OF run assms(2-4) conjunct1 [OF ok] conjunct2 [OF ok]]
  show "\<exists>st' msgs. msgs = request_messages rq calls st \<and>
      (\<forall>rb. run_request z rq calls (with_ring rb st) = map_option (\<lambda>rb'. with_ring rb' st') (ring_puts msgs rb)) \<and>
      live_run z st0 st' s msgs (sent @ msgs) got"
    by blast
qed

text \<open>The sample session, and a next request of it with no calls, on any ring.\<close>

theorem live_worker_accounts_witness:
  "\<exists>st0 st1 st2 rb m msgs. live_run sample_hooks st0 st1 (weak_start_state rb) [] [m] [m] \<and>
     rb_dropped rb = rb_dropped (ring_of st0) \<and>
     (\<forall>rb. run_request sample_hooks sample_os_request [] (with_ring rb st1) =
        map_option (\<lambda>rb'. with_ring rb' st2) (ring_puts msgs rb)) \<and>
     live_run sample_hooks st0 st2 (weak_start_state rb) msgs (m # msgs) [m]"
proof -
  obtain st0 st m where s: "worker_ok st0" "g_ringbuf_initialized (ps_lumbre st0) \<noteq> 0" "ring_holds (ring_of st0) []"
    "worker sample_hooks st0 st [m] [m]"
    using sample_session .
  obtain st1 where st1: "ring_eq st1 st" "live_run sample_hooks st0 st1 (weak_start_state (ring_of st)) [] [m] [m]"
    using sequential_worker [OF s(4,1,2) sample_hooks_installed] by blast
  note accounts = live_worker_accounts [OF st1(2) s(1,2) sample_hooks_installed s(3)]
  have "rb_dropped (ring_of st) = rb_dropped (ring_of st0)"
    using conjunct1 [OF accounts] by (auto simp: weak_start_state_def dest: list_emb_length)
  moreover have "request_ok sample_os_request \<and> list_all activity_ok []" using sample_request_ok by simp
  with accounts obtain st2 msgs where
    "\<forall>rb. run_request sample_hooks sample_os_request [] (with_ring rb st1) =
       map_option (\<lambda>rb'. with_ring rb' st2) (ring_puts msgs rb)"
    "live_run sample_hooks st0 st2 (weak_start_state (ring_of st)) msgs ([m] @ msgs) [m]"
    by blast
  ultimately show ?thesis
    using st1(2)
    by (intro exI [of _ st0] exI [of _ st1] exI [of _ st2] exI [of _ "ring_of st"] exI [of _ m] exI [of _ msgs]) simp
qed

text \<open>
  C5: The worker whose consumer reads between requests only is a special case: every run of it from an
  initialised ring is a run of the worker with a concurrent consumer, to the same messages sent and
  received, the ring in memory being the worker's.
\<close>

theorem sequential_workers_are_live:
  assumes "worker z st0 st sent got" and "worker_ok st0" and "g_ringbuf_initialized (ps_lumbre st0) \<noteq> 0"
    and "hooks_installed z"
  shows "\<exists>rb. live_run z st0 (with_ring rb st) (weak_start_state (ring_of st)) [] sent got"
proof -
  obtain st1 where "ring_eq st1 st" "live_run z st0 st1 (weak_start_state (ring_of st)) [] sent got"
    using sequential_worker [OF assms] by blast
  moreover from ring_eq_sym [OF this(1)] obtain rb where "st1 = with_ring rb st" by (auto simp: ring_eq_def)
  ultimately show ?thesis by blast
qed

theorem sequential_workers_are_live_witness:
  "\<exists>st0 st m rb. live_run sample_hooks st0 (with_ring rb st) (weak_start_state (ring_of st)) [] [m] [m]"
  using sample_session sequential_workers_are_live [OF _ _ _ sample_hooks_installed] by metis

end
