(* ===== verification/Lumbre_Threads.thy ===== *)
theory Lumbre_Threads
  imports Lumbre_Printing Lumbre_Scenario
begin

text \<open>
  A process with many threads, as in a build with thread safety: every thread has globals of its own,
  and all share the worker counter, which \<^verbatim>\<open>RINIT\<close> advances by an atomic fetch-and-add. The threads'
  lifecycle functions and calls interleave in any order; no two threads ever share a ring file.
\<close>

subsection \<open>The process\<close>

record process =
  pr_thread :: "nat \<Rightarrow> php_state"
  pr_counter :: u64

text \<open>
  The steps of a thread \<open>i\<close>; the number counts how often the counter was drawn from. The counter that
  a thread sees is the shared one.
\<close>

definition thread_view :: "process \<Rightarrow> nat \<Rightarrow> php_state" where
  "thread_view p i = (pr_thread p i)\<lparr>ps_worker_counter := pr_counter p\<rparr>"

definition thread_step :: "process \<Rightarrow> nat \<Rightarrow> php_state \<Rightarrow> process" where
  "thread_step p i st = p\<lparr>pr_thread := (pr_thread p)(i := st), pr_counter := ps_worker_counter st\<rparr>"

inductive process_run :: "zend_hooks \<Rightarrow> u32 \<Rightarrow> process \<Rightarrow> nat \<Rightarrow> process \<Rightarrow> bool" for z pid p0 where
  process_start: "process_run z pid p0 0 p0"
| process_rinit: "process_run z pid p0 n p \<Longrightarrow> rq_zts rq \<Longrightarrow> rq_pid rq = pid \<Longrightarrow>
    lumbre_rinit rq (thread_view p i) = Some st \<Longrightarrow>
    process_run z pid p0 (if ps_worker_counter st = pr_counter p then n else Suc n) (thread_step p i st)"
| process_calls: "process_run z pid p0 n p \<Longrightarrow> run_activities z calls (thread_view p i) = Some (out, st) \<Longrightarrow>
    process_run z pid p0 n (thread_step p i st)"
| process_rshutdown: "process_run z pid p0 n p \<Longrightarrow> lumbre_rshutdown (thread_view p i) = Some st \<Longrightarrow>
    process_run z pid p0 n (thread_step p i st)"

subsection \<open>What keeps a ring's path\<close>

definition file_of :: "php_state \<Rightarrow> bytes" where
  "file_of st = rb_path (ring_of st)"

definition thread_ring :: "php_state \<Rightarrow> bool \<times> bytes \<times> u64" where
  "thread_ring st = (g_ringbuf_initialized (ps_lumbre st) \<noteq> 0, file_of st, ps_worker_counter st)"

lemma write_path:
  assumes "lumbre_ringbuf_write rb p n = Some (rc, rb')"
  shows "rb_path rb' = rb_path rb"
proof -
  obtain h where h: "rb_header rb = Some h"
    using assms by (auto simp: lumbre_ringbuf_write_def bind_eq_Some_conv)
  have ends: "ringbuf_drop rb1 h = Some (rc, rb') \<Longrightarrow> rb_path rb' = rb_path rb1"
    "ringbuf_commit rb1 h offset p n needed = Some (rc, rb') \<Longrightarrow> rb_path rb' = rb_path rb1" for rb1 offset p n needed
    by (auto simp: ringbuf_drop_def ringbuf_commit_def bind_eq_Some_conv Let_def)
  show ?thesis
    using assms unfolding lumbre_ringbuf_write_def h Let_def
    by (simp only: bind.bind_lunit split: if_splits) (auto simp: bind_eq_Some_conv dest!: ends)
qed

lemma finish_path:
  "lumbre_span_finish s rb mp ctx m q ts = Some (rc, s1, rb1, mp1, ctx1) \<Longrightarrow> rb_path rb1 = rb_path rb"
  by (auto simp: lumbre_span_finish_def Let_def bind_eq_Some_conv dest: write_path split: if_splits)

lemma finish_call_ring: "finish_call s st = Some st' \<Longrightarrow> thread_ring st' = thread_ring st"
  by (auto simp: finish_call_def thread_ring_def file_of_def ring_of_def set_globals_def Let_def bind_eq_Some_conv
      dest: finish_path)

lemma rshutdown_ring: "lumbre_rshutdown st = Some st' \<Longrightarrow> thread_ring st' = thread_ring st"
  by (auto simp: lumbre_rshutdown_def thread_ring_def file_of_def ring_of_def Let_def bind_eq_Some_conv
      dest: finish_path split: if_splits)

interpretation thread: run_kept thread_ring
  by unfold_locales
    (simp_all add: finish_call_ring, simp_all add: thread_ring_def file_of_def ring_of_def set_globals_def)

text \<open>
  \<^verbatim>\<open>RINIT\<close> keeps a ring that is there; otherwise it may draw a number, and a ring it makes has that
  number in its path.
\<close>

lemma rinit_ringbuf_draws:
  assumes "rinit_ringbuf rq st = Some (ok, st1)" and "rq_zts rq"
  shows "thread_ring st1 = thread_ring st \<or>
    g_ringbuf_initialized (ps_lumbre st) = 0 \<and> ps_worker_counter st1 = ps_worker_counter st + 1 \<and>
    (g_ringbuf_initialized (ps_lumbre st1) \<noteq> 0 \<longrightarrow>
      (\<exists>d. file_of st1 = lumbre_ringbuf_path d (rq_pid rq) (ps_worker_counter st)))"
  using assms
  by (auto simp: rinit_ringbuf_def thread_ring_def file_of_def ring_of_def lumbre_worker_id_def init_defs
      bind_eq_Some_conv split: if_splits)

lemma rinit_thread_ring:
  assumes "lumbre_rinit rq st = Some st1"
  shows "\<not> g_enabled (ps_lumbre st) \<and> st1 = st \<or>
    (\<exists>ok st0. rinit_ringbuf rq st = Some (ok, st0) \<and> thread_ring st1 = thread_ring st0)"
proof -
  have "thread_ring (rinit_root_span rq st) = thread_ring st" for st
    by (simp add: rinit_root_span_def thread_ring_def file_of_def ring_of_def Let_def split: prod.splits)
  with assms show ?thesis
    by (auto simp: lumbre_rinit_def bind_eq_Some_conv thread_ring_def file_of_def ring_of_def Let_def split: if_splits)
qed

lemma of_nat_u64_inject:
  "k < 18446744073709551616 \<Longrightarrow> l < 18446744073709551616 \<Longrightarrow> (of_nat k :: u64) = of_nat l \<longleftrightarrow> k = l"
  by (simp add: word_unat_eq_iff unat_of_nat)

subsection \<open>No two threads share a file\<close>

text \<open>
  The invariant, after \<open>n\<close> numbers were drawn: the counter has advanced by \<open>n\<close>, and the threads that
  have a ring can be numbered below \<open>n\<close>, without repetition, so that each has its number in its path.
\<close>

definition thread_numbered :: "u32 \<Rightarrow> u64 \<Rightarrow> process \<Rightarrow> nat \<Rightarrow> nat \<Rightarrow> bool" where
  "thread_numbered pid c0 p i k \<longleftrightarrow>
     (\<exists>d. file_of (pr_thread p i) = lumbre_ringbuf_path d pid (c0 + of_nat k))"

definition has_ring :: "process \<Rightarrow> nat \<Rightarrow> bool" where
  "has_ring p i \<longleftrightarrow> g_ringbuf_initialized (ps_lumbre (pr_thread p i)) \<noteq> 0"

definition numbering :: "u32 \<Rightarrow> u64 \<Rightarrow> nat \<Rightarrow> process \<Rightarrow> (nat \<Rightarrow> nat) \<Rightarrow> bool" where
  "numbering pid c0 n p f \<longleftrightarrow> pr_counter p = c0 + of_nat n \<and> inj_on f {i. has_ring p i} \<and>
     (\<forall>i. has_ring p i \<longrightarrow> f i < n \<and> thread_numbered pid c0 p i (f i))"

lemma numbering_kept:
  assumes "numbering pid c0 n p f" and "thread_ring st = thread_ring (thread_view p i)"
  shows "numbering pid c0 n (thread_step p i st) f"
proof -
  have same: "has_ring (thread_step p i st) = has_ring p"
    "thread_numbered pid c0 (thread_step p i st) = thread_numbered pid c0 p"
    "pr_counter (thread_step p i st) = pr_counter p"
    using assms(2)
    by (auto simp: has_ring_def thread_numbered_def thread_step_def thread_view_def thread_ring_def file_of_def
        ring_of_def fun_eq_iff)
  with assms(1) show ?thesis by (simp add: numbering_def)
qed

lemma numbering_drawn:
  assumes "numbering pid c0 n p f" and "\<not> has_ring p i" and "ps_worker_counter st = pr_counter p + 1"
    and path: "g_ringbuf_initialized (ps_lumbre st) \<noteq> 0 \<Longrightarrow> \<exists>d. file_of st = lumbre_ringbuf_path d pid (pr_counter p)"
  shows "numbering pid c0 (Suc n) (thread_step p i st) (f(i := n))"
proof -
  let ?p = "thread_step p i st"
  have others: "has_ring ?p j \<longleftrightarrow> has_ring p j" "thread_numbered pid c0 ?p j k \<longleftrightarrow> thread_numbered pid c0 p j k"
    if "j \<noteq> i" for j k
    using that by (simp_all add: has_ring_def thread_numbered_def thread_step_def)
  have "thread_numbered pid c0 ?p i n" if "has_ring ?p i"
    using that path assms(1) by (auto simp: has_ring_def thread_numbered_def thread_step_def numbering_def)
  with others have all: "(f(i := n)) j < Suc n \<and> thread_numbered pid c0 ?p j ((f(i := n)) j)" if "has_ring ?p j" for j
    using that assms(1) by (cases "j = i") (auto simp: numbering_def less_Suc_eq)
  have "inj_on (f(i := n)) {j. has_ring ?p j}"
  proof (rule inj_onI)
    fix j k assume "j \<in> {j. has_ring ?p j}" "k \<in> {j. has_ring ?p j}" "(f(i := n)) j = (f(i := n)) k"
    with others [of j] others [of k] assms(1) show "j = k"
      by (cases "j = i"; cases "k = i") (auto simp: numbering_def inj_on_def)
  qed
  moreover have "pr_counter ?p = c0 + of_nat (Suc n)"
    using assms(1,3) by (simp add: thread_step_def numbering_def algebra_simps)
  ultimately show ?thesis using all by (auto simp: numbering_def)
qed

lemma process_numbered:
  assumes "process_run z pid p0 n p" and "\<And>i. \<not> has_ring p0 i"
  shows "\<exists>f. numbering pid (pr_counter p0) n p f"
  using assms
proof (induction rule: process_run.induct)
  case process_start
  then show ?case by (auto simp: numbering_def)
next
  case (process_rinit n p rq i st)
  then obtain f where f: "numbering pid (pr_counter p0) n p f" by blast
  consider "thread_ring st = thread_ring (thread_view p i)"
    | "\<not> has_ring p i" "ps_worker_counter st = pr_counter p + 1"
      "g_ringbuf_initialized (ps_lumbre st) \<noteq> 0 \<Longrightarrow> \<exists>d. file_of st = lumbre_ringbuf_path d pid (pr_counter p)"
    using rinit_thread_ring [OF process_rinit.hyps(4)] rinit_ringbuf_draws [OF _ process_rinit.hyps(2)]
      process_rinit.hyps(3)
    by (fastforce simp: thread_ring_def has_ring_def thread_view_def)
  then show ?case
  proof cases
    case 1
    then have "ps_worker_counter st = pr_counter p" by (simp add: thread_ring_def thread_view_def)
    with numbering_kept [OF f 1] show ?thesis by auto
  next
    case 2
    from numbering_drawn [OF f 2] 2(2) show ?thesis by auto
  qed
next
  case (process_calls n p calls i out st)
  with numbering_kept thread.run_kept(2) show ?case by blast
next
  case (process_rshutdown n p i st)
  with numbering_kept rshutdown_ring show ?case by blast
qed

text \<open>
  C16: However the requests of a process's threads interleave, in a build with thread safety: two threads
  that both have a ring have different ring files, whatever directories are configured and however many
  initialisations failed, as long as the shared 64-bit counter was drawn from at most 2^64 times.
\<close>

theorem thread_files_distinct:
  assumes run: "process_run z pid p0 n p" and none: "\<And>i. g_ringbuf_initialized (ps_lumbre (pr_thread p0 i)) = 0"
    and n: "n \<le> 18446744073709551616" and "i \<noteq> j"
    and ij: "g_ringbuf_initialized (ps_lumbre (pr_thread p i)) \<noteq> 0"
      "g_ringbuf_initialized (ps_lumbre (pr_thread p j)) \<noteq> 0"
  shows "rb_path (g_ringbuf (ps_lumbre (pr_thread p i))) \<noteq> rb_path (g_ringbuf (ps_lumbre (pr_thread p j)))"
proof -
  obtain f where f: "numbering pid (pr_counter p0) n p f"
    using process_numbered [OF run] none by (auto simp: has_ring_def)
  have rings: "has_ring p i" "has_ring p j" using ij by (simp_all add: has_ring_def)
  with f \<open>i \<noteq> j\<close> have "f i \<noteq> f j" "f i < n" "f j < n" by (auto simp: numbering_def inj_on_def)
  then have "(of_nat (f i) :: u64) \<noteq> of_nat (f j)" using n of_nat_u64_inject by auto
  moreover from f rings have "thread_numbered pid (pr_counter p0) p i (f i)" "thread_numbered pid (pr_counter p0) p j (f j)"
    by (simp_all add: numbering_def)
  then obtain d d' where "file_of (pr_thread p i) = lumbre_ringbuf_path d pid (pr_counter p0 + of_nat (f i))"
    "file_of (pr_thread p j) = lumbre_ringbuf_path d' pid (pr_counter p0 + of_nat (f j))"
    unfolding thread_numbered_def by blast
  ultimately show ?thesis by (simp add: file_of_def ring_of_def ringbuf_path_inject)
qed

text \<open>Two threads of the sample module that both start a traced request.\<close>

definition zts_request :: php_request where
  "zts_request = sample_os_request\<lparr>rq_zts := True\<rparr>"

lemma zts_rinit:
  assumes "c \<le> 9"
  obtains st1 where "lumbre_rinit zts_request (sample_module\<lparr>ps_worker_counter := c\<rparr>) = Some st1"
    "g_ringbuf_initialized (ps_lumbre st1) \<noteq> 0" "ps_worker_counter st1 = c + 1"
proof -
  let ?st = "sample_module\<lparr>ps_worker_counter := c\<rparr>"
  have "unat c < 10" using assms by (simp add: word_le_nat_alt)
  then have "length (lumbre_ringbuf_path (c_str ''/tmp'') 42 c) = 16"
    by (simp add: lumbre_ringbuf_path_def c_decimal.simps)
  then have ring: "\<exists>st0. rinit_ringbuf zts_request ?st = Some (True, st0) \<and>
      g_ringbuf_initialized (ps_lumbre st0) \<noteq> 0 \<and> ps_worker_counter st0 = c + 1"
    by (simp add: rinit_ringbuf_def sample_module_def sample_globals_def zero_globals_def zts_request_def
        sample_os_request_def lumbre_worker_id_def init_defs sample_os_def)
  have m: "module_ok ?st" using sample_module_ok(1) by (simp add: worker_ok_def module_ok_def Let_def)
  have rq: "request_ok zts_request" using sample_request_ok by (simp add: request_ok_def zts_request_def)
  have en: "g_enabled (ps_lumbre ?st)" using sample_module_ok(3) by simp
  from rinit_spec [OF m rq en] obtain st1 where st1: "lumbre_rinit zts_request ?st = Some st1" by auto
  from rinit_thread_ring [OF this] en ring have
    "g_ringbuf_initialized (ps_lumbre st1) \<noteq> 0" "ps_worker_counter st1 = c + 1"
    by (auto simp: thread_ring_def)
  with st1 show thesis by (rule that)
qed

theorem thread_files_distinct_witness:
  "\<exists>p. process_run sample_hooks 42 \<lparr>pr_thread = \<lambda>_. sample_module, pr_counter = 0\<rparr> 2 p \<and>
     rb_path (g_ringbuf (ps_lumbre (pr_thread p 0))) \<noteq> rb_path (g_ringbuf (ps_lumbre (pr_thread p 1)))"
proof -
  let ?p0 = "\<lparr>pr_thread = \<lambda>_. sample_module, pr_counter = 0\<rparr>"
  obtain st0 where st0: "lumbre_rinit zts_request (thread_view ?p0 0) = Some st0"
    "g_ringbuf_initialized (ps_lumbre st0) \<noteq> 0" "ps_worker_counter st0 = 1"
    using zts_rinit [of 0] by (auto simp: thread_view_def)
  let ?p1 = "thread_step ?p0 0 st0"
  obtain st1 where st1: "lumbre_rinit zts_request (thread_view ?p1 1) = Some st1"
    "g_ringbuf_initialized (ps_lumbre st1) \<noteq> 0" "ps_worker_counter st1 = 2"
    using zts_rinit [of 1] st0(3) by (auto simp: thread_view_def thread_step_def)
  let ?p2 = "thread_step ?p1 1 st1"
  have rq: "rq_zts zts_request" "rq_pid zts_request = 42" by (simp_all add: zts_request_def sample_os_request_def)
  have "process_run sample_hooks 42 ?p0 1 ?p1"
    using process_rinit [OF process_start [of sample_hooks 42 ?p0] rq st0(1)] st0(3) by simp
  from process_rinit [OF this rq st1(1)] have "process_run sample_hooks 42 ?p0 2 ?p2"
    using st0(3) st1(3) by (simp add: thread_step_def numeral_2_eq_2)
  moreover have "rb_path (g_ringbuf (ps_lumbre (pr_thread ?p2 0))) \<noteq> rb_path (g_ringbuf (ps_lumbre (pr_thread ?p2 1)))"
    using st0(2) st1(2) sample_module_ok(2)
    by (intro thread_files_distinct [OF \<open>process_run sample_hooks 42 ?p0 2 ?p2\<close>]) (simp_all add: thread_step_def)
  ultimately show ?thesis by blast
qed

end
