(* ===== verification/Spec2Isabelle.thy ===== *)
theory Spec2Isabelle
  imports Lumbre_Lifetime Lumbre_Session Lumbre_Threads Lumbre_Policy
begin

text \<open>
  A verification development of \<^verbatim>\<open>lumbre\<close>, a PHP extension in C that traces requests. The extension
  installs two hooks in the Zend engine; a hook that meets a call worth tracing starts a span, lets
  the engine run the call, finishes the span, encodes it as a msgpack map and writes it to a
  single-producer single-consumer ring buffer in shared memory, from which a daemon reads it.

  \<^bold>\<open>The parts, their sources and their theories.\<close>

  \<^item> Byte regions, machine integers, C strings: \<^verbatim>\<open>Lumbre_Prelude\<close>. A C function that touches memory is
    a function into an option: None is an access outside the object (undefined behaviour), and what
    the code itself reports, return codes included, is inside Some. Integers have their C widths.
  \<^item> Packer (\<^verbatim>\<open>lumbre_msgpack.c\<close>): \<^verbatim>\<open>Lumbre_Msgpack\<close>, over the wire format of \<^verbatim>\<open>Lumbre_Msgpack_Format\<close>
    (encoders, and the decoders of a reader, with their round trips).
  \<^item> Ring buffer (\<^verbatim>\<open>lumbre_ringbuf.c\<close>): \<^verbatim>\<open>Lumbre_Pow2\<close> (rounding), \<^verbatim>\<open>Lumbre_Ringbuf\<close> (handle, header,
    init, write, destroy, reset, and the bytes of the shared file by C's layout rules for a packed and an
    unpacked struct), \<^verbatim>\<open>Lumbre_Ringbuf_Lifecycle\<close> (the file, resources), \<^verbatim>\<open>Lumbre_Ringbuf_Queue\<close> (the
    ring as a queue of messages; the consumer, as \<^verbatim>\<open>tests/test_ringbuf.c\<close> simulates it),
    \<^verbatim>\<open>Lumbre_Fifo\<close> (the contract of a queue that may refuse, as two locales, and the ring as their
    interpretation), \<^verbatim>\<open>Lumbre_Ringbuf_Any\<close> (rings of any requested size, unusable ones included),
    \<^verbatim>\<open>Lumbre_Concurrent\<close> (producer and consumer interleaved access by access), \<^verbatim>\<open>Lumbre_Weak\<close> (the same
    with store buffers: what the relaxed and release orderings have to achieve). The consumers of these
    two are not code of the repository: they generalise the loop of the tests, which polls \<^verbatim>\<open>write_pos\<close>
    and publishes \<^verbatim>\<open>read_pos\<close> once for a batch, to one that may do both for every message.
  \<^item> Whitelist (\<^verbatim>\<open>lumbre_whitelist.c\<close>): \<^verbatim>\<open>Lumbre_Probing\<close> (open addressing as a locale),
    \<^verbatim>\<open>Lumbre_Whitelist\<close> (static table, FNV-1a, keys, insertion, lookup), \<^verbatim>\<open>Lumbre_Whitelist_Correct\<close>,
    \<^verbatim>\<open>Lumbre_Policy\<close> (which classes are traced, and how a database call is labelled).
  \<^item> Spans (\<^verbatim>\<open>lumbre_span.c\<close>, \<^verbatim>\<open>lumbre_span.h\<close>): \<^verbatim>\<open>Lumbre_Span\<close>, \<^verbatim>\<open>Lumbre_Span_Correct\<close>.
  \<^item> Module (\<^verbatim>\<open>php_lumbre.c\<close>, \<^verbatim>\<open>php_lumbre.h\<close>): \<^verbatim>\<open>Lumbre_Module\<close> (globals, configuration table and the
    mode handler, the five lifecycle functions, header parsing), \<^verbatim>\<open>Lumbre_Module_Correct\<close>,
    \<^verbatim>\<open>Lumbre_Printing\<close> (the page of \<^verbatim>\<open>phpinfo\<close>, and that ring files have distinct names),
    \<^verbatim>\<open>Lumbre_Hooks\<close> (the two hooks, and requests as trees of calls that go through them; every call
    records the engine function it reached, so that calling the wrong one shows).
  \<^item> Composition: \<^verbatim>\<open>Lumbre_Trace\<close> (what tracing means, without buffers, the contents of
    the spans included), \<^verbatim>\<open>Lumbre_Trace_Correct\<close> (the hooks implement it), \<^verbatim>\<open>Lumbre_Transparency\<close> (they do not change the program), \<^verbatim>\<open>Lumbre_Request\<close>
    (one request), \<^verbatim>\<open>Lumbre_Worker\<close> (all requests of a process, and its consumer), \<^verbatim>\<open>Lumbre_Scenario\<close>
    (a concrete worker), \<^verbatim>\<open>Lumbre_Independence\<close> (the ring has no influence on a request),
    \<^verbatim>\<open>Lumbre_Live\<close> and \<^verbatim>\<open>Lumbre_Session\<close> (a worker and a consumer at the same time, over the buffered
    memory), \<^verbatim>\<open>Lumbre_Threads\<close> (the threads of one process and their ring files),
    \<^verbatim>\<open>Lumbre_Lifetime\<close> (the module entry, and the system resources from load to unload),
    and this theory (the properties that span components).

  \<^bold>\<open>State.\<close> The module globals of \<^verbatim>\<open>php_lumbre.h\<close> are the record \<open>lumbre_globals\<close>, with the ring handle,
  the serialisation buffer, the trace context, the root span and the whitelist as records of their
  own; \<open>php_state\<close> adds what outlives a call and is not the module's: clock, worker counter, system
  calls made, warnings, output, and the engine functions reached with their frames. Every function takes the state it may change and returns it updated.

  \<^bold>\<open>What the lemmas show.\<close> Packers write exactly the wire format or fail without harm, and what they
  write decodes to what was packed. The ring is a bounded first-in first-out queue whose refusals are
  counted, also when every byte store interleaves with the consumer, and also when stores wait in
  buffers and reach memory late and out of order, as long as the release store does not overtake them;
  what it accepted can always still be received. Both access-level producers compute the same ring as
  \<^verbatim>\<open>lumbre_ringbuf_write\<close>. Its one fault, the padding marker written across the
  end of the ring, is characterised exactly. The hash table agrees with the static table on every
  name. Spans are linked by a stack that every path of the finish unwinds. The hooks
  refine the abstract tracing, so a request and a whole worker do. The ring is an output only: its
  state never changes what a request does, and on every ring a request has exactly the effect of the
  writes its trace calls for, so the guarantees of the ring under concurrent reads carry over to a worker
  whose consumer reads at any time; the threads of a process, which share the atomic
  worker counter, have ring files of their own. Loading and unloading the module leaves the engine's hooks
  and the system's resources as they were, for one set of globals: in a build with thread safety
  \<^verbatim>\<open>MSHUTDOWN\<close> sees the globals of its own thread only and there is no \<^verbatim>\<open>GSHUTDOWN\<close>, so the rings of
  other threads are outside that statement, and the code never gives them back.

  \<^bold>\<open>Loops, bounds and fuel.\<close> The probing loops are partial functions, and are proved to return; the
  other loops are structural. The producer's step machine runs on fuel, and \<open>length p + 11\<close> is proved
  to be enough. A ring of less than 3 bytes or more than 2 GiB is not usable: it refuses every message,
  and the statements about requests and workers cover it as a queue that stays empty. The statements
  about strings need less than 2^32 - 5 bytes, where the packer's 32-bit sizes wrap.

  \<^bold>\<open>Memory.\<close> \<^verbatim>\<open>Lumbre_Weak\<close> assumes of the machine what C's orderings and the compiler's respect for
  control dependencies give: a store of the producer is issued after the load of \<^verbatim>\<open>read_pos\<close> that admits
  it, two stores to one byte keep their order, the release store follows the stores before it, the
  loads of the consumer follow its acquire load, and its release store follows its loads.

  \<^bold>\<open>Parameters.\<close> The operating system's answers to \<^verbatim>\<open>open\<close>, \<^verbatim>\<open>ftruncate\<close> and \<^verbatim>\<open>mmap\<close>, the random source,
  the allocator, \<^verbatim>\<open>$_SERVER\<close>, the SAPI's request info, PHP's registration of the configuration table
  and its reading of booleans and numbers, and the engine's functions behind the hook pointers. A
  bailout of the engine is an outcome that passes the hooks by. A span keeps pointers to the strings
  of its call; the model keeps the strings, so it relies on the engine to leave them alive and
  unchanged until the call has returned and its span is finished.

  \<^bold>\<open>Not modelled.\<close> The macros of Zend around the module entry (\<^verbatim>\<open>ZEND_GET_MODULE\<close>, the thread-local
  storage glue of ZTS builds), which are not code of the repository; build files and tests, but for
  the consumer's loop; the daemon, which is another repository.
\<close>

subsection \<open>The life of a worker\<close>

text \<open>
  C2: Every message of a worker is accounted for, over its whole life: from the module's start,
  after any sequence of requests (traced or not, ended normally or by a bailout), configuration
  changes and reads of the consumer, the module's invariant holds, no context is left active, and
  what the consumer took, followed by what the ring holds, is a subsequence of the messages the
  requests offered, the missing ones being exactly those the drop counter has counted. Whenever
  the ring's positions differ, the consumer's read succeeds and returns the oldest message.
\<close>

theorem worker_lifetime:
  assumes "worker z st0 st sent got" and "worker_ok st0" and "g_ringbuf_initialized (ps_lumbre st0) = 0"
    and "hooks_installed z"
  shows "worker_ok st \<and> (\<exists>rest. subseq (got @ rest) sent \<and>
    (if g_ringbuf_initialized (ps_lumbre st) = 0 then rest = []
     else ring_model (ring_of st) rest \<and>
       rb_dropped (ring_of st) = of_nat (length sent - length (got @ rest)) \<and>
       (if rb_read_pos (ring_of st) = rb_write_pos (ring_of st) then rest = []
        else \<exists>m rb. ringbuf_take (ring_of st) = Some (m, rb) \<and> rest = m # tl rest)))"
proof -
  obtain rest where *: "worker_ok st" "subseq (got @ rest) sent"
    "ring_state st rest (of_nat (length sent - length (got @ rest)))"
    using worker_accounts [OF assms] by blast
  show ?thesis
  proof (cases "g_ringbuf_initialized (ps_lumbre st) = 0")
    case True
    with * show ?thesis by (auto simp: ring_state_def)
  next
    case False
    then have holds: "ring_model (ring_of st) rest" using *(3) by (simp add: ring_state_def)
    have "if rb_read_pos (ring_of st) = rb_write_pos (ring_of st) then rest = []
        else \<exists>m rb. ringbuf_take (ring_of st) = Some (m, rb) \<and> rest = m # tl rest"
    proof (cases "rb_read_pos (ring_of st) = rb_write_pos (ring_of st)")
      case True
      with ring_model_empty [OF holds] show ?thesis by simp
    next
      case unread: False
      from unread_message_model [OF holds this] obtain m ms where "rest = m # ms"
        using unread_message unread by metis
      with ring_model_take [of "ring_of st" m ms] holds unread show ?thesis by auto
    qed
    with * False holds show ?thesis by (auto simp: ring_state_def)
  qed
qed

theorem worker_lifetime_witness:
  "\<exists>st rest. worker sample_hooks sample_module st
       (request_messages sample_os_request [Echo (c_str ''a'')] sample_module) [] \<and>
     worker_ok st \<and>
     subseq rest (request_messages sample_os_request [Echo (c_str ''a'')] sample_module) \<and>
     g_ringbuf_initialized (ps_lumbre st) \<noteq> 0 \<and> ring_model (ring_of st) rest"
proof -
  obtain st where run: "run_request sample_hooks sample_os_request [Echo (c_str ''a'')] sample_module = Some st"
    "g_ringbuf_initialized (ps_lumbre st) \<noteq> 0"
    using sample_request_run .
  have w: "worker sample_hooks sample_module st
      ([] @ request_messages sample_os_request [Echo (c_str ''a'')] sample_module) []"
    by (rule worker_request [OF worker_start sample_request_ok _ run(1)]) simp
  from worker_lifetime [OF this sample_module_ok(1,2) sample_hooks_installed] w run(2)
  show ?thesis by auto
qed

subsection \<open>One request\<close>

text \<open>
  C1: A traced request, end to end: the ring gains, in the order in which the calls returned and
  with the request's own span last, the msgpack images of the spans that the abstract tracing of
  the workload describes, less those it had no room for, each of them counted as a drop (an image
  larger than the 16 KiB serialisation buffer is never offered); afterwards the module's invariant
  holds again and the context is inactive. The request faults only if at some message the ring
  writes its padding marker across its end.
\<close>

theorem request_end_to_end:
  assumes "module_ok st" and "request_ok rq" and "g_enabled (ps_lumbre st)" and "hooks_installed z"
    and "list_all activity_ok calls"
    and "lumbre_rinit rq st = Some st1" and "g_enabled (ps_lumbre st1)" and "ring_model (ring_of st1) ms"
    and "trace_activities (env_of st1) calls (tracer_of st1) = (out, spans, t)"
  shows "case run_request z rq calls st of
      None \<Rightarrow> \<exists>pre m post rb. map span_image (spans @ [root_final st1 t]) = pre @ m # post \<and>
        ring_offers 16384 pre (ring_of st1) = Some rb \<and> ring_accepts rb m \<and> marker_overruns rb m
    | Some st' \<Rightarrow> \<exists>kept. subseq kept (offered (env_of st1) (spans @ [root_final st1 t])) \<and>
        ring_model (ring_of st') (ms @ kept) \<and>
        rb_dropped (ring_of st') = rb_dropped (ring_of st1) +
          of_nat (length (offered (env_of st1) (spans @ [root_final st1 t])) - length kept) \<and>
        module_ok st' \<and> cx_active (g_ctx (ps_lumbre st')) = 0"
  using request_spec [OF assms] request_fault [OF assms] by (simp split: option.split)

theorem request_end_to_end_witness:
  "\<exists>st1 out spans t. lumbre_rinit sample_os_request sample_module = Some st1 \<and>
     trace_activities (env_of st1) sample_calls (tracer_of st1) = (out, spans, t) \<and>
     (case run_request sample_hooks sample_os_request sample_calls sample_module of
        None \<Rightarrow> \<exists>pre m post rb. map span_image (spans @ [root_final st1 t]) = pre @ m # post \<and>
          ring_offers 16384 pre (ring_of st1) = Some rb \<and> ring_accepts rb m \<and> marker_overruns rb m
      | Some st' \<Rightarrow> \<exists>kept. subseq kept (offered (env_of st1) (spans @ [root_final st1 t])) \<and>
          ring_model (ring_of st') ([] @ kept) \<and>
          rb_dropped (ring_of st') = rb_dropped (ring_of st1) +
            of_nat (length (offered (env_of st1) (spans @ [root_final st1 t])) - length kept) \<and>
          module_ok st' \<and> cx_active (g_ctx (ps_lumbre st')) = 0)"
proof -
  obtain st1 where st1: "lumbre_rinit sample_os_request sample_module = Some st1" "g_enabled (ps_lumbre st1)"
    "ring_model (ring_of st1) []"
    using sample_rinit .
  obtain out spans t where trace: "trace_activities (env_of st1) sample_calls (tracer_of st1) = (out, spans, t)"
    by (cases "trace_activities (env_of st1) sample_calls (tracer_of st1)")
  have "module_ok sample_module" using sample_module_ok(1) by (simp add: worker_ok_def)
  from request_end_to_end [OF this sample_request_ok sample_module_ok(3) sample_hooks_installed
      sample_calls_ok st1 trace]
  show ?thesis using st1(1) trace by blast
qed

text \<open>
  C11: \<^verbatim>\<open>RINIT\<close> never faults and keeps the module's invariant; it either disables the module,
  leaving the context as it was, or starts a trace: an active context whose counter stands at 2
  and whose current parent is the root span, number 1, of type HTTP_IN and without parent.
\<close>

theorem rinit_starts_or_disables:
  assumes "module_ok st" and "request_ok rq" and "g_enabled (ps_lumbre st)"
  shows "\<exists>st'. lumbre_rinit rq st = Some st' \<and> module_ok st' \<and>
    (if g_enabled (ps_lumbre st')
     then cx_active (g_ctx (ps_lumbre st')) \<noteq> 0 \<and> cx_span_counter (g_ctx (ps_lumbre st')) = 2 \<and>
       cx_current_parent_id (g_ctx (ps_lumbre st')) = 1 \<and> cx_root_span_id (g_ctx (ps_lumbre st')) = 1 \<and>
       sp_span_id (g_root_span (ps_lumbre st')) = 1 \<and> sp_parent_id (g_root_span (ps_lumbre st')) = 0 \<and>
       sp_type (g_root_span (ps_lumbre st')) = LUMBRE_SPAN_HTTP_IN \<and>
       sp_trace_id (g_root_span (ps_lumbre st')) = cx_trace_id (g_ctx (ps_lumbre st'))
     else g_ctx (ps_lumbre st') = g_ctx (ps_lumbre st))"
proof -
  obtain st' where st': "lumbre_rinit rq st = Some st'" "module_ok st'"
    "if g_enabled (ps_lumbre st') then request_started st' else g_ctx (ps_lumbre st') = g_ctx (ps_lumbre st)"
    using rinit_spec [OF assms] by blast
  then show ?thesis
    by (intro exI [of _ st']) (simp add: request_started_def ready_def root_ok_def Let_def split: if_splits)
qed

theorem rinit_starts_or_disables_witness:
  "\<exists>st'. lumbre_rinit sample_os_request sample_module = Some st' \<and> module_ok st' \<and>
     cx_span_counter (g_ctx (ps_lumbre st')) = 2"
proof -
  have "module_ok sample_module" using sample_module_ok(1) by (simp add: worker_ok_def)
  moreover obtain st1 where "lumbre_rinit sample_os_request sample_module = Some st1" "g_enabled (ps_lumbre st1)"
    using sample_rinit .
  ultimately show ?thesis
    using rinit_starts_or_disables [OF _ sample_request_ok sample_module_ok(3)] by auto
qed

subsection \<open>The calls of a request\<close>

text \<open>
  C9: The hooks implement the abstract tracing: running a workload through both hooks returns or
  bails out as the workload does, offers to the ring exactly the images of the spans the
  description gives, in its order, and leaves the tracer (counter, current parent, settings) in
  the state it gives; it faults exactly where the ring does.
\<close>

theorem calls_refine_trace:
  assumes "hooks_installed z" and "list_all activity_ok calls" and "ready e st"
  shows "case trace_activities e calls (tracer_of st) of (out, spans, t) \<Rightarrow>
    (case ring_offers (te_capacity e) (map span_image spans) (ring_of st) of
       None \<Rightarrow> run_activities z calls st = None
     | Some rb \<Rightarrow> \<exists>st'. run_activities z calls st = Some (out, st') \<and> ready e st' \<and>
         ring_of st' = rb \<and> tracer_of st' = t)"
  using run_follows(2) [OF assms] by (simp add: follows_def)

theorem calls_refine_trace_witness:
  "\<exists>st1 out spans t rb st'. lumbre_rinit sample_os_request sample_module = Some st1 \<and>
     trace_activities (env_of st1) sample_calls (tracer_of st1) = (out, spans, t) \<and>
     ring_offers (te_capacity (env_of st1)) (map span_image spans) (ring_of st1) = Some rb \<and>
     run_activities sample_hooks sample_calls st1 = Some (out, st') \<and> ring_of st' = rb \<and> tracer_of st' = t"
proof -
  obtain st1 where st1: "lumbre_rinit sample_os_request sample_module = Some st1" "request_started st1"
    "ring_model (ring_of st1) []" "rb_offset (ring_of st1) = 0" "module_ok st1"
    using sample_rinit .
  obtain out' st2 where "run_activities sample_hooks sample_calls st1 = Some (out', st2)"
    using sample_calls_run [OF sample_hooks_installed st1(2-5)] .
  moreover have "ready (env_of st1) st1" using st1(2) by (simp add: request_started_def Let_def)
  ultimately show ?thesis
    using calls_refine_trace [OF sample_hooks_installed sample_calls_ok, of "env_of st1" st1] st1(1)
    by (auto split: option.splits prod.splits)
qed

text \<open>
  C10: Tracing is transparent. Let \<^verbatim>\<open>MINIT\<close> put the hooks in front of the functions it found. A workload
  that runs to its end behind them, whatever state the tracer is in, has the outcome it has without them,
  reaches the same engine functions (another extension's hook included) with the same frames in the same
  order, prints the same, raises the same warnings, makes the same system calls, and leaves the clock and
  every setting the same. The hooks can keep a workload from its end in one case only, and never outside
  a traced request: the ring writes its padding marker across its end at one of the workload's messages.
\<close>

theorem hooks_transparent:
  assumes "hooks_absent z0" and "z = snd (lumbre_minit ini (g, z0))"
  shows "case run_activities z calls st of
      Some (out, st') \<Rightarrow> \<exists>st0. run_activities z0 calls st = Some (out, st0) \<and>
        ps_reached st' = ps_reached st0 \<and> ps_output st' = ps_output st0 \<and>
        ps_warnings st' = ps_warnings st0 \<and> ps_calls st' = ps_calls st0 \<and> ps_now st' = ps_now st0 \<and>
        settings (ps_lumbre st') = settings (ps_lumbre st0)
    | None \<Rightarrow> zend_execute_ex z0 \<noteq> None \<and> list_all activity_ok calls \<longrightarrow>
        cx_active (g_ctx (ps_lumbre st)) \<noteq> 0 \<and>
        (module_ok st \<and> request_started st \<longrightarrow>
          (\<exists>pre m post rb. map span_image (fst (snd (trace_activities (env_of st) calls (tracer_of st)))) = pre @ m # post \<and>
            ring_offers 16384 pre (ring_of st) = Some rb \<and> ring_accepts rb m \<and> marker_overruns rb m))"
proof (cases "run_activities z calls st")
  case (Some r)
  obtain out st' where "r = (out, st')" by (cases r)
  with Some shadowsD [OF run_shadows [OF assms(1) minit_targets [OF assms(1), of ini g]], of calls st out st' st]
  show ?thesis by (auto simp: assms(2) program_view_iff)
next
  case None
  have "cx_active (g_ctx (ps_lumbre st)) \<noteq> 0"
    if "zend_execute_ex z0 \<noteq> None"
    using inactive_run(2) [of z st calls] that None by (auto simp: assms(2) minit_hooks)
  moreover have "\<exists>pre m post rb. map span_image (fst (snd (trace_activities (env_of st) calls (tracer_of st)))) = pre @ m # post \<and>
      ring_offers 16384 pre (ring_of st) = Some rb \<and> ring_accepts rb m \<and> marker_overruns rb m"
    if "zend_execute_ex z0 \<noteq> None" "list_all activity_ok calls" "module_ok st" "request_started st"
  proof -
    have "hooks_installed z" using that(1) by (simp add: assms(2) minit_hooks)
    from calls_fault [OF this that(2-4) None] show ?thesis by blast
  qed
  ultimately show ?thesis using None by auto
qed

theorem hooks_transparent_witness:
  "\<exists>st1 st' out st0. lumbre_rinit sample_os_request sample_module = Some st1 \<and>
     run_activities (snd (lumbre_minit sample_register (zero_globals, other_hooks))) sample_calls st1 = Some (out, st') \<and>
     run_activities other_hooks sample_calls st1 = Some (out, st0) \<and>
     ps_reached st' = ps_reached st1 @ [(Other_extension 7, curl_frame)] \<and> ps_output st' = ps_output st0"
proof -
  obtain st1 where st1: "lumbre_rinit sample_os_request sample_module = Some st1" "request_started st1"
    "ring_model (ring_of st1) []" "rb_offset (ring_of st1) = 0" "module_ok st1"
    using sample_rinit .
  let ?z = "snd (lumbre_minit sample_register (zero_globals, other_hooks))"
  have absent: "hooks_absent other_hooks" by (simp add: hooks_absent_def other_hooks_def)
  have "hooks_installed ?z" using minit_hooks by (simp add: other_hooks_def)
  from sample_calls_run [OF this st1(2-5)] obtain out st2 where run: "run_activities ?z sample_calls st1 = Some (out, st2)" .
  from hooks_transparent [OF absent refl, where ini = sample_register and g = zero_globals and calls = sample_calls and st = st1] run
  obtain st0 where st0: "run_activities other_hooks sample_calls st1 = Some (out, st0)"
    "ps_reached st2 = ps_reached st0" "ps_output st2 = ps_output st0"
    by auto
  moreover have "through_internal other_hooks ed h = dispatch h (Other_extension 7) ed" for ed h
    by (simp add: through_internal_def other_hooks_def fun_eq_iff)
  then have "ps_reached st0 = ps_reached st1 @ [(Other_extension 7, curl_frame)]"
    using st0(1) by (auto simp: sample_calls_def dispatch_def)
  ultimately show ?thesis using run st1(1) by auto
qed

text \<open>
  C12: The messages of a traced request identify themselves and each other: as long as the 64-bit counter
  has room for the calls, what the consumer decodes from the messages a request adds to the ring are
  distinct span identifiers, 1 without a parent for the request's own span, and for every other message
  an identifier above 1 whose parent started before it within the request; and after a normal return of
  all calls the current parent is the root span again.
\<close>

theorem trace_ids_unique:
  assumes "module_ok st" and "request_ok rq" and "g_enabled (ps_lumbre st)" and "hooks_installed z"
    and "list_all activity_ok calls" and "2 + sum_list (map call_count calls) < 18446744073709551616"
    and "lumbre_rinit rq st = Some st1" and "g_enabled (ps_lumbre st1)" and "ring_model (ring_of st1) ms"
    and "run_request z rq calls st = Some st'"
  shows "(\<exists>new. ring_model (ring_of st') (ms @ new) \<and> distinct (map (message_uint ''sid'') new) \<and>
      (\<forall>m \<in> set new. \<exists>sid pid. message_uint ''sid'' m = Some sid \<and> message_uint ''pid'' m = Some pid \<and>
        (sid = 1 \<and> pid = 0 \<or> 1 < sid \<and> 1 \<le> pid \<and> pid < sid))) \<and>
    (\<exists>out st2. run_activities z calls st1 = Some (out, st2) \<and>
      (out = Returned \<longrightarrow> cx_current_parent_id (g_ctx (ps_lumbre st2)) = 1))"
proof -
  have started: "request_started st1" using rinit_spec [OF assms(1-3)] assms(7,8) by auto
  obtain out spans t where trace: "trace_activities (env_of st1) calls (tracer_of st1) = (out, spans, t)"
    by (metis prod_cases3)
  note ids = request_ids [OF started assms(5,6) trace refl]
  from request_spec [OF assms(1-5,7-9) trace assms(10)] obtain new where
    new: "subseq new (offered (env_of st1) (spans @ [root_final st1 t]))" "ring_model (ring_of st') (ms @ new)"
    by blast
  have "distinct (map (message_uint ''sid'') new)" by (rule subseq_distinct [OF new(1) ids(1)])
  moreover obtain o2 st2 where st2: "run_activities z calls st1 = Some (o2, st2)"
    using assms(7,10) by (auto simp: run_request_def bind_eq_Some_conv)
  have "ready (env_of st1) st1" using started by (simp add: request_started_def Let_def)
  from run_follows(2) [OF assms(4,5) this] st2 trace have "o2 = out" "tracer_of st2 = t"
    by (auto simp: follows_def split: option.splits)
  then have "o2 = Returned \<longrightarrow> cx_current_parent_id (g_ctx (ps_lumbre st2)) = 1"
    using ids(3) by (auto simp: tracer_of_def)
  ultimately show ?thesis using new(2) subseq_sets [OF new(1)] ids(2) st2 by blast
qed

text \<open>
  The request of the sample worker without calls: its one message, in the ring, is the span numbered 1.
\<close>

theorem trace_ids_unique_witness:
  "\<exists>st' new. run_request sample_hooks sample_os_request [Echo (c_str ''a'')] sample_module = Some st' \<and>
     ring_model (ring_of st') new \<and> distinct (map (message_uint ''sid'') new) \<and>
     (\<forall>m \<in> set new. \<exists>sid. message_uint ''sid'' m = Some sid \<and> 1 \<le> sid)"
proof -
  obtain st1 where st1: "lumbre_rinit sample_os_request sample_module = Some st1" "g_enabled (ps_lumbre st1)"
    "ring_model (ring_of st1) []"
    using sample_rinit .
  obtain st where run: "run_request sample_hooks sample_os_request [Echo (c_str ''a'')] sample_module = Some st"
    using sample_request_run .
  have m: "module_ok sample_module" using sample_module_ok(1) by (simp add: worker_ok_def)
  have calls: "list_all activity_ok [Echo (c_str ''a'')]"
    "2 + sum_list (map call_count [Echo (c_str ''a'')]) < 18446744073709551616" by simp_all
  from trace_ids_unique [OF m sample_request_ok sample_module_ok(3) sample_hooks_installed calls st1 run]
  show ?thesis using run by (fastforce simp: word_le_nat_alt word_less_nat_alt)
qed

subsection \<open>The life of the module\<close>

text \<open>
  C20: \<^verbatim>\<open>GINIT\<close> and \<^verbatim>\<open>MINIT\<close> establish what everything else rests on: once the table of entries is
  registered, from the configuration or its defaults and whatever these say, a worker starts in a
  state that satisfies its invariant, without a ring, and with both hooks in place in front of the
  engine's functions.
\<close>

theorem module_startup:
  assumes "registers_entries P configured ini"
    and "zend_execute_ex z \<noteq> None"
  shows "\<exists>g g' z'. lumbre_ginit = Some g \<and> lumbre_minit ini (g, z) = (g', z') \<and> hooks_installed z' \<and>
    g_buffer_size g' = zend_ini_parse_long P
      (case configured (c_str ''lumbre.buffer_size'') of Some v \<Rightarrow> v | None \<Rightarrow> c_str ''4194304'') \<and>
    g_ringbuf_initialized g' = 0 \<and>
    worker_ok \<lparr>ps_lumbre = g', ps_now = now, ps_worker_counter = wc, ps_calls = [], ps_warnings = 0,
      ps_output = [], ps_reached = []\<rparr>"
  by (rule startup_spec [OF assms])

theorem module_startup_witness:
  "\<exists>g g' z'. lumbre_ginit = Some g \<and>
     lumbre_minit sample_register
       (g, \<lparr>zend_execute_internal = None, zend_execute_ex = Some Zend_execute_ex,
            lumbre_original_execute_internal = None, lumbre_original_execute_ex = None\<rparr>) = (g', z') \<and>
     hooks_installed z' \<and> g_buffer_size g' = 4194304 \<and> g_ringbuf_initialized g' = 0"
proof -
  have reg: "registers_entries sample_parsers (\<lambda>_. None) sample_register"
    by (simp add: registers_entries_def sample_register_def)
  have "c_strtol (c_str ''4194304'') = 4194304" by code_simp
  then have "zend_ini_parse_long sample_parsers
      (case (\<lambda>_. None) (c_str ''lumbre.buffer_size'') of Some v \<Rightarrow> v | None \<Rightarrow> c_str ''4194304'') = 4194304"
    by (simp add: sample_parsers_def)
  with module_startup [OF reg, where now = "Timespec 0 0" and wc = 0 and
      z = "\<lparr>zend_execute_internal = None, zend_execute_ex = Some Zend_execute_ex,
        lumbre_original_execute_internal = None, lumbre_original_execute_ex = None\<rparr>"]
  show ?thesis by auto
qed

text \<open>
  \<^verbatim>\<open>MSHUTDOWN\<close> undoes what the module did to the engine: both hook pointers are again what they
  were before \<^verbatim>\<open>MINIT\<close>, whatever extension owned them; a ring that was initialised is unmapped and
  closed, and its file removed unless the SAPI is the CLI; the buffer is freed and the table cleared.
\<close>

theorem mshutdown_undoes:
  "case lumbre_mshutdown sapi (st, snd (lumbre_minit ini (g, z))) of (st', z') \<Rightarrow>
     zend_execute_internal z' = zend_execute_internal z \<and> zend_execute_ex z' = zend_execute_ex z \<and>
     g_whitelist (ps_lumbre st') = zero_table \<and> \<not> g_mp_storage (ps_lumbre st') \<and>
     ps_calls st' = ps_calls st @
       (if g_ringbuf_initialized (ps_lumbre st) = 0 \<or> rb_header (ring_of st) = None then []
        else [Sys_munmap (rb_mmap_size (ring_of st)), Sys_close (rb_fd (ring_of st))] @
          (if sapi = Some (c_str ''cli'') then [] else [Sys_unlink (rb_path (ring_of st))]))"
  by (auto simp: lumbre_mshutdown_def lumbre_minit_def lumbre_ringbuf_destroy_def ring_of_def
      lumbre_whitelist_destroy_def Let_def split: option.splits)

end
